(* ===== verification/C_Prelude.thy ===== *)
theory C_Prelude
  imports Main
begin

section \<open>Prelude: C values, strings and faults\<close>

text \<open>
  The vocabulary every component of the development shares.  A C \<^verbatim>\<open>char\<close> array is a
  list of HOL characters (bytes) of the array's length; the C string held in it is what
  comes before the first NUL.  An access the C standard leaves undefined is a value of
  \<open>c_fault\<close>, so that a function that may go wrong returns a \<open>'a cres\<close>: \<open>Inl\<close>
  of the fault or \<open>Inr\<close> of the result.  The library routines the sources call on
  strings (\<^verbatim>\<open>strlen\<close>, \<^verbatim>\<open>strchr\<close>, \<^verbatim>\<open>strstr\<close>, \<^verbatim>\<open>atoi\<close>, \<^verbatim>\<open>sscanf("%s")\<close>,
  \<^verbatim>\<open>sprintf("%d")\<close>) are given here by their documented meaning, with the facts about
  them that the components use.
\<close>

named_theorems c_mem "facts about arrays and the strings held in them"

subsection \<open>Bytes and faults\<close>

type_synonym bytes = "char list"

abbreviation NUL :: char where "NUL \<equiv> CHR 0x00"
abbreviation TAB :: char where "TAB \<equiv> CHR 0x09"
abbreviation NL :: char where "NL \<equiv> CHR 0x0A"
abbreviation CR :: char where "CR \<equiv> CHR 0x0D"
abbreviation SP :: char where "SP \<equiv> CHR 0x20"

datatype c_fault =
    Out_Of_Bounds \<comment> \<open>an array is read or written outside its bounds\<close>
  | Uninitialised \<comment> \<open>an object is read before it is written\<close>
  | Null_Pointer \<comment> \<open>a null pointer is passed where a string is required\<close>
  | Use_After_Free \<comment> \<open>a freed object is accessed\<close>
  | Signed_Overflow \<comment> \<open>a signed result does not fit its type\<close>

type_synonym 'a cres = "c_fault + 'a"

definition cbind :: "'a cres \<Rightarrow> ('a \<Rightarrow> 'b cres) \<Rightarrow> 'b cres" where
  "cbind m f = (case m of Inl e \<Rightarrow> Inl e | Inr x \<Rightarrow> f x)"

lemma cbind_simps [simp]:
  "cbind (Inl e) f = Inl e"
  "cbind (Inr x) f = f x"
  by (simp_all add: cbind_def)

lemma cbind_eq_Inr [simp]: "cbind m f = Inr y \<longleftrightarrow> (\<exists>x. m = Inr x \<and> f x = Inr y)"
  by (cases m) auto

definition c_ok :: "'a cres \<Rightarrow> bool" where
  "c_ok r = (case r of Inl e \<Rightarrow> False | Inr x \<Rightarrow> True)"

lemma c_ok_simps [simp]: "c_ok (Inr x)" "\<not> c_ok (Inl e)"
  by (simp_all add: c_ok_def)

lemma c_ok_iff: "c_ok r \<longleftrightarrow> (\<exists>x. r = Inr x)"
  by (cases r) auto

subsection \<open>Signed 32-bit results\<close>

definition c_int :: "int \<Rightarrow> int cres" where
  "c_int v = (if - (2 ^ 31) \<le> v \<and> v < 2 ^ 31 then Inr v else Inl Signed_Overflow)"

lemma c_int_Inr [simp]: "c_int v = Inr w \<longleftrightarrow> w = v \<and> - (2 ^ 31) \<le> v \<and> v < 2 ^ 31"
  by (auto simp: c_int_def)

subsection \<open>Strings in arrays\<close>

definition cstr :: "bytes \<Rightarrow> bytes" where
  "cstr b = takeWhile (\<lambda>c. c \<noteq> NUL) b"

definition cstr_at :: "bytes \<Rightarrow> nat \<Rightarrow> bytes" where
  "cstr_at b i = cstr (drop i b)"

text \<open>A string is readable from an array only if the array holds its terminator.\<close>

definition terminated :: "bytes \<Rightarrow> bool" where
  "terminated b \<longleftrightarrow> NUL \<in> set b"

definition read_cstr :: "bytes \<Rightarrow> bytes cres" where
  "read_cstr b = (if terminated b then Inr (cstr b) else Inl Out_Of_Bounds)"

text \<open>\<^verbatim>\<open>strcpy\<close> or \<^verbatim>\<open>sprintf\<close> of a string into an array: the bytes after the
  terminator keep their old values.\<close>

definition store_cstr :: "bytes \<Rightarrow> bytes \<Rightarrow> bytes cres" where
  "store_cstr buf s =
     (if length s < length buf then Inr (s @ NUL # drop (Suc (length s)) buf)
      else Inl Out_Of_Bounds)"

text \<open>\<^verbatim>\<open>read(fd, buf, n)\<close> that delivered the bytes \<open>d\<close>.\<close>

definition fill :: "bytes \<Rightarrow> bytes \<Rightarrow> bytes" where
  "fill buf d = d @ drop (length d) buf"

definition set_byte :: "bytes \<Rightarrow> int \<Rightarrow> char \<Rightarrow> bytes cres" where
  "set_byte buf i c =
     (if 0 \<le> i \<and> i < int (length buf) then Inr (buf[nat i := c]) else Inl Out_Of_Bounds)"

lemma cstr_simps [simp]:
  "cstr [] = []"
  "cstr (c # b) = (if c = NUL then [] else c # cstr b)"
  by (simp_all add: cstr_def)

lemma cstr_terminator [c_mem]: "NUL \<notin> set s \<Longrightarrow> cstr (s @ NUL # r) = s"
  by (induction s) auto

lemma cstr_no_nul [c_mem]: "NUL \<notin> set s \<Longrightarrow> cstr s = s"
  by (induction s) auto

lemma NUL_notin_cstr [simp]: "NUL \<notin> set (cstr b)"
  by (auto simp: cstr_def dest: set_takeWhileD)

lemma length_cstr_le: "length (cstr b) \<le> length b"
  by (simp add: cstr_def length_takeWhile_le)

lemma length_cstr_less: "terminated b \<Longrightarrow> length (cstr b) < length b"
  by (induction b) (auto simp: terminated_def)

lemma length_fill [c_mem]: "length d \<le> length buf \<Longrightarrow> length (fill buf d) = length buf"
  by (simp add: fill_def)

lemma store_cstr_Inr:
  "store_cstr buf s = Inr b \<Longrightarrow> length b = length buf \<and> terminated b"
  by (auto simp: store_cstr_def terminated_def split: if_splits)

lemma cstr_store_cstr:
  "store_cstr buf s = Inr b \<Longrightarrow> NUL \<notin> set s \<Longrightarrow> cstr b = s"
  by (auto simp: store_cstr_def c_mem split: if_splits)

lemma fill_terminate [c_mem]:
  "length d < length buf \<Longrightarrow>
   set_byte (fill buf d) (int (length d)) NUL = Inr (d @ NUL # drop (Suc (length d)) buf)"
  by (auto simp: set_byte_def fill_def list_update_append Cons_nth_drop_Suc [symmetric])

lemma fill_terminate_overrun [c_mem]:
  "length d = length buf \<Longrightarrow> set_byte (fill buf d) (int (length d)) NUL = Inl Out_Of_Bounds"
  by (simp add: set_byte_def fill_def)

subsection \<open>Searching: strchr, strstr, strncmp\<close>

fun strchr :: "bytes \<Rightarrow> char \<Rightarrow> nat option" where
  "strchr [] c = None"
| "strchr (x # xs) c = (if x = c then Some 0 else map_option Suc (strchr xs c))"

fun starts :: "bytes \<Rightarrow> bytes \<Rightarrow> bool" where
  "starts [] s = True"
| "starts (p # ps) [] = False"
| "starts (p # ps) (c # cs) = (p = c \<and> starts ps cs)"

fun strstr :: "bytes \<Rightarrow> bytes \<Rightarrow> nat option" where
  "strstr [] p = (if p = [] then Some 0 else None)"
| "strstr (x # xs) p = (if starts p (x # xs) then Some 0 else map_option Suc (strstr xs p))"

lemma starts_iff: "starts p s \<longleftrightarrow> (\<exists>r. s = p @ r)"
  by (induction p s rule: starts.induct) auto

lemma starts_append [simp]: "starts p (p @ r)"
  by (auto simp: starts_iff)

lemma strchr_None: "strchr s c = None \<longleftrightarrow> c \<notin> set s"
  by (induction s) auto

lemma strchr_Some:
  "strchr s c = Some i \<Longrightarrow> i < length s \<and> s ! i = c \<and> c \<notin> set (take i s)"
  by (induction s arbitrary: i) (auto split: if_splits)

lemma strstr_Some: "strstr s p = Some i \<Longrightarrow> i \<le> length s \<and> starts p (drop i s)"
  by (induction s p arbitrary: i rule: strstr.induct) (auto split: if_splits)

lemma strstr_None: "strstr s p = None \<longleftrightarrow> \<not> (\<exists>u v. s = u @ p @ v)"
proof (induction s p rule: strstr.induct)
  case (1 p)
  then show ?case by auto
next
  case (2 x xs p)
  have "(\<exists>u v. x # xs = u @ p @ v) \<longleftrightarrow> starts p (x # xs) \<or> (\<exists>u v. xs = u @ p @ v)"
    by (auto simp: starts_iff Cons_eq_append_conv)
  with "2" show ?case by auto
qed

subsection \<open>White space and tokens: scanf("%s")\<close>

definition is_space :: "char \<Rightarrow> bool" where
  "is_space c \<longleftrightarrow> c \<in> {SP, TAB, NL, CHR 0x0B, CHR 0x0C, CR}"

lemma NUL_not_space [simp]: "\<not> is_space NUL"
  by (simp add: is_space_def)

definition skip_space :: "bytes \<Rightarrow> bytes" where
  "skip_space s = dropWhile is_space s"

text \<open>One conversion \<^verbatim>\<open>%s\<close>: the token and the input left behind, or \<open>None\<close> at the
  end of the input.\<close>

definition scan_word :: "bytes \<Rightarrow> (bytes \<times> bytes) option" where
  "scan_word s =
     (let t = skip_space s in
      if t = [] then None
      else Some (takeWhile (\<lambda>c. \<not> is_space c) t, dropWhile (\<lambda>c. \<not> is_space c) t))"

text \<open>A token: not empty, without white space.\<close>

definition is_token :: "bytes \<Rightarrow> bool" where
  "is_token w \<longleftrightarrow> w \<noteq> [] \<and> (\<forall>c \<in> set w. \<not> is_space c)"

lemma scan_word_token: "scan_word s = Some (w, r) \<Longrightarrow> is_token w"
proof -
  assume a: "scan_word s = Some (w, r)"
  let ?t = "skip_space s"
  from a have t: "?t \<noteq> []" and w: "w = takeWhile (\<lambda>c. \<not> is_space c) ?t"
    by (auto simp: scan_word_def Let_def split: if_splits)
  from t have "\<not> is_space (hd ?t)"
    by (simp add: skip_space_def hd_dropWhile)
  with t w show ?thesis
    by (cases ?t) (auto simp: is_token_def dest: set_takeWhileD)
qed

lemma scan_word_shorter: "scan_word s = Some (w, r) \<Longrightarrow> length r < length s"
proof -
  assume a: "scan_word s = Some (w, r)"
  let ?t = "skip_space s"
  have "is_token w" using a by (rule scan_word_token)
  moreover from a have "?t = w @ r"
    by (auto simp: scan_word_def Let_def split: if_splits)
  ultimately have "length r < length ?t" by (simp add: is_token_def)
  also have "\<dots> \<le> length s" by (simp add: skip_space_def length_dropWhile_le)
  finally show ?thesis .
qed

lemma scan_word_append:
  assumes "is_token w" and "is_space x"
  shows "scan_word (w @ x # r) = Some (w, x # r)"
  using assms
  by (cases w) (auto simp: scan_word_def skip_space_def is_token_def Let_def
      takeWhile_tail dropWhile_append3)

lemma scan_word_last: "is_token w \<Longrightarrow> scan_word w = Some (w, [])"
  by (cases w) (auto simp: scan_word_def skip_space_def is_token_def Let_def)

lemma scan_word_skip: "is_space x \<Longrightarrow> scan_word (x # s) = scan_word s"
  by (simp add: scan_word_def skip_space_def)

lemma scan_word_Nil [simp]: "scan_word [] = None"
  by (simp add: scan_word_def skip_space_def)

text \<open>One conversion into an array of \<open>n\<close> bytes, without a field width: the word, if there is
  one, and what is left.\<close>

definition scan_field :: "nat \<Rightarrow> bytes \<Rightarrow> (bytes option \<times> bytes) cres" where
  "scan_field n s = (case scan_word s of
      None \<Rightarrow> Inr (None, [])
    | Some (w, r) \<Rightarrow> if length w < n then Inr (Some w, r) else Inl Out_Of_Bounds)"

subsection \<open>Decimal numbers: atoi and sprintf("%d")\<close>

definition is_digit :: "char \<Rightarrow> bool" where
  "is_digit c \<longleftrightarrow> (48 :: nat) \<le> of_char c \<and> (of_char c :: nat) \<le> 57"

definition digit_val :: "char \<Rightarrow> nat" where
  "digit_val c = of_char c - 48"

definition digit :: "nat \<Rightarrow> char" where
  "digit n = char_of (48 + n)"

fun show_nat :: "nat \<Rightarrow> bytes" where
  "show_nat n = (if n < 10 then [digit n] else show_nat (n div 10) @ [digit (n mod 10)])"

declare show_nat.simps [simp del]

definition show_int :: "int \<Rightarrow> bytes" where
  "show_int i = (if i < 0 then CHR ''-'' # show_nat (nat (- i)) else show_nat (nat i))"

definition digits_val :: "bytes \<Rightarrow> nat" where
  "digits_val ds = foldl (\<lambda>n c. 10 * n + digit_val c) 0 (takeWhile is_digit ds)"

text \<open>\<^verbatim>\<open>atoi\<close>: leading white space, a sign, the longest run of digits.  The
  standard leaves a value out of the range of \<^verbatim>\<open>int\<close> undefined.\<close>

definition atoi :: "bytes \<Rightarrow> int cres" where
  "atoi s =
     (case skip_space s of
        [] \<Rightarrow> Inr 0
      | c # t \<Rightarrow> c_int (if c = CHR ''-'' then - int (digits_val t)
                     else if c = CHR ''+'' then int (digits_val t)
                     else int (digits_val (c # t))))"

text \<open>\<^verbatim>\<open>atoi\<close> of what an array holds: the conversion stops at the first byte that is
  not part of the number, and runs out of the array if there is none.\<close>

definition number_tail :: "bytes \<Rightarrow> bytes" where
  "number_tail b =
     dropWhile is_digit (case skip_space b of [] \<Rightarrow> []
       | c # t \<Rightarrow> if c = CHR ''-'' \<or> c = CHR ''+'' then t else c # t)"

definition atoi_mem :: "bytes \<Rightarrow> int cres" where
  "atoi_mem b = (if number_tail b = [] then Inl Out_Of_Bounds else atoi b)"

lemma digit_props:
  assumes "n < 10"
  shows "is_digit (digit n)" "digit_val (digit n) = n"
  using assms by (simp_all add: is_digit_def digit_val_def digit_def)

lemma is_digit_plain:
  "is_digit c \<Longrightarrow> c \<noteq> NUL \<and> \<not> is_space c \<and> c \<noteq> CHR ''-'' \<and> c \<noteq> CHR ''+''"
  by (auto simp: is_digit_def is_space_def)

lemma show_nat_digits: "\<forall>c \<in> set (show_nat n). is_digit c"
proof (induction n rule: show_nat.induct)
  case (1 n)
  then show ?case
    by (cases "n < 10") (auto simp: show_nat.simps [of n] digit_props)
qed

lemma show_nat_not_Nil [simp]: "show_nat n \<noteq> []"
  by (simp add: show_nat.simps)

lemma foldl_show_nat: "foldl (\<lambda>n c. 10 * n + digit_val c) 0 (show_nat n) = n"
proof (induction n rule: show_nat.induct)
  case (1 n)
  then show ?case
    by (cases "n < 10") (simp_all add: show_nat.simps [of n] digit_props)
qed

lemma digits_val_show_nat: "digits_val (show_nat n) = n"
proof -
  have "takeWhile is_digit (show_nat n) = show_nat n"
    using show_nat_digits by (simp add: takeWhile_eq_all_conv)
  then show ?thesis unfolding digits_val_def by (simp only: foldl_show_nat)
qed

lemma show_int_plain: "\<forall>c \<in> set (show_int i). c \<noteq> NUL \<and> \<not> is_space c"
  using show_nat_digits is_digit_plain by (auto simp: show_int_def is_space_def)

text \<open>Printing with \<^verbatim>\<open>%d\<close> and reading back with \<^verbatim>\<open>atoi\<close> gives the number again.\<close>

lemma atoi_show_int:
  assumes "- (2 ^ 31) \<le> i" "i < 2 ^ 31"
  shows "atoi (show_int i) = Inr i"
proof (cases "i < 0")
  case True
  have "skip_space (show_int i) = show_int i"
    using True by (simp add: show_int_def skip_space_def is_space_def)
  with True assms show ?thesis
    by (simp add: atoi_def show_int_def digits_val_show_nat)
next
  case False
  obtain c t where ct: "show_nat (nat i) = c # t"
    by (cases "show_nat (nat i)") auto
  with show_nat_digits [of "nat i"] have "is_digit c" by simp
  then have c: "\<not> is_space c" "c \<noteq> CHR ''-''" "c \<noteq> CHR ''+''"
    using is_digit_plain by blast+
  from False ct c have "atoi (show_int i) = c_int (int (digits_val (show_nat (nat i))))"
    by (simp add: atoi_def show_int_def skip_space_def)
  with False assms show ?thesis by (simp add: digits_val_show_nat)
qed

lemma length_show_nat: "n < 10 ^ Suc k \<Longrightarrow> length (show_nat n) \<le> Suc k"
proof (induction k arbitrary: n)
  case (Suc k)
  then have "n div 10 < 10 ^ Suc k" by simp
  with Suc show ?case by (cases "n < 10") (simp_all add: show_nat.simps [of n])
qed (simp add: show_nat.simps)

text \<open>A 32-bit number prints in at most 11 characters.\<close>

lemma length_show_int:
  assumes "- (2 ^ 31) \<le> i" "i < 2 ^ 31"
  shows "length (show_int i) \<le> 11"
proof -
  have "nat i < 10 ^ Suc 9" "nat (- i) < 10 ^ Suc 9" using assms by simp_all
  then have "length (show_nat (nat i)) \<le> 10" "length (show_nat (nat (- i))) \<le> 10"
    using length_show_nat by fastforce+
  then show ?thesis by (simp add: show_int_def)
qed

lemma not_digit_NUL [simp]: "\<not> is_digit NUL"
  by (simp add: is_digit_def)

lemma takeWhile_NUL: "takeWhile is_digit (s @ NUL # r) = takeWhile is_digit s"
  by (induction s) auto

lemma dropWhile_space_NUL:
  "skip_space (s @ NUL # r) = skip_space s @ NUL # r"
  by (induction s) (auto simp: skip_space_def)

lemma dropWhile_digit_NUL: "dropWhile is_digit (s @ NUL # r) = dropWhile is_digit s @ NUL # r"
  by (induction s) auto

lemma digits_val_NUL: "digits_val (s @ NUL # r) = digits_val s"
  by (simp add: digits_val_def takeWhile_NUL)

lemma digits_val_stop: "digits_val (NUL # r) = 0" "digits_val [] = 0"
  by (simp_all add: digits_val_def)

lemma c_int_zero [simp]: "c_int 0 = Inr 0"
  by (simp add: c_int_def)

text \<open>From a terminated string \<^verbatim>\<open>atoi\<close> reads the string only.\<close>

lemma atoi_mem_terminated: "atoi_mem (s @ NUL # r) = atoi s"
proof -
  have "atoi (s @ NUL # r) = atoi s \<and> number_tail (s @ NUL # r) \<noteq> []"
  proof (cases "skip_space s")
    case Nil
    then show ?thesis
      by (simp add: atoi_def number_tail_def dropWhile_space_NUL digits_val_stop)
  next
    case (Cons c t)
    have "digits_val (c # t @ NUL # r) = digits_val (c # t)" "digits_val (t @ NUL # r) = digits_val t"
      using digits_val_NUL [of "c # t" r] digits_val_NUL [of t r] by simp_all
    moreover have "dropWhile is_digit (c # t @ NUL # r) \<noteq> []" "dropWhile is_digit (t @ NUL # r) \<noteq> []"
      using dropWhile_digit_NUL [of "c # t" r] dropWhile_digit_NUL [of t r] by simp_all
    ultimately show ?thesis
      using Cons by (simp add: atoi_def number_tail_def dropWhile_space_NUL)
  qed
  then show ?thesis by (simp add: atoi_mem_def)
qed

subsection \<open>Lines: fgets\<close>

text \<open>\<open>fgets_chunk n s\<close> is what \<^verbatim>\<open>fgets(buf, n, fp)\<close> takes from the stream \<open>s\<close>:
  at most \<open>n - 1\<close> bytes, up to and including the first newline.\<close>

fun fgets_chunk :: "nat \<Rightarrow> bytes \<Rightarrow> bytes" where
  "fgets_chunk 0 s = []"
| "fgets_chunk (Suc 0) s = []"
| "fgets_chunk (Suc (Suc n)) [] = []"
| "fgets_chunk (Suc (Suc n)) (c # s) =
     (if c = NL then [c] else c # fgets_chunk (Suc n) s)"

definition fgets_rest :: "nat \<Rightarrow> bytes \<Rightarrow> bytes" where
  "fgets_rest n s = drop (length (fgets_chunk n s)) s"

lemma fgets_split [simp]: "fgets_chunk n s @ fgets_rest n s = s"
proof -
  have "take (length (fgets_chunk n s)) s = fgets_chunk n s"
    by (induction n s rule: fgets_chunk.induct) auto
  then show ?thesis unfolding fgets_rest_def by (metis append_take_drop_id)
qed

lemma fgets_chunk_length: "0 < n \<Longrightarrow> length (fgets_chunk n s) < n"
  by (induction n s rule: fgets_chunk.induct) auto

lemma fgets_chunk_Nil: "2 \<le> n \<Longrightarrow> fgets_chunk n s = [] \<longleftrightarrow> s = []"
  by (induction n s rule: fgets_chunk.induct) auto

lemma fgets_rest_shorter: "2 \<le> n \<Longrightarrow> s \<noteq> [] \<Longrightarrow> length (fgets_rest n s) < length s"
  using fgets_chunk_Nil [of n s] by (cases s) (auto simp: fgets_rest_def)

lemma fgets_chunk_line:
  "NL \<notin> set l \<Longrightarrow> Suc (length l) < n \<Longrightarrow> fgets_chunk n (l @ NL # s) = l @ [NL]"
proof (induction l arbitrary: n)
  case Nil
  then obtain m where "n = Suc (Suc m)" by (cases n; cases "n - 1") auto
  then show ?case by simp
next
  case (Cons c l)
  then obtain m where n: "n = Suc (Suc m)" by (cases n; cases "n - 1") auto
  with Cons show ?case by auto
qed

lemma takeWhile_line: "NL \<notin> set l \<Longrightarrow> takeWhile (\<lambda>c. c \<noteq> NL) (l @ NL # r) = l"
  by (induction l) auto

end
