(* ===== verification/Arg_Split.thy ===== *)
theory Arg_Split
  imports C_Prelude
begin

section \<open>Splitting a command line into arguments\<close>

text \<open>
  Two routines of the repository cut a command line into words in place:
  \<^verbatim>\<open>parse_args\<close> of \<^verbatim>\<open>project1/myshell.c\<close> and \<^verbatim>\<open>getargs\<close> of
  \<^verbatim>\<open>lab2/ch8/simplesh.c\<close>.  Both overwrite blanks of the buffer with NUL and store
  pointers into it in an array of fixed size, without a bound check.  A pointer is an
  offset into the buffer; \<open>cap\<close> is the size of the caller's pointer array, so an entry or
  the final null pointer stored at an index \<open>\<ge> cap\<close> is out of bounds.
\<close>

definition blank :: "char \<Rightarrow> bool" where
  "blank c \<longleftrightarrow> c = SP \<or> c = TAB"

lemma blank_simps [simp]: "blank SP" "blank TAB" "\<not> blank NUL"
  by (simp_all add: blank_def)

subsection \<open>parse_args: one pass with a flag\<close>

function parse_args_loop ::
  "nat \<Rightarrow> bytes \<Rightarrow> nat \<Rightarrow> bool \<Rightarrow> nat list \<Rightarrow> (bytes \<times> nat list) cres" where
  "parse_args_loop cap input i in_word args =
     (if length input \<le> i then Inl Out_Of_Bounds
      else if input ! i = NUL then
        (if length args < cap then Inr (input, args) else Inl Out_Of_Bounds)
      else if input ! i = SP \<or> input ! i = TAB then
        (if in_word then parse_args_loop cap (input[i := NUL]) (Suc i) False args
         else parse_args_loop cap input (Suc i) False args)
      else if in_word then parse_args_loop cap input (Suc i) True args
      else if length args < cap then parse_args_loop cap input (Suc i) True (args @ [i])
      else Inl Out_Of_Bounds)"
  by pat_completeness auto
termination
  by (relation "measure (\<lambda>(cap, input, i, in_word, args). length input - i)") auto

declare parse_args_loop.simps [simp del]

definition parse_args :: "nat \<Rightarrow> bytes \<Rightarrow> (bytes \<times> nat list) cres" where
  "parse_args cap input = parse_args_loop cap input 0 False []"

subsection \<open>getargs: skip blanks, then skip a word\<close>

function skip_word :: "bytes \<Rightarrow> nat \<Rightarrow> nat cres" where
  "skip_word cmd i =
     (if length cmd \<le> i then Inl Out_Of_Bounds
      else if cmd ! i \<noteq> NUL \<and> cmd ! i \<noteq> SP \<and> cmd ! i \<noteq> TAB then skip_word cmd (Suc i)
      else Inr i)"
  by pat_completeness auto
termination
  by (relation "measure (\<lambda>(cmd, i). length cmd - i)") auto

declare skip_word.simps [simp del]

lemma skip_word_ge: "skip_word cmd i = Inr j \<Longrightarrow> i \<le> j \<and> j < length cmd"
proof (induction cmd i rule: skip_word.induct)
  case (1 cmd i)
  then show ?case
    by (auto simp: skip_word.simps [of cmd i] split: if_splits)
qed

function getargs_loop :: "nat \<Rightarrow> bytes \<Rightarrow> nat \<Rightarrow> nat list \<Rightarrow> (bytes \<times> nat list) cres" where
  "getargs_loop cap cmd i argv =
     (if length cmd \<le> i then Inl Out_Of_Bounds
      else if cmd ! i = NUL then
        (if length argv < cap then Inr (cmd, argv) else Inl Out_Of_Bounds)
      else if cmd ! i = SP \<or> cmd ! i = TAB then
        getargs_loop cap (cmd[i := NUL]) (Suc i) argv
      else if length argv < cap then
        (case skip_word cmd (Suc i) of
           Inl e \<Rightarrow> Inl e
         | Inr j \<Rightarrow> getargs_loop cap cmd j (argv @ [i]))
      else Inl Out_Of_Bounds)"
  by pat_completeness auto
termination
  by (relation "measure (\<lambda>(cap, cmd, i, argv). length cmd - i)") (auto dest: skip_word_ge)

declare getargs_loop.simps [simp del]

definition getargs :: "nat \<Rightarrow> bytes \<Rightarrow> (bytes \<times> nat list) cres" where
  "getargs cap cmd = getargs_loop cap cmd 0 []"

subsection \<open>The words of a line\<close>

text \<open>The specification: the maximal runs of non-blank characters, in order.\<close>

function blank_words :: "bytes \<Rightarrow> bytes list" where
  "blank_words s =
     (case dropWhile blank s of
        [] \<Rightarrow> []
      | c # t \<Rightarrow> (c # takeWhile (\<lambda>c. \<not> blank c) t) # blank_words (dropWhile (\<lambda>c. \<not> blank c) t))"
  by pat_completeness auto
termination
proof (relation "measure length")
  fix s c t
  assume "dropWhile blank s = c # t"
  then have "length (c # t) \<le> length s" by (metis length_dropWhile_le)
  moreover have "length (dropWhile (\<lambda>c. \<not> blank c) t) \<le> length t" by (rule length_dropWhile_le)
  ultimately show "(dropWhile (\<lambda>c. \<not> blank c) t, s) \<in> measure length" by simp
qed simp

declare blank_words.simps [simp del]

lemma blank_words_simps [simp]:
  "blank_words [] = []"
  "blank c \<Longrightarrow> blank_words (c # s) = blank_words s"
  "\<not> blank c \<Longrightarrow> blank_words (c # s) =
     (c # takeWhile (\<lambda>c. \<not> blank c) s) # blank_words (dropWhile (\<lambda>c. \<not> blank c) s)"
  by (simp_all add: blank_words.simps [of "[]"] blank_words.simps [of "c # s"]
      blank_words.simps [of s])

text \<open>
  What the pass over the rest \<open>s\<close> of a line does, seen from the rest alone: the offsets it
  stores (relative to the line's start) and the text it leaves.
\<close>

fun word_offsets :: "nat \<Rightarrow> bool \<Rightarrow> bytes \<Rightarrow> nat list" where
  "word_offsets i w [] = []"
| "word_offsets i w (c # s) =
     (if blank c then word_offsets (Suc i) False s
      else if w then word_offsets (Suc i) True s
      else i # word_offsets (Suc i) True s)"

fun cut_words :: "bool \<Rightarrow> bytes \<Rightarrow> bytes" where
  "cut_words w [] = []"
| "cut_words w (c # s) =
     (if blank c then (if w then NUL else c) # cut_words False s else c # cut_words True s)"

fun cut_blanks :: "bytes \<Rightarrow> bytes" where
  "cut_blanks [] = []"
| "cut_blanks (c # s) = (if blank c then NUL else c) # cut_blanks s"

lemma length_cut [simp]:
  "length (cut_words w s) = length s"
  "length (cut_blanks s) = length s"
  by (induction w s rule: cut_words.induct) auto

lemma nth_middle [simp]: "(pre @ c # r) ! length pre = c"
  by simp

text \<open>The pass of \<^verbatim>\<open>parse_args\<close>, closed form.\<close>

lemma parse_args_loop_eq:
  assumes "NUL \<notin> set s"
  shows "parse_args_loop cap (pre @ s @ NUL # r) (length pre) w args =
    (if length args + length (word_offsets (length pre) w s) < cap
     then Inr (pre @ cut_words w s @ NUL # r, args @ word_offsets (length pre) w s)
     else Inl Out_Of_Bounds)"
  using assms
proof (induction s arbitrary: pre w args)
  case Nil
  then show ?case by (simp add: parse_args_loop.simps)
next
  case (Cons c s)
  have c: "c \<noteq> NUL" and s: "NUL \<notin> set s" using Cons.prems by auto
  note step = parse_args_loop.simps [of cap "pre @ (c # s) @ NUL # r" "length pre" w args]
  have upd: "(pre @ c # s @ NUL # r)[length pre := NUL] = (pre @ [NUL]) @ s @ NUL # r"
    by (simp add: list_update_append)
  note IH = Cons.IH [OF s, of "pre @ [NUL]"] Cons.IH [OF s, of "pre @ [c]"]
  show ?case
    using c step IH upd by (auto simp: blank_def)
qed

text \<open>The pass of \<^verbatim>\<open>getargs\<close> visits the words' starts only; the offsets are the same
  and every blank is overwritten.\<close>

lemma skip_word_eq:
  assumes "NUL \<notin> set s"
  shows "skip_word (pre @ s @ NUL # r) (length pre)
    = Inr (length pre + length (takeWhile (\<lambda>c. \<not> blank c) s))"
  using assms
proof (induction s arbitrary: pre)
  case Nil
  then show ?case by (simp add: skip_word.simps)
next
  case (Cons c s)
  then have "NUL \<notin> set s" by simp
  from Cons.IH [OF this, of "pre @ [c]"] Cons.prems show ?case
    by (auto simp: skip_word.simps [of _ "length pre"] blank_def)
qed

lemma word_offsets_in_word:
  "word_offsets i True s =
   word_offsets (i + length (takeWhile (\<lambda>c. \<not> blank c) s)) False (dropWhile (\<lambda>c. \<not> blank c) s)"
  by (induction s arbitrary: i) auto

lemma cut_blanks_word:
  "cut_blanks s = takeWhile (\<lambda>c. \<not> blank c) s @ cut_blanks (dropWhile (\<lambda>c. \<not> blank c) s)"
  by (induction s) auto

text \<open>One turn of the loop, at a blank and at the first byte of a word.\<close>

lemma getargs_at_blank:
  assumes "c \<noteq> NUL" "blank c"
  shows "getargs_loop cap (pre @ c # t @ NUL # r) (length pre) argv
    = getargs_loop cap ((pre @ [NUL]) @ t @ NUL # r) (length (pre @ [NUL])) argv"
  using assms getargs_loop.simps [of cap "pre @ c # t @ NUL # r" "length pre" argv]
  by (auto simp: list_update_append blank_def)

lemma getargs_at_word:
  assumes "c \<noteq> NUL" "\<not> blank c" "NUL \<notin> set t"
  shows "getargs_loop cap (pre @ c # t @ NUL # r) (length pre) argv
    = (if length argv < cap
       then getargs_loop cap (pre @ c # t @ NUL # r) (length (pre @ c # takeWhile (\<lambda>c. \<not> blank c) t)) (argv @ [length pre])
       else Inl Out_Of_Bounds)"
  using assms getargs_loop.simps [of cap "pre @ c # t @ NUL # r" "length pre" argv]
    skip_word_eq [OF assms(3), of "pre @ [c]" r]
  by (auto simp: blank_def)

lemma getargs_loop_eq:
  assumes "NUL \<notin> set s"
  shows "getargs_loop cap (pre @ s @ NUL # r) (length pre) argv =
    (if length argv + length (word_offsets (length pre) False s) < cap
     then Inr (pre @ cut_blanks s @ NUL # r, argv @ word_offsets (length pre) False s)
     else Inl Out_Of_Bounds)"
  using assms
proof (induction "length s" arbitrary: s pre argv rule: less_induct)
  case less
  show ?case
  proof (cases s)
    case Nil
    then show ?thesis by (simp add: getargs_loop.simps)
  next
    case (Cons c t)
    with less.prems have c: "c \<noteq> NUL" and t: "NUL \<notin> set t" by auto
    show ?thesis
    proof (cases "blank c")
      case True
      then show ?thesis
        using less.hyps [of t "pre @ [NUL]" argv] Cons t c by (simp add: getargs_at_blank)
    next
      case False
      let ?w = "takeWhile (\<lambda>c. \<not> blank c) t" and ?d = "dropWhile (\<lambda>c. \<not> blank c) t"
      have split: "(pre @ c # ?w) @ ?d @ NUL # r = pre @ c # t @ NUL # r" by simp
      have "length ?d < length s" "NUL \<notin> set ?d"
        using Cons t by (auto simp: length_dropWhile_le less_Suc_eq_le dest: set_dropWhileD)
      note IH = less.hyps [OF this, of "pre @ c # ?w" "argv @ [length pre]", unfolded split]
      have "word_offsets (length pre) False s = length pre # word_offsets (length (pre @ c # ?w)) False ?d"
        using Cons False word_offsets_in_word [of "Suc (length pre)" t] by simp
      moreover have "cut_blanks s = (c # ?w) @ cut_blanks ?d"
        using Cons False cut_blanks_word [of t] by simp
      ultimately show ?thesis
        using IH getargs_at_word [OF c False t, of cap pre r argv] Cons by auto
    qed
  qed
qed

subsection \<open>The arguments are the words\<close>

lemma length_word_offsets:
  "length (word_offsets i False s) = length (blank_words s)"
  "length (word_offsets i True s) = length (blank_words (dropWhile (\<lambda>c. \<not> blank c) s))"
proof -
  have "length (word_offsets i False s) = length (blank_words s)" for i s
  proof (induction "length s" arbitrary: i s rule: less_induct)
    case less
    show ?case
    proof (cases s)
      case (Cons c t)
      have "length (dropWhile (\<lambda>c. \<not> blank c) t) < length s"
        using Cons by (simp add: length_dropWhile_le less_Suc_eq_le)
      from less [OF this] less [of t] Cons show ?thesis
        by (auto simp: word_offsets_in_word [of _ t])
    qed simp
  qed
  then show "length (word_offsets i False s) = length (blank_words s)"
    and "length (word_offsets i True s) = length (blank_words (dropWhile (\<lambda>c. \<not> blank c) s))"
    by (simp_all add: word_offsets_in_word)
qed

text \<open>What both passes guarantee of the text they leave: words keep their characters, and
  a word is followed by NUL.\<close>

fun cut_ok :: "bool \<Rightarrow> bytes \<Rightarrow> bytes \<Rightarrow> bool" where
  "cut_ok w [] b = (b = [])"
| "cut_ok w (c # s) [] = False"
| "cut_ok w (c # s) (d # b) =
     (if blank c then (w \<longrightarrow> d = NUL) \<and> cut_ok False s b else d = c \<and> cut_ok True s b)"

lemma cut_ok_passes: "cut_ok w s (cut_words w s)" "cut_ok w s (cut_blanks s)"
  by (induction w s rule: cut_words.induct) auto

lemma cut_ok_word:
  "cut_ok True s b \<Longrightarrow> NUL \<notin> set s \<Longrightarrow> cstr (b @ NUL # r) = takeWhile (\<lambda>c. \<not> blank c) s"
  by (induction s arbitrary: b; case_tac b) (auto split: if_splits)

lemma cut_ok_words:
  assumes "cut_ok w s b" and "NUL \<notin> set s"
  shows "map (cstr_at (pre @ b @ NUL # r)) (word_offsets (length pre) w s)
    = blank_words (if w then dropWhile (\<lambda>c. \<not> blank c) s else s)"
  using assms
proof (induction s arbitrary: pre b w)
  case Nil
  then show ?case by simp
next
  case (Cons c s)
  then obtain d b' where b: "b = d # b'" by (cases b) auto
  have s: "NUL \<notin> set s" and c: "c \<noteq> NUL" using Cons.prems by auto
  have first: "\<not> blank c \<Longrightarrow> cstr_at (pre @ b @ NUL # r) (length pre)
      = c # takeWhile (\<lambda>c. \<not> blank c) s"
    using Cons.prems(1) b c cut_ok_word [OF _ s] by (auto simp: cstr_at_def)
  show ?case
    using Cons.prems(1) Cons.IH [OF _ s, of _ b' "pre @ [d]"] b first by (auto split: if_splits)
qed

lemma arg_words:
  assumes "NUL \<notin> set s" and "cut_ok False s b"
  shows "map (cstr_at (b @ NUL # r)) (word_offsets 0 False s) = blank_words s"
  using cut_ok_words [OF assms(2,1), of "[]" r] by simp

text \<open>
  Property C22.  \<^verbatim>\<open>parse_args\<close> on a terminated line with fewer words than the pointer
  array has entries stores pointers to exactly the line's words, in order, each a
  terminated string; the bytes after the line are not touched.
\<close>

theorem parse_args_words:
  assumes "NUL \<notin> set s" and "length (blank_words s) < cap"
  shows "\<exists>buf ptrs. parse_args cap (s @ NUL # r) = Inr (buf @ NUL # r, ptrs)
    \<and> length buf = length s \<and> map (cstr_at (buf @ NUL # r)) ptrs = blank_words s"
  using parse_args_loop_eq [OF assms(1), of cap "[]" r False "[]"] assms(2)
    arg_words [OF assms(1) cut_ok_passes(1)]
  by (simp add: parse_args_def length_word_offsets)

theorem parse_args_words_witness:
  "NUL \<notin> set ''ls  -l x'' \<and> length (blank_words ''ls  -l x'') < 64 \<and>
   (\<exists>buf ptrs. parse_args 64 (''ls  -l x'' @ NUL # ''zz'') = Inr (buf @ NUL # ''zz'', ptrs)
    \<and> length buf = length ''ls  -l x''
    \<and> map (cstr_at (buf @ NUL # ''zz'')) ptrs = [''ls'', ''-l'', ''x''])"
proof -
  have w: "blank_words ''ls  -l x'' = [''ls'', ''-l'', ''x'']" by (simp add: blank_def)
  have "NUL \<notin> set ''ls  -l x''" by simp
  then show ?thesis using parse_args_words [of "''ls  -l x''" 64 "''zz''"] w by simp
qed

text \<open>
  Without room for the words and the final null pointer \<^verbatim>\<open>parse_args\<close>
  writes outside the caller's pointer array: the routine has no bound check, so a line of
  64 words overruns the \<^verbatim>\<open>char *args[MAX_ARG_LEN]\<close> of the shell.
\<close>

lemma parse_args_overflow:
  assumes "NUL \<notin> set s"
  shows "parse_args cap (s @ NUL # r) = Inl Out_Of_Bounds \<longleftrightarrow> cap \<le> length (blank_words s)"
  using parse_args_loop_eq [OF assms, of cap "[]" r False "[]"]
  by (auto simp: parse_args_def length_word_offsets)

lemma parse_args_overflow_example:
  "NUL \<notin> set ''a b'' \<and> parse_args 2 (''a b'' @ [NUL]) = Inl Out_Of_Bounds"
proof -
  have "blank_words ''a b'' = [''a'', ''b'']" by (simp add: blank_def)
  moreover have h: "NUL \<notin> set ''a b''" by simp
  ultimately show ?thesis using parse_args_overflow [OF h, of 2 "[]"] by simp
qed

text \<open>
  The two splitters of the repository agree: on the same line and with the
  same room, \<^verbatim>\<open>getargs\<close> of \<^verbatim>\<open>simplesh.c\<close> stores the same pointers as
  \<^verbatim>\<open>parse_args\<close> of \<^verbatim>\<open>myshell.c\<close> and leaves the same strings behind them, although it
  overwrites every blank and not only the first one after a word; and one overruns its
  array exactly when the other does.
\<close>

definition args_of :: "(bytes \<times> nat list) cres \<Rightarrow> (nat list \<times> bytes list) cres" where
  "args_of res = (case res of Inl e \<Rightarrow> Inl e | Inr (buf, ptrs) \<Rightarrow> Inr (ptrs, map (cstr_at buf) ptrs))"

lemma getargs_parse_args_agree:
  assumes "NUL \<notin> set s"
  shows "args_of (getargs cap (s @ NUL # r)) = args_of (parse_args cap (s @ NUL # r))"
  using parse_args_loop_eq [OF assms, of cap "[]" r False "[]"]
    getargs_loop_eq [OF assms, of cap "[]" r "[]"]
    arg_words [OF assms cut_ok_passes(1), of r] arg_words [OF assms cut_ok_passes(2), of r]
  by (simp add: parse_args_def getargs_def args_of_def)

lemma getargs_parse_args_agree_example:
  "args_of (getargs 50 (''a  b'' @ [NUL])) = args_of (parse_args 50 (''a  b'' @ [NUL]))
   \<and> getargs 50 (''a  b'' @ [NUL]) \<noteq> parse_args 50 (''a  b'' @ [NUL])"
proof -
  have "NUL \<notin> set ''a  b''" by simp
  note agree = getargs_parse_args_agree [OF this, of 50 "[]"]
  have "getargs 50 (''a  b'' @ [NUL]) = Inr ([CHR ''a'', NUL, NUL, CHR ''b'', NUL], [0, 3])"
    by (simp add: getargs_def getargs_loop.simps skip_word.simps)
  moreover have "parse_args 50 (''a  b'' @ [NUL]) = Inr ([CHR ''a'', NUL, SP, CHR ''b'', NUL], [0, 3])"
    by (simp add: parse_args_def parse_args_loop.simps)
  ultimately show ?thesis using agree by simp
qed

end
