(* ===== verification/Ring_Buffer.thy ===== *)
theory Ring_Buffer
  imports C_Prelude
begin

section \<open>The ring buffer of the bounded-buffer programs\<close>

text \<open>
  \<^verbatim>\<open>buffer_t\<close> of \<^verbatim>\<open>lab3/3/boundedbuffer.c\<close> (and of \<^verbatim>\<open>lab3/2/boundedbuffer.c\<close>, which
  has the same fields): an array of 20 items, a count and two cursors.  The two operations
  here are the statements \<^verbatim>\<open>insert_item\<close> and \<^verbatim>\<open>remove_item\<close> run while they hold the
  mutex; the locking around them is in \<^verbatim>\<open>Buffer_Monitor\<close>.  The locale \<open>bounded_queue\<close>
  is the contract the monitor uses of them: a queue of at most \<open>cap\<close> items.
\<close>

subsection \<open>The contract\<close>

locale bounded_queue =
  fixes put :: "'a \<Rightarrow> 'q \<Rightarrow> 'q" and get :: "'q \<Rightarrow> 'a \<times> 'q" and size_of :: "'q \<Rightarrow> nat"
    and queue_of :: "'q \<Rightarrow> 'a list" and wf :: "'q \<Rightarrow> bool" and cap :: nat
  assumes size_queue: "wf q \<Longrightarrow> size_of q = length (queue_of q)"
    and size_cap: "wf q \<Longrightarrow> size_of q \<le> cap"
    and put_wf: "wf q \<Longrightarrow> size_of q < cap \<Longrightarrow> wf (put x q)"
    and put_queue: "wf q \<Longrightarrow> size_of q < cap \<Longrightarrow> queue_of (put x q) = queue_of q @ [x]"
    and get_wf: "wf q \<Longrightarrow> 0 < size_of q \<Longrightarrow> wf (snd (get q))"
    and get_queue: "wf q \<Longrightarrow> 0 < size_of q \<Longrightarrow> queue_of q = fst (get q) # queue_of (snd (get q))"
begin

lemma put_size: "wf q \<Longrightarrow> size_of q < cap \<Longrightarrow> size_of (put x q) = Suc (size_of q)"
  by (simp add: size_queue put_wf put_queue)

lemma get_size: "wf q \<Longrightarrow> 0 < size_of q \<Longrightarrow> size_of q = Suc (size_of (snd (get q)))"
  using get_queue [of q] by (simp add: size_queue get_wf)

text \<open>The history of a queue: what went in is what came out followed by what is there.\<close>

lemma history_put:
  "wf q \<Longrightarrow> size_of q < cap \<Longrightarrow> came_in = gone_out @ queue_of q \<Longrightarrow>
   came_in @ [x] = gone_out @ queue_of (put x q)"
  by (simp add: put_queue)

lemma history_get:
  "wf q \<Longrightarrow> 0 < size_of q \<Longrightarrow> came_in = gone_out @ queue_of q \<Longrightarrow>
   came_in = (gone_out @ [fst (get q)]) @ queue_of (snd (get q))"
  by (simp add: get_queue)

end

subsection \<open>The code's buffer\<close>

definition BUFFER_SIZE :: nat where "BUFFER_SIZE = 20"

record buffer_t =
  item :: "int list"
  totalitems :: nat
  b_in :: nat
  b_out :: nat

definition bb_init :: buffer_t where
  "bb_init = \<lparr>item = replicate BUFFER_SIZE 0, totalitems = 0, b_in = 0, b_out = 0\<rparr>"

definition put_item :: "int \<Rightarrow> buffer_t \<Rightarrow> buffer_t" where
  "put_item x b =
     b\<lparr>item := (item b)[b_in b := x],
       b_in := (b_in b + 1) mod BUFFER_SIZE,
       totalitems := totalitems b + 1\<rparr>"

definition get_item :: "buffer_t \<Rightarrow> int \<times> buffer_t" where
  "get_item b =
     (item b ! b_out b,
      b\<lparr>b_out := (b_out b + 1) mod BUFFER_SIZE,
        totalitems := totalitems b - 1\<rparr>)"

text \<open>The representation invariant and the queue a buffer stands for.\<close>

definition ring_wf :: "buffer_t \<Rightarrow> bool" where
  "ring_wf b \<longleftrightarrow>
     length (item b) = BUFFER_SIZE \<and> totalitems b \<le> BUFFER_SIZE \<and> b_out b < BUFFER_SIZE \<and>
     b_in b = (b_out b + totalitems b) mod BUFFER_SIZE"

definition ring_queue :: "buffer_t \<Rightarrow> int list" where
  "ring_queue b = map (\<lambda>k. item b ! ((b_out b + k) mod BUFFER_SIZE)) [0..<totalitems b]"

lemma length_ring_queue [simp]: "length (ring_queue b) = totalitems b"
  by (simp add: ring_queue_def)

lemma ring_wf_bound: "ring_wf b \<Longrightarrow> totalitems b \<le> BUFFER_SIZE"
  by (simp add: ring_wf_def)

lemma ring_wf_init: "ring_wf bb_init" "ring_queue bb_init = []"
  by (simp_all add: ring_wf_def ring_queue_def bb_init_def BUFFER_SIZE_def)

lemma ring_index_distinct:
  assumes "k < t" "t < n"
  shows "(a + k) mod n \<noteq> (a + t) mod (n :: nat)"
proof
  assume "(a + k) mod n = (a + t) mod n"
  then have "(a + t) mod n = (a + k) mod n" by simp
  then have "n dvd (a + t) - (a + k)" using assms(1) by (subst (asm) mod_eq_dvd_iff_nat) auto
  with assms show False by (auto dest: dvd_imp_le)
qed

lemma put_item_queue:
  assumes "ring_wf b" "totalitems b < BUFFER_SIZE"
  shows "ring_wf (put_item x b)" "ring_queue (put_item x b) = ring_queue b @ [x]"
proof -
  note wf = assms(1) [unfolded ring_wf_def]
  show "ring_wf (put_item x b)"
    using wf assms(2) by (simp add: ring_wf_def put_item_def mod_Suc_eq)
  have "b_in b < length (item b)" using wf by (simp add: BUFFER_SIZE_def)
  moreover have "b_in b \<noteq> (b_out b + k) mod BUFFER_SIZE" if "k < totalitems b" for k
    using that assms(2) ring_index_distinct [of k "totalitems b" BUFFER_SIZE "b_out b"] wf by simp
  ultimately show "ring_queue (put_item x b) = ring_queue b @ [x]"
    using wf by (simp add: ring_queue_def put_item_def)
qed

lemma get_item_queue:
  assumes "ring_wf b" "0 < totalitems b"
  shows "ring_wf (snd (get_item b))"
    "ring_queue b = fst (get_item b) # ring_queue (snd (get_item b))"
proof -
  note wf = assms(1) [unfolded ring_wf_def]
  obtain t where t: "totalitems b = Suc t" using assms(2) by (cases "totalitems b") auto
  show "ring_wf (snd (get_item b))"
    using wf t by (simp add: ring_wf_def get_item_def mod_simps BUFFER_SIZE_def)
  have "ring_queue b = item b ! b_out b # map (\<lambda>k. item b ! ((b_out b + Suc k) mod BUFFER_SIZE)) [0..<t]"
    using wf t by (simp add: ring_queue_def upt_conv_Cons map_Suc_upt [symmetric] del: upt_Suc)
  then show "ring_queue b = fst (get_item b) # ring_queue (snd (get_item b))"
    using t by (simp add: ring_queue_def get_item_def mod_simps)
qed

interpretation ring: bounded_queue put_item get_item totalitems ring_queue ring_wf BUFFER_SIZE
  by unfold_locales (simp_all add: put_item_queue get_item_queue ring_wf_bound)

end
