(* ===== verification/Transition.thy ===== *)
theory Transition
  imports Main
begin

section \<open>Transition systems: reachable states, invariants, refinement\<close>

text \<open>
  The concurrent parts of the repository (the two bounded buffers, the turn-taking
  threads, the chat servers) are modelled as step relations.  This theory holds what they
  share: the states a start predicate and a step relation reach, the locale of an
  inductive invariant, and the locale of a refinement in which the operations a run shows
  to its users are performed by an abstract machine.
\<close>

inductive reachable :: "('s \<Rightarrow> bool) \<Rightarrow> ('s \<Rightarrow> 's \<Rightarrow> bool) \<Rightarrow> 's \<Rightarrow> bool"
  for start :: "'s \<Rightarrow> bool" and step :: "'s \<Rightarrow> 's \<Rightarrow> bool" where
  reach_start: "start s \<Longrightarrow> reachable start step s"
| reach_step: "reachable start step s \<Longrightarrow> step s t \<Longrightarrow> reachable start step t"

lemma reachable_steps:
  assumes "reachable start step s" and "step\<^sup>*\<^sup>* s t"
  shows "reachable start step t"
  using assms(2,1) by (induction rule: rtranclp_induct) (auto intro: reach_step)

text \<open>An invariant: true at the start and kept by every step from a state that has it.\<close>

locale inductive_invariant =
  fixes start :: "'s \<Rightarrow> bool" and step :: "'s \<Rightarrow> 's \<Rightarrow> bool" and inv :: "'s \<Rightarrow> bool"
  assumes inv_start: "start s \<Longrightarrow> inv s"
    and inv_step: "inv s \<Longrightarrow> step s t \<Longrightarrow> inv t"
begin

lemma reachable_inv: "reachable start step s \<Longrightarrow> inv s"
  by (induction rule: reachable.induct) (auto intro: inv_start inv_step)

lemma steps_inv: "step\<^sup>*\<^sup>* s t \<Longrightarrow> inv s \<Longrightarrow> inv t"
  by (induction rule: rtranclp_induct) (auto intro: inv_step)

end

subsection \<open>Labelled runs and refinement\<close>

text \<open>
  A run lists its events (which thread moved, what arrived).  What an event means to a user
  of the component is a list of operations, its label: none for an internal move.  The
  operations of a run are the labels of its events in order.
\<close>

inductive run_of :: "('s \<Rightarrow> 'e \<Rightarrow> 's \<Rightarrow> bool) \<Rightarrow> ('s \<Rightarrow> 'e \<Rightarrow> 's \<Rightarrow> 'l list) \<Rightarrow> 's \<Rightarrow> 'e list \<Rightarrow> 'l list \<Rightarrow> 's \<Rightarrow> bool"
  for step :: "'s \<Rightarrow> 'e \<Rightarrow> 's \<Rightarrow> bool" and label :: "'s \<Rightarrow> 'e \<Rightarrow> 's \<Rightarrow> 'l list" where
  run_nil: "run_of step label s [] [] s"
| run_cons: "step s e t \<Longrightarrow> run_of step label t es ls u \<Longrightarrow>
    run_of step label s (e # es) (label s e t @ ls) u"

inductive_cases run_of_NilE [elim!]: "run_of step label s [] ls t"

lemma run_of_snoc:
  "run_of step label s es ls t \<Longrightarrow> step t e u \<Longrightarrow>
   run_of step label s (es @ [e]) (ls @ label t e u) u"
proof (induction rule: run_of.induct)
  case (run_nil s)
  have "run_of step label s [e] (label s e u @ []) u"
    by (intro run_of.run_cons run_nil.prems run_of.run_nil)
  then show ?case by simp
next
  case (run_cons s e t es ls u)
  from run_of.run_cons [OF run_cons.hyps(1) run_cons.IH [OF run_cons.prems]] show ?case by simp
qed

text \<open>An abstract machine performs a list of operations, or refuses one of them.\<close>

fun perform :: "('l \<Rightarrow> 'a \<Rightarrow> 'a option) \<Rightarrow> 'l list \<Rightarrow> 'a \<Rightarrow> 'a option" where
  "perform act [] a = Some a"
| "perform act (l # ls) a = (case act l a of None \<Rightarrow> None | Some b \<Rightarrow> perform act ls b)"

lemma perform_one: "perform act [l] a = act l a"
  by (simp split: option.splits)

lemma perform_append:
  "perform act (ls @ ks) a = (case perform act ls a of None \<Rightarrow> None | Some b \<Rightarrow> perform act ks b)"
  by (induction ls arbitrary: a) (auto split: option.splits)

text \<open>
  A refinement: on states that satisfy the invariant, the abstract machine accepts the
  operations of every event and is led by them from the abstraction of the state before to
  the abstraction of the state after.
\<close>

locale labelled_refinement =
  fixes step :: "'s \<Rightarrow> 'e \<Rightarrow> 's \<Rightarrow> bool" and label :: "'s \<Rightarrow> 'e \<Rightarrow> 's \<Rightarrow> 'l list"
    and inv :: "'s \<Rightarrow> bool" and act :: "'l \<Rightarrow> 'a \<Rightarrow> 'a option" and abs :: "'s \<Rightarrow> 'a"
  assumes step_keeps: "inv s \<Longrightarrow> step s e t \<Longrightarrow> inv t"
    and step_commutes: "inv s \<Longrightarrow> step s e t \<Longrightarrow> perform act (label s e t) (abs s) = Some (abs t)"
begin

lemma run_keeps: "run_of step label s es ls t \<Longrightarrow> inv s \<Longrightarrow> inv t"
  by (induction rule: run_of.induct) (auto dest: step_keeps)

lemma run_commutes: "run_of step label s es ls t \<Longrightarrow> inv s \<Longrightarrow> perform act ls (abs s) = Some (abs t)"
  by (induction rule: run_of.induct) (auto simp: perform_append step_commutes dest: step_keeps)

end


subsection \<open>Counting the threads in a set of states\<close>

definition number :: "nat \<Rightarrow> ('p \<Rightarrow> bool) \<Rightarrow> (nat \<Rightarrow> 'p) \<Rightarrow> nat" where
  "number n Q f = card {k \<in> {1..n}. Q (f k)}"

text \<open>One thread moves: the count changes by what that thread contributes.\<close>

lemma number_upd:
  assumes "i \<in> {1..n}"
  shows "number n Q (f(i := v)) + of_bool (Q (f i)) = number n Q f + of_bool (Q v)"
proof -
  let ?X = "{k \<in> {1..n}. k \<noteq> i \<and> Q (f k)}"
  have old: "{k \<in> {1..n}. Q (f k)} = (if Q (f i) then insert i ?X else ?X)"
    using assms by auto
  have new: "{k \<in> {1..n}. Q ((f(i := v)) k)} = (if Q v then insert i ?X else ?X)"
    using assms by auto
  show ?thesis unfolding number_def old new by simp
qed

lemma number_pos: "i \<in> {1..n} \<Longrightarrow> Q (f i) \<Longrightarrow> 0 < number n Q f"
  unfolding number_def by (subst card_gt_0_iff) auto

lemma number_zero: "\<forall>k \<in> {1..n}. \<not> Q (f k) \<Longrightarrow> number n Q f = 0"
  unfolding number_def by (subst card_eq_0_iff) auto

text \<open>The four ways a move changes a count, as rewrite rules.\<close>

lemma number_move:
  assumes "i \<in> {1..n}"
  shows "\<not> Q (f i) \<Longrightarrow> \<not> Q v \<Longrightarrow> number n Q (f(i := v)) = number n Q f"
    and "Q (f i) \<Longrightarrow> Q v \<Longrightarrow> number n Q (f(i := v)) = number n Q f"
    and "\<not> Q (f i) \<Longrightarrow> Q v \<Longrightarrow> number n Q (f(i := v)) = Suc (number n Q f)"
    and "Q (f i) \<Longrightarrow> \<not> Q v \<Longrightarrow> number n Q (f(i := v)) = number n Q f - 1"
  using number_upd [OF assms, of Q f v] by simp_all

end
