(* ===== verification/Buffer_Monitor.thy ===== *)
theory Buffer_Monitor
  imports Ring_Buffer Transition
begin

section \<open>Producers and consumers around the bounded buffer\<close>

text \<open>
  \<^verbatim>\<open>lab3/3/boundedbuffer.c\<close>: \<open>np\<close> producer and \<open>nc\<close> consumer threads, one mutex, the
  condition variables \<^verbatim>\<open>full\<close> (an item was inserted) and \<^verbatim>\<open>empty\<close> (an item was removed).
  A program counter per thread says where in \<^verbatim>\<open>producer\<close>/\<^verbatim>\<open>insert_item\<close> or
  \<^verbatim>\<open>consumer\<close>/\<^verbatim>\<open>remove_item\<close> it stands; a step is one thread moving from one pthread
  call to the next.  A thread in \<^verbatim>\<open>pthread_cond_wait\<close> has released the mutex; a signal
  moves one waiting thread of the other kind on to re-acquiring it.  Two parameters open
  the relation to what the POSIX interface allows: with \<open>fail\<close> any call may return an error
  (the code then returns its status, which \<^verbatim>\<open>producer\<close> and \<^verbatim>\<open>consumer\<close> ignore), with
  \<open>spur\<close> a waiting thread may wake up unsignalled.
\<close>

subsection \<open>State\<close>

datatype ppc =
    P_Make \<comment> \<open>about to call \<^verbatim>\<open>produce_item\<close>\<close>
  | P_Lock int \<comment> \<open>about to lock, with the item to insert\<close>
  | P_Test int \<comment> \<open>holds the mutex, at the test of the while loop\<close>
  | P_Wait int \<comment> \<open>in \<^verbatim>\<open>pthread_cond_wait(&bb.empty, ...)\<close>\<close>
  | P_Wake int \<comment> \<open>woken, re-acquires the mutex\<close>
  | P_Signal \<comment> \<open>holds the mutex, item stored, about to signal \<^verbatim>\<open>full\<close>\<close>
  | P_Unlock \<comment> \<open>holds the mutex, about to unlock and return\<close>

datatype cpc =
    C_Lock \<comment> \<open>about to lock\<close>
  | C_Test \<comment> \<open>holds the mutex, at the test of the while loop\<close>
  | C_Wait \<comment> \<open>in \<^verbatim>\<open>pthread_cond_wait(&bb.full, ...)\<close>\<close>
  | C_Wake \<comment> \<open>woken, re-acquires the mutex\<close>
  | C_Signal \<comment> \<open>holds the mutex, item taken, about to signal \<^verbatim>\<open>empty\<close>\<close>
  | C_Unlock \<comment> \<open>holds the mutex, about to unlock and return\<close>
  | C_Eat \<comment> \<open>about to call \<^verbatim>\<open>consume_item\<close>\<close>

datatype tid = Prod nat | Cons nat

record monitor =
  bb :: buffer_t
  holder :: "tid option" \<comment> \<open>the thread that holds \<^verbatim>\<open>bb.mutex\<close>\<close>
  ppc :: "nat \<Rightarrow> ppc"
  cpc :: "nat \<Rightarrow> cpc"
  cons_item :: "nat \<Rightarrow> int option" \<comment> \<open>a consumer's local \<^verbatim>\<open>item\<close>, \<open>None\<close> before it is set\<close>
  inserted :: "int list" \<comment> \<open>history: the items stored so far\<close>
  removed :: "int list" \<comment> \<open>history: the items taken so far\<close>
  eaten :: "(nat \<times> int option) list" \<comment> \<open>what \<^verbatim>\<open>consume_item\<close> was called with\<close>

definition NUM_PRODUCERS :: nat where "NUM_PRODUCERS = 2"
definition NUM_CONSUMERS :: nat where "NUM_CONSUMERS = 2"

definition mon_init :: monitor where
  "mon_init = \<lparr>bb = bb_init, holder = None, ppc = (\<lambda>_. P_Make), cpc = (\<lambda>_. C_Lock),
     cons_item = (\<lambda>_. None), inserted = [], removed = [], eaten = []\<rparr>"

definition mon_start :: "monitor \<Rightarrow> bool" where
  "mon_start s \<longleftrightarrow> s = mon_init"

text \<open>\<^verbatim>\<open>produce_item\<close>: \<^verbatim>\<open>(int)(100.0 * rand() / (RAND_MAX + 1.0))\<close>.\<close>

definition produce_item_range :: "int \<Rightarrow> bool" where
  "produce_item_range x \<longleftrightarrow> 0 \<le> x \<and> x < 100"

definition set_ppc :: "nat \<Rightarrow> ppc \<Rightarrow> monitor \<Rightarrow> monitor" where
  "set_ppc i p s = s\<lparr>ppc := (ppc s)(i := p)\<rparr>"

definition set_cpc :: "nat \<Rightarrow> cpc \<Rightarrow> monitor \<Rightarrow> monitor" where
  "set_cpc j c s = s\<lparr>cpc := (cpc s)(j := c)\<rparr>"

subsection \<open>Steps\<close>

text \<open>\<^verbatim>\<open>producer\<close> and \<^verbatim>\<open>insert_item\<close>.\<close>

inductive producer_step :: "nat \<Rightarrow> bool \<Rightarrow> bool \<Rightarrow> nat \<Rightarrow> monitor \<Rightarrow> monitor \<Rightarrow> bool"
  for nc :: nat and fail :: bool and spur :: bool and i :: nat where
  p_make: "ppc s i = P_Make \<Longrightarrow> produce_item_range x \<Longrightarrow>
     producer_step nc fail spur i s (set_ppc i (P_Lock x) s)"
| p_lock: "ppc s i = P_Lock x \<Longrightarrow> holder s = None \<Longrightarrow>
     producer_step nc fail spur i s (set_ppc i (P_Test x) (s\<lparr>holder := Some (Prod i)\<rparr>))"
| p_lock_fails: "fail \<Longrightarrow> ppc s i = P_Lock x \<Longrightarrow>
     producer_step nc fail spur i s (set_ppc i P_Make s)"
| p_wait: "ppc s i = P_Test x \<Longrightarrow> BUFFER_SIZE \<le> totalitems (bb s) \<Longrightarrow>
     producer_step nc fail spur i s (set_ppc i (P_Wait x) (s\<lparr>holder := None\<rparr>))"
| p_wait_fails: "fail \<Longrightarrow> ppc s i = P_Test x \<Longrightarrow> BUFFER_SIZE \<le> totalitems (bb s) \<Longrightarrow>
     producer_step nc fail spur i s (set_ppc i P_Unlock s)"
| p_spurious: "spur \<Longrightarrow> ppc s i = P_Wait x \<Longrightarrow>
     producer_step nc fail spur i s (set_ppc i (P_Wake x) s)"
| p_wake: "ppc s i = P_Wake x \<Longrightarrow> holder s = None \<Longrightarrow>
     producer_step nc fail spur i s (set_ppc i (P_Test x) (s\<lparr>holder := Some (Prod i)\<rparr>))"
| p_insert: "ppc s i = P_Test x \<Longrightarrow> totalitems (bb s) < BUFFER_SIZE \<Longrightarrow>
     producer_step nc fail spur i s
       (set_ppc i P_Signal (s\<lparr>bb := put_item x (bb s), inserted := inserted s @ [x]\<rparr>))"
| p_signal: "ppc s i = P_Signal \<Longrightarrow> j \<in> {1..nc} \<Longrightarrow> cpc s j = C_Wait \<Longrightarrow>
     producer_step nc fail spur i s (set_ppc i P_Unlock (set_cpc j C_Wake s))"
| p_signal_none: "ppc s i = P_Signal \<Longrightarrow> \<forall>j \<in> {1..nc}. cpc s j \<noteq> C_Wait \<Longrightarrow>
     producer_step nc fail spur i s (set_ppc i P_Unlock s)"
| p_signal_fails: "fail \<Longrightarrow> ppc s i = P_Signal \<Longrightarrow>
     producer_step nc fail spur i s (set_ppc i P_Unlock s)"
| p_unlock: "ppc s i = P_Unlock \<Longrightarrow>
     producer_step nc fail spur i s (set_ppc i P_Make (s\<lparr>holder := None\<rparr>))"

text \<open>\<^verbatim>\<open>consumer\<close> and \<^verbatim>\<open>remove_item\<close>.  When \<^verbatim>\<open>remove_item\<close> returns an error the
  consumer goes on to consume whatever its local variable holds.\<close>

inductive consumer_step :: "nat \<Rightarrow> bool \<Rightarrow> bool \<Rightarrow> nat \<Rightarrow> monitor \<Rightarrow> monitor \<Rightarrow> bool"
  for np :: nat and fail :: bool and spur :: bool and j :: nat where
  c_lock: "cpc s j = C_Lock \<Longrightarrow> holder s = None \<Longrightarrow>
     consumer_step np fail spur j s (set_cpc j C_Test (s\<lparr>holder := Some (Cons j)\<rparr>))"
| c_lock_fails: "fail \<Longrightarrow> cpc s j = C_Lock \<Longrightarrow>
     consumer_step np fail spur j s (set_cpc j C_Eat s)"
| c_wait: "cpc s j = C_Test \<Longrightarrow> totalitems (bb s) \<le> 0 \<Longrightarrow>
     consumer_step np fail spur j s (set_cpc j C_Wait (s\<lparr>holder := None\<rparr>))"
| c_wait_fails: "fail \<Longrightarrow> cpc s j = C_Test \<Longrightarrow> totalitems (bb s) \<le> 0 \<Longrightarrow>
     consumer_step np fail spur j s (set_cpc j C_Unlock s)"
| c_spurious: "spur \<Longrightarrow> cpc s j = C_Wait \<Longrightarrow>
     consumer_step np fail spur j s (set_cpc j C_Wake s)"
| c_wake: "cpc s j = C_Wake \<Longrightarrow> holder s = None \<Longrightarrow>
     consumer_step np fail spur j s (set_cpc j C_Test (s\<lparr>holder := Some (Cons j)\<rparr>))"
| c_remove: "cpc s j = C_Test \<Longrightarrow> 0 < totalitems (bb s) \<Longrightarrow>
     consumer_step np fail spur j s
       (set_cpc j C_Signal (s\<lparr>bb := snd (get_item (bb s)),
          cons_item := (cons_item s)(j := Some (fst (get_item (bb s)))),
          removed := removed s @ [fst (get_item (bb s))]\<rparr>))"
| c_signal: "cpc s j = C_Signal \<Longrightarrow> i \<in> {1..np} \<Longrightarrow> ppc s i = P_Wait x \<Longrightarrow>
     consumer_step np fail spur j s (set_cpc j C_Unlock (set_ppc i (P_Wake x) s))"
| c_signal_none: "cpc s j = C_Signal \<Longrightarrow> \<forall>i \<in> {1..np}. \<forall>x. ppc s i \<noteq> P_Wait x \<Longrightarrow>
     consumer_step np fail spur j s (set_cpc j C_Unlock s)"
| c_signal_fails: "fail \<Longrightarrow> cpc s j = C_Signal \<Longrightarrow>
     consumer_step np fail spur j s (set_cpc j C_Unlock s)"
| c_unlock: "cpc s j = C_Unlock \<Longrightarrow>
     consumer_step np fail spur j s (set_cpc j C_Eat (s\<lparr>holder := None\<rparr>))"
| c_eat: "cpc s j = C_Eat \<Longrightarrow>
     consumer_step np fail spur j s
       (set_cpc j C_Lock (s\<lparr>eaten := eaten s @ [(j, cons_item s j)]\<rparr>))"

inductive mon_step :: "nat \<Rightarrow> nat \<Rightarrow> bool \<Rightarrow> bool \<Rightarrow> monitor \<Rightarrow> monitor \<Rightarrow> bool"
  for np :: nat and nc :: nat and fail :: bool and spur :: bool where
  mon_producer: "i \<in> {1..np} \<Longrightarrow> producer_step nc fail spur i s t \<Longrightarrow> mon_step np nc fail spur s t"
| mon_consumer: "j \<in> {1..nc} \<Longrightarrow> consumer_step np fail spur j s t \<Longrightarrow> mon_step np nc fail spur s t"

text \<open>The two programs: two producers and two consumers (\<^verbatim>\<open>lab3/3\<close>), one of each
  (\<^verbatim>\<open>lab3/2\<close>, whose routines are the same statements without the thread number).\<close>

definition buffer_program :: "bool \<Rightarrow> bool \<Rightarrow> monitor \<Rightarrow> monitor \<Rightarrow> bool" where
  "buffer_program fail spur = mon_step NUM_PRODUCERS NUM_CONSUMERS fail spur"

definition single_producer_step :: "bool \<Rightarrow> bool \<Rightarrow> monitor \<Rightarrow> monitor \<Rightarrow> bool" where
  "single_producer_step fail spur = producer_step 1 fail spur 1"

definition single_consumer_step :: "bool \<Rightarrow> bool \<Rightarrow> monitor \<Rightarrow> monitor \<Rightarrow> bool" where
  "single_consumer_step fail spur = consumer_step 1 fail spur 1"

definition single_buffer_program :: "bool \<Rightarrow> bool \<Rightarrow> monitor \<Rightarrow> monitor \<Rightarrow> bool" where
  "single_buffer_program fail spur s t \<longleftrightarrow> single_producer_step fail spur s t \<or> single_consumer_step fail spur s t"

lemma single_buffer_steps: "single_buffer_program fail spur = mon_step 1 1 fail spur"
  by (auto simp: fun_eq_iff single_buffer_program_def single_producer_step_def single_consumer_step_def
      mon_step.simps)

lemmas mon_defs = set_ppc_def set_cpc_def

subsection \<open>Mutual exclusion and the history of the buffer\<close>

definition p_crit :: "ppc \<Rightarrow> bool" where
  "p_crit p = (case p of P_Test x \<Rightarrow> True | P_Signal \<Rightarrow> True | P_Unlock \<Rightarrow> True | _ \<Rightarrow> False)"

definition c_crit :: "cpc \<Rightarrow> bool" where
  "c_crit c = (c \<in> {C_Test, C_Signal, C_Unlock})"

lemma crit_simps [simp]:
  "p_crit (P_Test x)" "p_crit P_Signal" "p_crit P_Unlock"
  "\<not> p_crit P_Make" "\<not> p_crit (P_Lock x)" "\<not> p_crit (P_Wait x)" "\<not> p_crit (P_Wake x)"
  "c_crit C_Test" "c_crit C_Signal" "c_crit C_Unlock"
  "\<not> c_crit C_Lock" "\<not> c_crit C_Wait" "\<not> c_crit C_Wake" "\<not> c_crit C_Eat"
  by (simp_all add: p_crit_def c_crit_def)

definition mutex_inv :: "monitor \<Rightarrow> bool" where
  "mutex_inv s \<longleftrightarrow> (\<forall>i. p_crit (ppc s i) \<longleftrightarrow> holder s = Some (Prod i))
                \<and> (\<forall>j. c_crit (cpc s j) \<longleftrightarrow> holder s = Some (Cons j))"

definition data_inv :: "monitor \<Rightarrow> bool" where
  "data_inv s \<longleftrightarrow> ring_wf (bb s) \<and> inserted s = removed s @ ring_queue (bb s)"

lemma mutex_start: "mutex_inv mon_init"
  by (simp add: mutex_inv_def mon_init_def)

lemma data_start: "data_inv mon_init"
  by (simp add: data_inv_def mon_init_def ring_wf_init)

lemma mutex_holder:
  assumes "mutex_inv s"
  shows "p_crit (ppc s i) \<Longrightarrow> holder s = Some (Prod i)"
    and "c_crit (cpc s j) \<Longrightarrow> holder s = Some (Cons j)"
    and "\<not> p_crit (ppc s i) \<Longrightarrow> holder s \<noteq> Some (Prod i)"
    and "\<not> c_crit (cpc s j) \<Longrightarrow> holder s \<noteq> Some (Cons j)"
    and "holder s = None \<Longrightarrow> \<not> p_crit (ppc s i)"
    and "holder s = None \<Longrightarrow> \<not> c_crit (cpc s j)"
  using assms by (auto simp: mutex_inv_def)

lemma producer_mutex: "producer_step nc fail spur i s t \<Longrightarrow> mutex_inv s \<Longrightarrow> mutex_inv t"
  by (induction rule: producer_step.induct; unfold mutex_inv_def mon_defs; simp;
      metis crit_simps tid.inject tid.distinct option.inject option.distinct(1))

lemma consumer_mutex: "consumer_step np fail spur j s t \<Longrightarrow> mutex_inv s \<Longrightarrow> mutex_inv t"
  by (induction rule: consumer_step.induct; unfold mutex_inv_def mon_defs; simp;
      metis crit_simps tid.inject tid.distinct option.inject option.distinct(1))

lemma producer_data: "producer_step nc fail spur i s t \<Longrightarrow> data_inv s \<Longrightarrow> data_inv t"
  by (induction rule: producer_step.induct)
     (auto simp: data_inv_def mon_defs ring.put_wf ring.put_queue)

lemma consumer_data: "consumer_step np fail spur j s t \<Longrightarrow> data_inv s \<Longrightarrow> data_inv t"
  by (induction rule: consumer_step.induct)
     (auto simp: data_inv_def mon_defs ring.get_wf ring.get_queue)

lemma mon_step_inv:
  assumes "mon_step np nc fail spur s t"
  shows "mutex_inv s \<Longrightarrow> mutex_inv t" and "data_inv s \<Longrightarrow> data_inv t"
  using assms by (auto elim!: mon_step.cases
      intro: producer_mutex consumer_mutex producer_data consumer_data)

interpretation mon_safe: inductive_invariant mon_start "mon_step np nc fail spur"
    "\<lambda>s. mutex_inv s \<and> data_inv s" for np nc fail spur
  by unfold_locales (auto simp: mon_start_def mutex_start data_start dest: mon_step_inv)


subsection \<open>The monitor refines a bounded queue\<close>

text \<open>
  What the threads see of the buffer: \<^verbatim>\<open>insert_item\<close> of a producer and \<^verbatim>\<open>remove_item\<close> of a
  consumer, with the item that was passed in or came out.  A queue of at most
  \<^verbatim>\<open>BUFFER_SIZE\<close> items takes an insertion when it has room and appends it, and a removal of
  exactly the item at its front.
\<close>

datatype queue_op = Insert nat int | Remove nat int

fun queue_do :: "queue_op \<Rightarrow> int list \<Rightarrow> int list option" where
  "queue_do (Insert i x) q = (if length q < BUFFER_SIZE then Some (q @ [x]) else None)"
| "queue_do (Remove j x) [] = None"
| "queue_do (Remove j x) (y # q) = (if x = y then Some q else None)"

text \<open>One thread moves.\<close>

fun thread_step :: "nat \<Rightarrow> nat \<Rightarrow> bool \<Rightarrow> bool \<Rightarrow> monitor \<Rightarrow> tid \<Rightarrow> monitor \<Rightarrow> bool" where
  "thread_step np nc fail spur s (Prod i) t \<longleftrightarrow> i \<in> {1..np} \<and> producer_step nc fail spur i s t"
| "thread_step np nc fail spur s (Cons j) t \<longleftrightarrow> j \<in> {1..nc} \<and> consumer_step np fail spur j s t"

text \<open>
  The operation a move completes, read off the thread's own program counter and locals: a
  producer that leaves the test of its loop for the signal has inserted the item it carried,
  a consumer that does has removed the item its local variable now holds.
\<close>

fun completed :: "monitor \<Rightarrow> tid \<Rightarrow> monitor \<Rightarrow> queue_op list" where
  "completed s (Prod i) t =
     (case ppc s i of P_Test x \<Rightarrow> if ppc t i = P_Signal then [Insert i x] else [] | _ \<Rightarrow> [])"
| "completed s (Cons j) t =
     (if cpc s j = C_Test \<and> cpc t j = C_Signal
      then (case cons_item t j of Some x \<Rightarrow> [Remove j x] | None \<Rightarrow> []) else [])"

lemma mon_step_thread: "mon_step np nc fail spur s t \<longleftrightarrow> (\<exists>k. thread_step np nc fail spur s k t)"
proof
  assume "mon_step np nc fail spur s t"
  then show "\<exists>k. thread_step np nc fail spur s k t"
  proof cases
    case (mon_producer i)
    then show ?thesis by (intro exI [of _ "Prod i"]) simp
  next
    case (mon_consumer j)
    then show ?thesis by (intro exI [of _ "Cons j"]) simp
  qed
next
  assume "\<exists>k. thread_step np nc fail spur s k t"
  then obtain k where "thread_step np nc fail spur s k t" ..
  then show "mon_step np nc fail spur s t"
    by (cases k) (auto intro: mon_step.intros)
qed

lemma producer_queue:
  "producer_step nc fail spur i s t \<Longrightarrow> ring_wf (bb s) \<Longrightarrow>
   perform queue_do (completed s (Prod i) t) (ring_queue (bb s)) = Some (ring_queue (bb t))"
  by (induction rule: producer_step.induct) (auto simp: mon_defs ring.put_queue)

lemma consumer_queue:
  "consumer_step np fail spur j s t \<Longrightarrow> ring_wf (bb s) \<Longrightarrow>
   perform queue_do (completed s (Cons j) t) (ring_queue (bb s)) = Some (ring_queue (bb t))"
  by (induction rule: consumer_step.induct) (auto simp: mon_defs ring.get_queue)

interpretation mon_queue: labelled_refinement "thread_step np nc fail spur" completed
    "\<lambda>s. mutex_inv s \<and> data_inv s" queue_do "\<lambda>s. ring_queue (bb s)" for np nc fail spur
proof unfold_locales
  show "mutex_inv t \<and> data_inv t" if "mutex_inv s \<and> data_inv s" "thread_step np nc fail spur s k t" for s k t
    using that mon_step_inv mon_step_thread by blast
  show "perform queue_do (completed s k t) (ring_queue (bb s)) = Some (ring_queue (bb t))"
    if "mutex_inv s \<and> data_inv s" "thread_step np nc fail spur s k t" for s k t
    using that producer_queue consumer_queue by (cases k) (auto simp: data_inv_def simp del: completed.simps)
qed

text \<open>Every reachable state is the end of a run.\<close>

lemma reachable_run:
  "reachable mon_start (mon_step np nc fail spur) s \<Longrightarrow>
   \<exists>ks ops. run_of (thread_step np nc fail spur) completed mon_init ks ops s"
proof (induction rule: reachable.induct)
  case (reach_start s)
  then show ?case by (auto simp: mon_start_def intro: run_nil)
next
  case (reach_step s t)
  then show ?case by (auto simp: mon_step_thread dest: run_of_snoc)
qed

subsection \<open>No lost wake-up\<close>

definition p_awake :: "ppc \<Rightarrow> bool" where
  "p_awake p = (case p of P_Test x \<Rightarrow> True | P_Wake x \<Rightarrow> True | _ \<Rightarrow> False)"

definition c_awake :: "cpc \<Rightarrow> bool" where
  "c_awake c = (c \<in> {C_Test, C_Wake})"

definition p_waits :: "ppc \<Rightarrow> bool" where
  "p_waits p = (case p of P_Wait x \<Rightarrow> True | _ \<Rightarrow> False)"

definition p_signals :: "ppc \<Rightarrow> bool" where
  "p_signals p \<longleftrightarrow> p = P_Signal"

definition c_signals :: "cpc \<Rightarrow> bool" where
  "c_signals c \<longleftrightarrow> c = C_Signal"

lemma p_waits_iff: "p_waits p \<longleftrightarrow> (\<exists>x. p = P_Wait x)"
  by (cases p) (auto simp: p_waits_def)

text \<open>
  While a consumer waits, every item in the buffer has someone on the way to it: a consumer
  already woken or a producer about to signal; and dually for the free slots.
\<close>

definition wake_inv :: "nat \<Rightarrow> nat \<Rightarrow> monitor \<Rightarrow> bool" where
  "wake_inv np nc s \<longleftrightarrow>
     ((\<exists>j \<in> {1..nc}. cpc s j = C_Wait) \<longrightarrow>
        totalitems (bb s) \<le> number nc c_awake (cpc s) + number np p_signals (ppc s)) \<and>
     ((\<exists>i \<in> {1..np}. p_waits (ppc s i)) \<longrightarrow>
        BUFFER_SIZE - totalitems (bb s) \<le> number np p_awake (ppc s) + number nc c_signals (cpc s))"

lemma awake_simps [simp]:
  "p_awake (P_Test x)" "p_awake (P_Wake x)" "\<not> p_awake P_Make" "\<not> p_awake (P_Lock x)"
  "\<not> p_awake (P_Wait x)" "\<not> p_awake P_Signal" "\<not> p_awake P_Unlock"
  "c_awake C_Test" "c_awake C_Wake" "\<not> c_awake C_Lock" "\<not> c_awake C_Wait"
  "\<not> c_awake C_Signal" "\<not> c_awake C_Unlock" "\<not> c_awake C_Eat"
  "p_waits (P_Wait x)" "\<not> p_waits (P_Test x)" "\<not> p_waits (P_Wake x)" "\<not> p_waits P_Make"
  "\<not> p_waits (P_Lock x)" "\<not> p_waits P_Signal" "\<not> p_waits P_Unlock"
  "p_signals P_Signal" "\<not> p_signals P_Make" "\<not> p_signals (P_Lock x)" "\<not> p_signals (P_Test x)"
  "\<not> p_signals (P_Wait x)" "\<not> p_signals (P_Wake x)" "\<not> p_signals P_Unlock"
  "c_signals C_Signal" "\<not> c_signals C_Lock" "\<not> c_signals C_Test" "\<not> c_signals C_Wait"
  "\<not> c_signals C_Wake" "\<not> c_signals C_Unlock" "\<not> c_signals C_Eat"
  by (simp_all add: p_awake_def c_awake_def p_waits_def p_signals_def c_signals_def)

lemma put_item_total [simp]: "totalitems (put_item x b) = Suc (totalitems b)"
  by (simp add: put_item_def)

lemma get_item_total [simp]: "totalitems (snd (get_item b)) = totalitems b - 1"
  by (simp add: get_item_def)

lemma producer_wake:
  assumes "producer_step nc False spur i s t" "i \<in> {1..np}" "wake_inv np nc s"
  shows "wake_inv np nc t"
proof -
  note move = number_move [OF assms(2)]
  from assms(2) have i: "Suc 0 \<le> i" "i \<le> np" by auto
  from assms(1,3) show ?thesis
  proof (induction rule: producer_step.induct)
    case (p_signal s j)
    with number_pos [OF assms(2), of p_signals "ppc s"] i show ?case
      by (auto simp: wake_inv_def mon_defs move number_move [OF p_signal(2)] split: if_splits)
  qed (use i in \<open>auto simp: wake_inv_def mon_defs move split: if_splits\<close>)
qed

lemma consumer_wake:
  assumes "consumer_step np False spur j s t" "j \<in> {1..nc}" "wake_inv np nc s"
  shows "wake_inv np nc t"
proof -
  note move = number_move [OF assms(2)]
  from assms(2) have j: "Suc 0 \<le> j" "j \<le> nc" by auto
  from assms(1,3) show ?thesis
  proof (induction rule: consumer_step.induct)
    case (c_signal s i x)
    with number_pos [OF assms(2), of c_signals "cpc s"] j show ?case
      by (auto simp: wake_inv_def mon_defs move number_move [OF c_signal(2)] split: if_splits)
  next
    case (c_signal_none s)
    then have "\<forall>i \<in> {1..np}. \<not> p_waits (ppc s i)" by (auto simp: p_waits_iff)
    with c_signal_none j show ?case
      by (auto simp: wake_inv_def mon_defs move split: if_splits)
  qed (use j in \<open>auto simp: wake_inv_def mon_defs move split: if_splits\<close>)
qed

interpretation mon_wake: inductive_invariant mon_start "mon_step np nc False spur"
    "wake_inv np nc" for np nc spur
proof unfold_locales
  show "mon_start s \<Longrightarrow> wake_inv np nc s" for s
    by (simp add: mon_start_def mon_init_def wake_inv_def)
  show "wake_inv np nc s \<Longrightarrow> mon_step np nc False spur s t \<Longrightarrow> wake_inv np nc t" for s t
    by (erule mon_step.cases) (blast intro: producer_wake consumer_wake)+
qed

text \<open>Threads that were never created stay at their start.\<close>

definition range_inv :: "nat \<Rightarrow> nat \<Rightarrow> monitor \<Rightarrow> bool" where
  "range_inv np nc s \<longleftrightarrow>
     (\<forall>i. i \<notin> {1..np} \<longrightarrow> ppc s i = P_Make) \<and> (\<forall>j. j \<notin> {1..nc} \<longrightarrow> cpc s j = C_Lock)"

lemma producer_range:
  "producer_step nc fail spur i s t \<Longrightarrow> i \<in> {1..np} \<Longrightarrow> range_inv np nc s \<Longrightarrow> range_inv np nc t"
  by (induction rule: producer_step.induct) (auto simp: range_inv_def mon_defs)

lemma consumer_range:
  "consumer_step np fail spur j s t \<Longrightarrow> j \<in> {1..nc} \<Longrightarrow> range_inv np nc s \<Longrightarrow> range_inv np nc t"
  by (induction rule: consumer_step.induct) (auto simp: range_inv_def mon_defs)

lemma range_crit:
  assumes "range_inv np nc s"
  shows "p_crit (ppc s i) \<Longrightarrow> i \<in> {1..np}" and "c_crit (cpc s j) \<Longrightarrow> j \<in> {1..nc}"
  using assms unfolding range_inv_def by (metis crit_simps)+

interpretation mon_range: inductive_invariant mon_start "mon_step np nc fail spur"
    "range_inv np nc" for np nc fail spur
  by unfold_locales
     (auto simp: mon_start_def mon_init_def range_inv_def elim!: mon_step.cases
       dest: producer_range consumer_range)

text \<open>Some thread is always outside the two waits, and can move.\<close>

lemma not_all_waiting:
  assumes "wake_inv np nc s" and "0 < np" and "0 < nc"
  shows "(\<exists>i \<in> {1..np}. \<not> p_waits (ppc s i)) \<or> (\<exists>j \<in> {1..nc}. cpc s j \<noteq> C_Wait)"
proof (rule ccontr)
  assume "\<not> ?thesis"
  then have p: "\<forall>i \<in> {1..np}. p_waits (ppc s i)" and c: "\<forall>j \<in> {1..nc}. cpc s j = C_Wait"
    by auto
  have "\<forall>i \<in> {1..np}. \<not> p_awake (ppc s i) \<and> \<not> p_signals (ppc s i)"
    using p by (auto simp: p_waits_iff)
  then have z: "number np p_awake (ppc s) = 0" "number np p_signals (ppc s) = 0"
    "number nc c_awake (cpc s) = 0" "number nc c_signals (cpc s) = 0"
    using c by (auto intro!: number_zero)
  have "\<exists>i \<in> {1..np}. p_waits (ppc s i)" "\<exists>j \<in> {1..nc}. cpc s j = C_Wait"
    using p c assms(2,3) by (auto intro!: bexI [of _ 1])
  with assms(1) z show False by (simp add: wake_inv_def BUFFER_SIZE_def)
qed

lemma holder_moves:
  assumes "mutex_inv s" "holder s = Some (Prod i)"
  shows "\<exists>t. producer_step nc False False i s t"
proof -
  have "p_crit (ppc s i)" using assms by (simp add: mutex_inv_def)
  then consider x where "ppc s i = P_Test x" | "ppc s i = P_Signal" | "ppc s i = P_Unlock"
    by (cases "ppc s i") auto
  then show ?thesis
    by cases (blast intro: producer_step.intros leI)+
qed

lemma holder_moves_c:
  assumes "mutex_inv s" "holder s = Some (Cons j)"
  shows "\<exists>t. consumer_step np False False j s t"
proof -
  have "c_crit (cpc s j)" using assms by (simp add: mutex_inv_def)
  then consider "cpc s j = C_Test" | "cpc s j = C_Signal" | "cpc s j = C_Unlock"
    by (cases "cpc s j") auto
  then show ?thesis
  proof cases
    case 1
    show ?thesis
    proof (cases "0 < totalitems (bb s)")
      case True
      from c_remove [OF 1 this] show ?thesis by blast
    next
      case False
      then have "totalitems (bb s) \<le> 0" by simp
      from c_wait [OF 1 this] show ?thesis by blast
    qed
  next
    case 2
    show ?thesis
    proof (cases "\<exists>i \<in> {1..np}. \<exists>x. ppc s i = P_Wait x")
      case True
      then show ?thesis using c_signal [OF 2] by blast
    next
      case False
      then have "\<forall>i \<in> {1..np}. \<forall>x. ppc s i \<noteq> P_Wait x" by blast
      from c_signal_none [OF 2 this] show ?thesis by blast
    qed
  next
    case 3
    from c_unlock [OF this] show ?thesis by blast
  qed
qed

lemma free_moves:
  assumes "mutex_inv s" "holder s = None"
  shows "\<not> p_waits (ppc s i) \<Longrightarrow> \<exists>t. producer_step nc False False i s t"
    and "cpc s j \<noteq> C_Wait \<Longrightarrow> \<exists>t. consumer_step np False False j s t"
proof -
  have x: "produce_item_range 0" by (simp add: produce_item_range_def)
  have nc: "\<not> p_crit (ppc s i)" "\<not> c_crit (cpc s j)" using assms by (auto simp: mutex_inv_def)
  show "\<exists>t. producer_step nc False False i s t" if "\<not> p_waits (ppc s i)"
    using that nc assms(2) x by (cases "ppc s i") (auto intro: producer_step.intros)
  show "\<exists>t. consumer_step np False False j s t" if "cpc s j \<noteq> C_Wait"
    using that nc assms(2) by (cases "cpc s j") (auto intro: consumer_step.intros)
qed

subsection \<open>Properties\<close>

text \<open>
  Property C6.  Mutual exclusion: in every reachable state of either program, whatever
  calls fail and whatever threads wake up early, at most one thread stands between taking
  \<^verbatim>\<open>bb.mutex\<close> and releasing it.
\<close>

theorem buffer_mutual_exclusion:
  assumes "reachable mon_start (mon_step np nc fail spur) s"
  shows "(p_crit (ppc s i) \<and> p_crit (ppc s i') \<longrightarrow> i = i')
    \<and> (c_crit (cpc s j) \<and> c_crit (cpc s j') \<longrightarrow> j = j')
    \<and> \<not> (p_crit (ppc s i) \<and> c_crit (cpc s j))"
  using mon_safe.reachable_inv [OF assms] by (auto simp: mutex_inv_def)

text \<open>A run used by the witnesses: the first producer makes an item and takes the mutex.\<close>

lemma mon_run_locked:
  "reachable mon_start (mon_step 1 1 False False)
     (set_ppc 1 (P_Test 7) ((set_ppc 1 (P_Lock 7) mon_init)\<lparr>holder := Some (Prod 1)\<rparr>))"
proof -
  have "reachable mon_start (mon_step 1 1 False False) mon_init"
    by (rule reach_start) (simp add: mon_start_def)
  then have "reachable mon_start (mon_step 1 1 False False) (set_ppc 1 (P_Lock 7) mon_init)"
    by (rule reach_step)
       (rule mon_producer [where i = 1], simp, rule p_make, simp_all add: mon_init_def produce_item_range_def)
  then show ?thesis
    by (rule reach_step) (rule mon_producer [where i = 1], simp, rule p_lock, simp_all add: mon_init_def mon_defs)
qed

theorem buffer_mutual_exclusion_witness:
  "\<exists>s. reachable mon_start (mon_step 1 1 False False) s \<and> p_crit (ppc s 1) \<and> \<not> c_crit (cpc s 1)"
proof (intro exI conjI)
  show "p_crit (ppc (set_ppc 1 (P_Test 7) ((set_ppc 1 (P_Lock 7) mon_init)\<lparr>holder := Some (Prod 1)\<rparr>)) 1)"
    by (simp add: mon_defs)
  then show "\<not> c_crit (cpc (set_ppc 1 (P_Test 7) ((set_ppc 1 (P_Lock 7) mon_init)\<lparr>holder := Some (Prod 1)\<rparr>)) 1)"
    using buffer_mutual_exclusion [OF mon_run_locked] by blast
qed (rule mon_run_locked)

text \<open>
  Property C8.  First in, first out, without loss or duplication: in every reachable state
  the items taken so far followed by the buffer's content are the items stored so far, and
  the buffer holds at most \<^verbatim>\<open>BUFFER_SIZE\<close> of them.
\<close>

theorem buffer_fifo:
  assumes "reachable mon_start (mon_step np nc fail spur) s"
  shows "inserted s = removed s @ ring_queue (bb s) \<and> length (ring_queue (bb s)) \<le> BUFFER_SIZE"
  using mon_safe.reachable_inv [OF assms] ring.size_cap [of "bb s"] by (auto simp: data_inv_def)

theorem buffer_fifo_witness:
  "\<exists>s. reachable mon_start (mon_step 1 1 False False) s \<and> inserted s = [7] \<and> ring_queue (bb s) = [7]"
proof -
  define s0 where
    "s0 = set_ppc 1 (P_Test 7) ((set_ppc 1 (P_Lock 7) mon_init)\<lparr>holder := Some (Prod 1)\<rparr>)"
  define s where
    "s = set_ppc 1 P_Signal (s0\<lparr>bb := put_item 7 (bb s0), inserted := inserted s0 @ [7]\<rparr>)"
  have "mon_step 1 1 False False s0 s"
    unfolding s_def
    by (rule mon_producer [where i = 1], simp, rule p_insert)
       (simp_all add: s0_def mon_init_def mon_defs bb_init_def BUFFER_SIZE_def)
  then have r: "reachable mon_start (mon_step 1 1 False False) s"
    by (rule reach_step [OF mon_run_locked [folded s0_def]])
  have "inserted s = [7]" "removed s = []"
    by (simp_all add: s_def s0_def mon_init_def mon_defs)
  with buffer_fifo [OF r] r show ?thesis by auto
qed

text \<open>
  Property C1.  The monitor implements a bounded first-in first-out queue: take any run of
  the producers and consumers, under every schedule and with or without failing calls and
  spurious wake-ups, and list in order the items the producers inserted and the items the
  consumers got into their local variables.  A queue of at most \<^verbatim>\<open>BUFFER_SIZE\<close> items accepts
  this sequence of operations, every insertion finding room and every removal yielding the
  item at the front, and at the end it holds what the ring buffer holds.
\<close>

theorem buffer_refines_queue:
  assumes "run_of (thread_step np nc fail spur) completed mon_init ks ops s"
  shows "perform queue_do ops [] = Some (ring_queue (bb s))"
proof -
  have "perform queue_do ops (ring_queue (bb mon_init)) = Some (ring_queue (bb s))"
    using mon_queue.run_commutes [OF assms] mutex_start data_start by blast
  then show ?thesis by (simp add: mon_init_def ring_wf_init)
qed

text \<open>A producer inserts 7, returns, and a consumer takes it.\<close>

definition hand_over :: "tid list" where
  "hand_over = [Prod 1, Prod 1, Prod 1, Prod 1, Prod 1, Cons 1, Cons 1]"

lemma thread_move:
  "thread_step np nc fail spur s k t \<Longrightarrow> run_of (thread_step np nc fail spur) completed t ks ops u \<Longrightarrow>
   run_of (thread_step np nc fail spur) completed s (k # ks) (completed s k t @ ops) u"
  by (rule run_cons)

lemma hand_over_run:
  "\<exists>s. run_of (thread_step 1 1 False False) completed mon_init hand_over [Insert 1 7, Remove 1 7] s"
proof -
  define b where "b = put_item 7 bb_init"
  have tot: "totalitems bb_init = 0" "totalitems b = 1" and got: "fst (get_item b) = 7"
    by (simp_all add: b_def bb_init_def put_item_def get_item_def BUFFER_SIZE_def)
  let ?s1 = "set_ppc 1 (P_Lock 7) mon_init"
  let ?s2 = "set_ppc 1 (P_Test 7) (?s1\<lparr>holder := Some (Prod 1)\<rparr>)"
  let ?s3 = "set_ppc 1 P_Signal (?s2\<lparr>bb := b, inserted := inserted ?s2 @ [7]\<rparr>)"
  let ?s4 = "set_ppc 1 P_Unlock ?s3"
  let ?s5 = "set_ppc 1 P_Make (?s4\<lparr>holder := None\<rparr>)"
  let ?s6 = "set_cpc 1 C_Test (?s5\<lparr>holder := Some (Cons 1)\<rparr>)"
  let ?s7 = "set_cpc 1 C_Signal (?s6\<lparr>bb := snd (get_item b),
     cons_item := (cons_item ?s6)(1 := Some (fst (get_item b))), removed := removed ?s6 @ [fst (get_item b)]\<rparr>)"
  have 1: "thread_step 1 1 False False mon_init (Prod 1) ?s1"
    using p_make [of mon_init 1 7] by (simp add: mon_init_def produce_item_range_def)
  have 2: "thread_step 1 1 False False ?s1 (Prod 1) ?s2"
    using p_lock [of ?s1 1 7] by (simp add: mon_init_def mon_defs)
  have 3: "thread_step 1 1 False False ?s2 (Prod 1) ?s3"
    using p_insert [of ?s2 1 7] tot(1) by (simp add: mon_init_def mon_defs b_def BUFFER_SIZE_def)
  have 4: "thread_step 1 1 False False ?s3 (Prod 1) ?s4"
    using p_signal_none [of ?s3 1 1] by (simp add: mon_init_def mon_defs)
  have 5: "thread_step 1 1 False False ?s4 (Prod 1) ?s5"
    using p_unlock [of ?s4 1] by (simp add: mon_defs)
  have 6: "thread_step 1 1 False False ?s5 (Cons 1) ?s6"
    using c_lock [of ?s5 1] by (simp add: mon_init_def mon_defs)
  have 7: "thread_step 1 1 False False ?s6 (Cons 1) ?s7"
    using c_remove [of ?s6 1] tot(2) by (simp add: mon_defs)
  have ops: "completed mon_init (Prod 1) ?s1 @ completed ?s1 (Prod 1) ?s2
     @ completed ?s2 (Prod 1) ?s3 @ completed ?s3 (Prod 1) ?s4 @ completed ?s4 (Prod 1) ?s5
     @ completed ?s5 (Cons 1) ?s6 @ completed ?s6 (Cons 1) ?s7 @ [] = [Insert 1 7, Remove 1 7]"
    using got by (simp add: mon_init_def mon_defs)
  show ?thesis
    using thread_move [OF 1 thread_move [OF 2 thread_move [OF 3 thread_move [OF 4
      thread_move [OF 5 thread_move [OF 6 thread_move [OF 7 run_nil]]]]]]]
    unfolding ops hand_over_def by (rule exI)
qed

theorem buffer_refines_queue_witness:
  "\<exists>s. run_of (thread_step 1 1 False False) completed mon_init hand_over [Insert 1 7, Remove 1 7] s
     \<and> ring_queue (bb s) = []"
proof -
  obtain s where s: "run_of (thread_step 1 1 False False) completed mon_init hand_over [Insert 1 7, Remove 1 7] s"
    using hand_over_run by blast
  from buffer_refines_queue [OF s] have "ring_queue (bb s) = []" by (simp add: BUFFER_SIZE_def)
  with s show ?thesis by blast
qed

text \<open>
  Property C7.  No deadlock and no lost wake-up: while no pthread call fails, in every
  reachable state of a program with a producer and a consumer some thread can take a step
  that is not a spurious wake-up; the signals of \<^verbatim>\<open>insert_item\<close> and \<^verbatim>\<open>remove_item\<close> always
  reach the threads that need them.
\<close>

theorem buffer_no_deadlock:
  assumes "reachable mon_start (mon_step np nc False spur) s" and "0 < np" and "0 < nc"
  shows "\<exists>t. mon_step np nc False False s t"
proof -
  note w = mon_wake.reachable_inv [OF assms(1)]
  have m: "mutex_inv s" using mon_safe.reachable_inv [OF assms(1)] by simp
  consider "holder s = None" | i where "holder s = Some (Prod i)" | j where "holder s = Some (Cons j)"
    by (cases "holder s") (auto, metis tid.exhaust)
  then show ?thesis
  proof cases
    case 1
    from not_all_waiting [OF w assms(2,3)] free_moves [OF m 1] show ?thesis
      by (meson mon_producer mon_consumer)
  next
    case (2 i)
    then have "i \<in> {1..np}"
      using range_crit(1) [OF mon_range.reachable_inv [OF assms(1)]] m by (simp add: mutex_inv_def)
    with holder_moves [OF m 2] show ?thesis by (blast intro: mon_producer)
  next
    case (3 j)
    then have "j \<in> {1..nc}"
      using range_crit(2) [OF mon_range.reachable_inv [OF assms(1)]] m by (simp add: mutex_inv_def)
    with holder_moves_c [OF m 3] show ?thesis by (blast intro: mon_consumer)
  qed
qed

theorem buffer_no_deadlock_witness:
  "\<exists>t. buffer_program False False mon_init t"
proof -
  have "reachable mon_start (mon_step 2 2 False False) mon_init"
    by (rule reach_start) (simp add: mon_start_def)
  from buffer_no_deadlock [OF this] show ?thesis
    by (simp add: buffer_program_def NUM_PRODUCERS_def NUM_CONSUMERS_def)
qed

end
