(* ===== verification/Turns.thy ===== *)
theory Turns
  imports Transition
begin

section \<open>Two threads that take turns\<close>

text \<open>
  \<^verbatim>\<open>lab3/4/hellothread.c\<close>: the main thread and its child greet each other in turn, with a
  mutex, one condition variable and the shared \<^verbatim>\<open>turn\<close> (1 for the child, 0 for the parent).
  A step is one thread moving from one call to the next; a thread in
  \<^verbatim>\<open>pthread_cond_wait\<close> has released the mutex; with \<open>spur\<close> it may wake up unsignalled, as
  POSIX allows.  What is printed is the list of the speakers.
\<close>

subsection \<open>The program\<close>

datatype who = Child | Parent

datatype place =
    T_Lock \<comment> \<open>about to lock\<close>
  | T_Test \<comment> \<open>holds the mutex, at the test of the while loop\<close>
  | T_Wait \<comment> \<open>in \<^verbatim>\<open>pthread_cond_wait\<close>\<close>
  | T_Wake \<comment> \<open>woken, re-acquires the mutex\<close>
  | T_Print \<comment> \<open>holds the mutex, about to print\<close>
  | T_Set \<comment> \<open>has printed, about to pass the turn on\<close>
  | T_Signal \<comment> \<open>about to signal\<close>
  | T_Unlock \<comment> \<open>about to unlock\<close>

record turns =
  turn :: nat
  owner :: "who option"
  at_place :: "who \<Rightarrow> place"
  printed :: "who list"

definition turns_init :: turns where
  "turns_init = \<lparr>turn = 1, owner = None, at_place = (\<lambda>_. T_Lock), printed = []\<rparr>"

fun own_turn :: "who \<Rightarrow> nat" where
  "own_turn Child = 1"
| "own_turn Parent = 0"

fun other :: "who \<Rightarrow> who" where
  "other Child = Parent"
| "other Parent = Child"

definition move :: "who \<Rightarrow> place \<Rightarrow> turns \<Rightarrow> turns" where
  "move w p s = s\<lparr>at_place := (at_place s)(w := p)\<rparr>"

inductive turn_step :: "bool \<Rightarrow> turns \<Rightarrow> turns \<Rightarrow> bool"
  for spur :: bool where
  t_lock: "at_place s w = T_Lock \<Longrightarrow> owner s = None \<Longrightarrow> turn_step spur s (move w T_Test (s\<lparr>owner := Some w\<rparr>))"
| t_wait: "at_place s w = T_Test \<Longrightarrow> turn s \<noteq> own_turn w \<Longrightarrow> turn_step spur s (move w T_Wait (s\<lparr>owner := None\<rparr>))"
| t_spurious: "spur \<Longrightarrow> at_place s w = T_Wait \<Longrightarrow> turn_step spur s (move w T_Wake s)"
| t_wake: "at_place s w = T_Wake \<Longrightarrow> owner s = None \<Longrightarrow> turn_step spur s (move w T_Test (s\<lparr>owner := Some w\<rparr>))"
| t_go: "at_place s w = T_Test \<Longrightarrow> turn s = own_turn w \<Longrightarrow> turn_step spur s (move w T_Print s)"
| t_print: "at_place s w = T_Print \<Longrightarrow> turn_step spur s (move w T_Set (s\<lparr>printed := printed s @ [w]\<rparr>))"
| t_set: "at_place s w = T_Set \<Longrightarrow> turn_step spur s (move w T_Signal (s\<lparr>turn := own_turn (other w)\<rparr>))"
| t_signal: "at_place s w = T_Signal \<Longrightarrow> at_place s (other w) = T_Wait \<Longrightarrow>
     turn_step spur s (move w T_Unlock (move (other w) T_Wake s))"
| t_signal_none: "at_place s w = T_Signal \<Longrightarrow> at_place s (other w) \<noteq> T_Wait \<Longrightarrow> turn_step spur s (move w T_Unlock s)"
| t_unlock: "at_place s w = T_Unlock \<Longrightarrow> turn_step spur s (move w T_Lock (s\<lparr>owner := None\<rparr>))"

inductive_cases turn_stepE: "turn_step spur s t"

subsection \<open>Invariant\<close>

definition inside :: "place \<Rightarrow> bool" where
  "inside p \<longleftrightarrow> p \<in> {T_Test, T_Print, T_Set, T_Signal, T_Unlock}"

definition alternating :: "nat \<Rightarrow> who list" where
  "alternating n = map (\<lambda>i. if even i then Child else Parent) [0..<n]"

definition alternates :: "who list \<Rightarrow> bool" where
  "alternates ws \<longleftrightarrow> ws = alternating (length ws)"

text \<open>Whose greeting comes next.\<close>

definition next_speaker :: "turns \<Rightarrow> who" where
  "next_speaker s = (if even (length (printed s)) then Child else Parent)"

definition turns_ok :: "turns \<Rightarrow> bool" where
  "turns_ok s \<longleftrightarrow>
     (\<forall>w. owner s = Some w \<longleftrightarrow> inside (at_place s w)) \<and>
     alternates (printed s) \<and>
     turn s = own_turn (if at_place s (other (next_speaker s)) = T_Set then other (next_speaker s) else next_speaker s) \<and>
     (\<forall>w. at_place s w = T_Print \<or> at_place s w = T_Set \<longrightarrow> turn s = own_turn w) \<and>
     (\<forall>w. at_place s w = T_Set \<longrightarrow> w = other (next_speaker s)) \<and>
     (\<forall>w. at_place s w = T_Wait \<longrightarrow> turn s = own_turn w \<longrightarrow> at_place s (other w) = T_Signal)"

lemma alternating_Suc: "alternating (Suc n) = alternating n @ [if even n then Child else Parent]"
  by (simp add: alternating_def)

lemma alternates_snoc:
  "alternates ws \<Longrightarrow> w = (if even (length ws) then Child else Parent) \<Longrightarrow> alternates (ws @ [w])"
  by (simp add: alternates_def alternating_Suc)

lemma all_who: "(\<forall>w. P w) \<longleftrightarrow> P Child \<and> P Parent"
  by (metis who.exhaust)

lemma inside_simps [simp]:
  "inside T_Test" "inside T_Print" "inside T_Set" "inside T_Signal" "inside T_Unlock"
  "\<not> inside T_Lock" "\<not> inside T_Wait" "\<not> inside T_Wake"
  by (simp_all add: inside_def)

lemma move_simps [simp]:
  "turn (move w p s) = turn s" "owner (move w p s) = owner s" "printed (move w p s) = printed s"
  "at_place (move w p s) = (at_place s)(w := p)"
  by (simp_all add: move_def)

lemma other_simps [simp]: "other w \<noteq> w" "w \<noteq> other w" "other (other w) = w" "own_turn (other w) \<noteq> own_turn w"
  "own_turn v = own_turn w \<longleftrightarrow> v = w"
  by (cases w; cases v; simp)+

text \<open>A move of one thread that neither prints nor passes the turn on.\<close>

lemma quiet_move:
  assumes ok: "turns_ok s" and w: "at_place t = (at_place s)(w := p)"
    and same: "turn t = turn s" "printed t = printed s"
    and own: "owner t = (if inside p then Some w else if inside (at_place s w) then None else owner s)"
    and free: "inside p \<Longrightarrow> inside (at_place s w) \<or> owner s = None"
    and p: "at_place s w \<noteq> T_Set" "p \<noteq> T_Set" "p = T_Print \<Longrightarrow> turn s = own_turn w"
      "p = T_Wait \<Longrightarrow> turn s \<noteq> own_turn w"
    and sig: "at_place s w = T_Signal \<Longrightarrow> at_place s (other w) \<noteq> T_Wait"
  shows "turns_ok t"
  unfolding turns_ok_def
proof (intro conjI allI)
  have holds: "owner s = Some v \<longleftrightarrow> inside (at_place s v)" for v using ok unfolding turns_ok_def by blast
  have nxt: "next_speaker t = next_speaker s" using same by (simp add: next_speaker_def)
  have set: "at_place t v = T_Set \<longleftrightarrow> at_place s v = T_Set" for v using w p(1,2) by simp
  show "owner t = Some v \<longleftrightarrow> inside (at_place t v)" for v
    using own w holds [of v] holds [of w] free by (cases "v = w") auto
  show "alternates (printed t)" using ok same unfolding turns_ok_def by simp
  show "turn t = own_turn (if at_place t (other (next_speaker t)) = T_Set
      then other (next_speaker t) else next_speaker t)"
    unfolding nxt set same using ok unfolding turns_ok_def by blast
  have there: "at_place s v = T_Print \<or> at_place s v = T_Set \<longrightarrow> turn s = own_turn v" for v
    using ok unfolding turns_ok_def by blast
  show "at_place t v = T_Print \<or> at_place t v = T_Set \<longrightarrow> turn t = own_turn v" for v
    using w same p there [of v] by (cases "v = w") auto
  show "at_place t v = T_Set \<longrightarrow> v = other (next_speaker t)" for v
    unfolding nxt set using ok unfolding turns_ok_def by blast
  have wait: "at_place s v = T_Wait \<longrightarrow> turn s = own_turn v \<longrightarrow> at_place s (other v) = T_Signal" for v
    using ok unfolding turns_ok_def by blast
  show "at_place t v = T_Wait \<longrightarrow> turn t = own_turn v \<longrightarrow> at_place t (other v) = T_Signal" for v
  proof (intro impI)
    assume v: "at_place t v = T_Wait" "turn t = own_turn v"
    then have "v \<noteq> w" using w same p(4) by auto
    then have "other v = w" "other w = v" by (cases v; cases w; simp)+
    moreover have "at_place s v = T_Wait" using v w \<open>v \<noteq> w\<close> by simp
    ultimately have False using wait [of v] v(2) same sig by simp
    then show "at_place t (other v) = T_Signal" ..
  qed
qed

lemma turns_ok_step:
  assumes ok: "turns_ok s" and step: "turn_step spur s t"
  shows "turns_ok t"
proof -
  have holds: "owner s = Some v \<longleftrightarrow> inside (at_place s v)" for v using ok unfolding turns_ok_def by blast
  have there: "at_place s v = T_Print \<or> at_place s v = T_Set \<longrightarrow> turn s = own_turn v" for v
    using ok unfolding turns_ok_def by blast
  from step show ?thesis
  proof (cases rule: turn_step.cases)
    case (t_print w)
    then show ?thesis
      using ok by (cases w) (auto simp: turns_ok_def all_who next_speaker_def alternates_snoc split: if_splits)
  next
    case (t_set w)
    then show ?thesis
      using ok by (cases w) (auto simp: turns_ok_def all_who next_speaker_def split: if_splits)
  next
    case (t_signal w)
    let ?u = "move (other w) T_Wake s"
    have "turns_ok ?u" by (rule quiet_move [OF ok, of _ "other w" T_Wake]) (use t_signal in auto)
    then show ?thesis
      using t_signal holds [of w] by (intro quiet_move [of ?u t w T_Unlock]) auto
  next
    case (t_lock w)
    then show ?thesis by (intro quiet_move [OF ok, of _ w T_Test]) auto
  next
    case (t_wait w)
    then show ?thesis by (intro quiet_move [OF ok, of _ w T_Wait]) auto
  next
    case (t_spurious w)
    then show ?thesis by (intro quiet_move [OF ok, of _ w T_Wake]) auto
  next
    case (t_wake w)
    then show ?thesis by (intro quiet_move [OF ok, of _ w T_Test]) auto
  next
    case (t_go w)
    then show ?thesis using holds [of w] by (intro quiet_move [OF ok, of _ w T_Print]) auto
  next
    case (t_signal_none w)
    then show ?thesis using holds [of w] by (intro quiet_move [OF ok, of _ w T_Unlock]) auto
  next
    case (t_unlock w)
    then show ?thesis by (intro quiet_move [OF ok, of _ w T_Lock]) auto
  qed
qed

lemma turns_ok_init: "turns_ok turns_init"
  by (simp add: turns_ok_def turns_init_def next_speaker_def alternates_def alternating_def)

interpretation taking_turns: inductive_invariant "\<lambda>s. s = turns_init" "turn_step spur" turns_ok
  for spur :: bool
  by unfold_locales (auto intro: turns_ok_init turns_ok_step)


subsection \<open>Properties\<close>

text \<open>
  Property C10.  Strict alternation: in every execution, with spurious wakeups or without,
  the greetings alternate, the child's first.
\<close>

theorem greetings_alternate:
  assumes "reachable (\<lambda>s. s = turns_init) (turn_step spur) s"
  shows "printed s = alternating (length (printed s))"
  using taking_turns.reachable_inv [OF assms] by (simp add: turns_ok_def alternates_def)

text \<open>Both threads' first greetings.\<close>

definition greeted :: turns where
  "greeted = \<lparr>turn = 0, owner = Some Parent, at_place = (\<lambda>_. T_Lock)(Parent := T_Set), printed = [Child, Parent]\<rparr>"

lemma greeted_reached: "reachable (\<lambda>s. s = turns_init) (turn_step spur) greeted"
proof -
  let ?step = "turn_step spur"
  define s1 where "s1 = move Child T_Test (turns_init\<lparr>owner := Some Child\<rparr>)"
  define s2 where "s2 = move Child T_Print s1"
  define s3 where "s3 = move Child T_Set (s2\<lparr>printed := printed s2 @ [Child]\<rparr>)"
  define s4 where "s4 = move Child T_Signal (s3\<lparr>turn := own_turn (other Child)\<rparr>)"
  define s5 where "s5 = move Child T_Unlock s4"
  define s6 where "s6 = move Child T_Lock (s5\<lparr>owner := None\<rparr>)"
  define s7 where "s7 = move Parent T_Test (s6\<lparr>owner := Some Parent\<rparr>)"
  define s8 where "s8 = move Parent T_Print s7"
  define s9 where "s9 = move Parent T_Set (s8\<lparr>printed := printed s8 @ [Parent]\<rparr>)"
  note d = s1_def s2_def s3_def s4_def s5_def s6_def s7_def s8_def s9_def
  have r: "reachable (\<lambda>s. s = turns_init) ?step turns_init" by (rule reach_start) simp
  have "?step turns_init s1" unfolding s1_def by (rule t_lock) (simp_all add: turns_init_def)
  with r have r: "reachable (\<lambda>s. s = turns_init) ?step s1" by (rule reach_step)
  have "?step s1 s2" unfolding s2_def by (rule t_go) (simp_all add: d turns_init_def)
  with r have r: "reachable (\<lambda>s. s = turns_init) ?step s2" by (rule reach_step)
  have "?step s2 s3" unfolding s3_def by (rule t_print) (simp_all add: d)
  with r have r: "reachable (\<lambda>s. s = turns_init) ?step s3" by (rule reach_step)
  have "?step s3 s4" unfolding s4_def by (rule t_set) (simp_all add: d)
  with r have r: "reachable (\<lambda>s. s = turns_init) ?step s4" by (rule reach_step)
  have "?step s4 s5" unfolding s5_def by (rule t_signal_none) (simp_all add: d turns_init_def)
  with r have r: "reachable (\<lambda>s. s = turns_init) ?step s5" by (rule reach_step)
  have "?step s5 s6" unfolding s6_def by (rule t_unlock) (simp_all add: d)
  with r have r: "reachable (\<lambda>s. s = turns_init) ?step s6" by (rule reach_step)
  have "?step s6 s7" unfolding s7_def by (rule t_lock) (simp_all add: d turns_init_def)
  with r have r: "reachable (\<lambda>s. s = turns_init) ?step s7" by (rule reach_step)
  have "?step s7 s8" unfolding s8_def by (rule t_go) (simp_all add: d)
  with r have r: "reachable (\<lambda>s. s = turns_init) ?step s8" by (rule reach_step)
  have "?step s8 s9" unfolding s9_def by (rule t_print) (simp_all add: d)
  with r have r: "reachable (\<lambda>s. s = turns_init) ?step s9" by (rule reach_step)
  have "s9 = greeted"
    by (simp add: d greeted_def turns_init_def move_def fun_eq_iff all_who)
  with r show ?thesis by simp
qed

theorem greetings_alternate_witness: "printed greeted = alternating 2 \<and> printed greeted = [Child, Parent]"
proof -
  have len: "length (printed greeted) = 2" by (simp add: greeted_def)
  have "printed greeted = alternating 2"
    using greetings_alternate [OF greeted_reached] unfolding len .
  moreover have "printed greeted = [Child, Parent]" by (simp add: greeted_def)
  ultimately show ?thesis by blast
qed

lemma inside_moves:
  "inside (at_place s w) \<Longrightarrow> \<exists>t. turn_step False s t"
  by (cases "at_place s w"; cases "at_place s (other w) = T_Wait"; cases "turn s = own_turn w")
     (auto intro: turn_step.intros)

text \<open>
  Property C11.  No deadlock: in every reachable state some thread can move without a
  spurious wakeup; in particular no signal is lost.
\<close>

theorem turns_no_deadlock:
  assumes "reachable (\<lambda>s. s = turns_init) (turn_step spur) s"
  shows "\<exists>t. turn_step False s t"
proof -
  have ok: "turns_ok s" using assms by (rule taking_turns.reachable_inv)
  show ?thesis
  proof (cases "owner s")
    case (Some w)
    moreover have "owner s = Some w \<longleftrightarrow> inside (at_place s w)" using ok unfolding turns_ok_def by blast
    ultimately show ?thesis by (simp add: inside_moves)
  next
    case None
    then have out: "\<not> inside (at_place s w)" for w using ok by (auto simp: turns_ok_def)
    show ?thesis
    proof (cases "\<exists>w. at_place s w = T_Lock \<or> at_place s w = T_Wake")
      case True
      then show ?thesis using None t_lock [of s _ False] t_wake [of s _ False] by blast
    next
      case False
      have w: "at_place s w = T_Wait" for w
        using False out [of w] by (cases "at_place s w") auto
      obtain v where v: "turn s = own_turn v" using ok unfolding turns_ok_def by blast
      with w [of v] have "at_place s (other v) = T_Signal" using ok unfolding turns_ok_def by blast
      with w [of "other v"] show ?thesis by simp
    qed
  qed
qed

theorem turns_no_deadlock_witness: "\<exists>t. turn_step False greeted t"
  using turns_no_deadlock [OF greeted_reached] .

end
