(* ===== verification/Auth_File.thy ===== *)
theory Auth_File
  imports C_Prelude
begin

section \<open>The chat server's user file\<close>

text \<open>
  \<^verbatim>\<open>process_auth\<close> of \<^verbatim>\<open>project2/gui_server.c\<close>: the accounts are the lines
  \<^verbatim>\<open>id password\<close> of \<^verbatim>\<open>users.txt\<close>, scanned with \<^verbatim>\<open>fscanf("%s %s")\<close> into two
  arrays of 20 bytes and extended with \<^verbatim>\<open>fprintf("%s %s\n")\<close>.  The file is its content,
  \<open>None\<close> when it does not exist.  The routine's result is its return value (0, -1 or -2)
  and the file it leaves; both of its branches run under the server's mutex, so a call is
  one step.  \<open>auth_spec\<close> is what it promises of the map from ids to passwords, and the
  locale \<open>account_store\<close> the contract the connection handler relies on.
\<close>

subsection \<open>The code\<close>

text \<open>
  The \<^verbatim>\<open>fscanf\<close> loop.  \<open>uid\<close> is the caller's array, \<open>None\<close> if it was never written: the
  comparison then reads uninitialised memory.  At the end of the file after one word,
  \<^verbatim>\<open>fscanf\<close> returns 1, not \<^verbatim>\<open>EOF\<close>: the body runs with the password of the line before,
  \<open>None\<close> while \<^verbatim>\<open>file_pw\<close> is uninitialised.
\<close>

function auth_scan :: "bytes \<Rightarrow> bytes option \<Rightarrow> bytes option \<Rightarrow> (bool \<times> bytes option) cres" where
  "auth_scan fp uid file_pw =
     (case scan_word fp of
        None \<Rightarrow> Inr (False, file_pw)
      | Some (a, r) \<Rightarrow>
          if 20 \<le> length a then Inl Out_Of_Bounds
          else (case scan_word r of
              None \<Rightarrow>
                if uid = None then Inl Uninitialised
                else if Some (cstr a) = uid then Inr (True, file_pw)
                else auth_scan r uid file_pw
            | Some (b, r') \<Rightarrow>
                if 20 \<le> length b then Inl Out_Of_Bounds
                else if uid = None then Inl Uninitialised
                else if Some (cstr a) = uid then Inr (True, Some b)
                else auth_scan r' uid (Some b)))"
  by pat_completeness auto
termination
  by (relation "measure (\<lambda>(fp, uid, file_pw). length fp)")
     (auto dest!: scan_word_shorter)

declare auth_scan.simps [simp del]

definition process_auth ::
  "bytes \<Rightarrow> bytes option \<Rightarrow> bytes option \<Rightarrow> bytes option \<Rightarrow> (int \<times> bytes option) cres" where
  "process_auth mode uid pw users =
     (let fp = (case users of Some f \<Rightarrow> f | None \<Rightarrow> []) in
      case auth_scan fp uid None of
        Inl e \<Rightarrow> Inl e
      | Inr (found, file_pw) \<Rightarrow>
          if mode = ''REGISTER'' then
            (if found then Inr (-1, Some fp)
             else (case (uid, pw) of
                (Some u, Some p) \<Rightarrow> Inr (0, Some (fp @ u @ SP # p @ [NL]))
              | _ \<Rightarrow> Inl Uninitialised))
          else if \<not> found then Inr (-2, Some fp)
          else (case (file_pw, pw) of
              (Some f, Some p) \<Rightarrow> if cstr f = p then Inr (0, Some fp) else Inr (-1, Some fp)
            | _ \<Rightarrow> Inl Uninitialised))"

subsection \<open>The accounts in a file\<close>

text \<open>The text of a list of accounts, and the accounts read back from a text.\<close>

definition user_line :: "bytes \<times> bytes \<Rightarrow> bytes" where
  "user_line u = fst u @ SP # snd u @ [NL]"

definition user_lines :: "(bytes \<times> bytes) list \<Rightarrow> bytes" where
  "user_lines us = concat (map user_line us)"

function file_pairs :: "bytes \<Rightarrow> (bytes \<times> bytes) list" where
  "file_pairs f =
     (case scan_word f of
        None \<Rightarrow> []
      | Some (a, r) \<Rightarrow>
          (case scan_word r of
             None \<Rightarrow> []
           | Some (b, r') \<Rightarrow> (a, b) # file_pairs r'))"
  by pat_completeness auto
termination
  by (relation "measure length") (auto dest!: scan_word_shorter)

declare file_pairs.simps [simp del]

text \<open>What fits a field: a token without NUL of at most 19 bytes.\<close>

definition field_ok :: "bytes \<Rightarrow> bool" where
  "field_ok w \<longleftrightarrow> is_token w \<and> NUL \<notin> set w \<and> length w < 20"

definition users_ok :: "(bytes \<times> bytes) list \<Rightarrow> bool" where
  "users_ok us \<longleftrightarrow> (\<forall>u \<in> set us. field_ok (fst u) \<and> field_ok (snd u))"

definition file_ok :: "bytes option \<Rightarrow> bool" where
  "file_ok users = (case users of None \<Rightarrow> True | Some f \<Rightarrow> (\<exists>us. users_ok us \<and> f = user_lines us))"

definition accounts :: "bytes option \<Rightarrow> (bytes \<rightharpoonup> bytes)" where
  "accounts users = (case users of None \<Rightarrow> Map.empty | Some f \<Rightarrow> map_of (file_pairs f))"

lemma space_chars [simp]: "is_space SP" "is_space NL"
  by (simp_all add: is_space_def)

lemma scan_user_line:
  assumes "field_ok a" "field_ok b"
  shows "scan_word (user_line (a, b) @ r) = Some (a, SP # b @ NL # r)"
    and "scan_word (SP # b @ NL # r) = Some (b, NL # r)"
  using assms
  by (simp_all add: user_line_def field_ok_def scan_word_append scan_word_skip)

lemma auth_scan_skip: "is_space x \<Longrightarrow> auth_scan (x # r) uid p = auth_scan r uid p"
  by (simp add: auth_scan.simps [of "x # r"] auth_scan.simps [of r] scan_word_skip)

lemma file_pairs_skip: "is_space x \<Longrightarrow> file_pairs (x # r) = file_pairs r"
  by (simp add: file_pairs.simps [of "x # r"] file_pairs.simps [of r] scan_word_skip)

text \<open>Parsing the text of a list of accounts gives the list back.\<close>

lemma file_pairs_user_lines: "users_ok us \<Longrightarrow> file_pairs (user_lines us) = us"
proof (induction us)
  case Nil
  then show ?case by (simp add: user_lines_def file_pairs.simps)
next
  case (Cons u us)
  obtain a b where u: "u = (a, b)" by (cases u)
  with Cons.prems have f: "field_ok a" "field_ok b" and us: "users_ok us"
    by (auto simp: users_ok_def)
  have "user_lines (u # us) = user_line (a, b) @ user_lines us"
    by (simp add: user_lines_def u)
  with scan_user_line [OF f, of "user_lines us"] Cons.IH [OF us] u show ?case
    by (simp add: file_pairs.simps [of "user_line (a, b) @ user_lines us"] file_pairs_skip)
qed

text \<open>The scan of a well-formed file is the lookup of the first account with the id.\<close>

lemma auth_scan_user_lines:
  assumes "users_ok us"
  shows "\<exists>q. auth_scan (user_lines us) (Some uid) p
    = Inr (case map_of us uid of None \<Rightarrow> (False, q) | Some b \<Rightarrow> (True, Some b))"
  using assms
proof (induction us arbitrary: p)
  case Nil
  then show ?case by (simp add: user_lines_def auth_scan.simps)
next
  case (Cons u us)
  obtain a b where u: "u = (a, b)" by (cases u)
  with Cons.prems have f: "field_ok a" "field_ok b" and us: "users_ok us"
    by (auto simp: users_ok_def)
  have l: "user_lines (u # us) = user_line (a, b) @ user_lines us"
    by (simp add: user_lines_def u)
  have a: "cstr a = a" "length a < 20" "length b < 20"
    using f by (auto simp: field_ok_def cstr_no_nul)
  show ?case
    using scan_user_line [OF f, of "user_lines us"] Cons.IH [OF us, of "Some b"] u a l
    by (auto simp: auth_scan.simps [of "user_line (a, b) @ user_lines us"] auth_scan_skip split: option.splits)
qed

lemma user_lines_snoc: "user_lines us @ uid @ SP # pw @ [NL] = user_lines (us @ [(uid, pw)])"
  by (simp add: user_lines_def user_line_def)

lemma map_of_snoc_new: "map_of us k = None \<Longrightarrow> map_of (us @ [(k, v)]) = (map_of us)(k \<mapsto> v)"
  by (auto simp: map_add_def split: option.splits)

subsection \<open>What process_auth promises\<close>

definition auth_spec ::
  "bytes \<Rightarrow> bytes \<Rightarrow> bytes \<Rightarrow> (bytes \<rightharpoonup> bytes) \<Rightarrow> int \<times> (bytes \<rightharpoonup> bytes)" where
  "auth_spec mode uid pw m =
     (if mode = ''REGISTER'' then
        (case m uid of None \<Rightarrow> (0, m(uid \<mapsto> pw)) | Some p \<Rightarrow> (-1, m))
      else (case m uid of None \<Rightarrow> (-2, m) | Some p \<Rightarrow> if p = pw then (0, m) else (-1, m)))"

lemma file_ok_cases:
  assumes "file_ok users"
  obtains us where "users_ok us"
    "(case users of Some f \<Rightarrow> f | None \<Rightarrow> []) = user_lines us" "accounts users = map_of us"
proof (cases users)
  case None
  show ?thesis
    by (rule that [of "[]"]) (simp_all add: None users_ok_def user_lines_def accounts_def)
next
  case (Some f)
  then obtain us where "users_ok us" "f = user_lines us"
    using assms by (auto simp: file_ok_def)
  with Some show ?thesis
    by (intro that [of us]) (simp_all add: accounts_def file_pairs_user_lines)
qed

lemma process_auth_spec:
  assumes "file_ok users" "field_ok uid" "field_ok pw"
  shows "\<exists>r users'. process_auth mode (Some uid) (Some pw) users = Inr (r, users') \<and> file_ok users'
    \<and> (r, accounts users') = auth_spec mode uid pw (accounts users)"
proof -
  obtain us where us: "users_ok us"
    "(case users of Some f \<Rightarrow> f | None \<Rightarrow> []) = user_lines us" "accounts users = map_of us"
    using assms(1) by (rule file_ok_cases)
  obtain q where scan: "auth_scan (user_lines us) (Some uid) None
      = Inr (case map_of us uid of None \<Rightarrow> (False, q) | Some b \<Rightarrow> (True, Some b))"
    using auth_scan_user_lines [OF us(1)] by blast
  have same: "file_ok (Some (user_lines us))" "accounts (Some (user_lines us)) = map_of us"
    using us(1) by (auto simp: file_ok_def accounts_def file_pairs_user_lines)
  have "users_ok (us @ [(uid, pw)])"
    using us(1) assms(2,3) by (auto simp: users_ok_def)
  then have added: "file_ok (Some (user_lines (us @ [(uid, pw)])))"
    "accounts (Some (user_lines (us @ [(uid, pw)]))) = map_of (us @ [(uid, pw)])"
    by (auto simp: file_ok_def accounts_def file_pairs_user_lines simp del: map_of_append)
  have stored: "cstr b = b" if "map_of us uid = Some b" for b
    using that us(1) by (auto simp: users_ok_def field_ok_def cstr_no_nul dest!: map_of_SomeD)
  show ?thesis
    using us(2,3) scan same added stored map_of_snoc_new [of us uid pw]
    by (cases "map_of us uid")
       (auto simp: process_auth_def auth_spec_def user_lines_snoc Let_def simp del: map_of_append)
qed

subsection \<open>The contract of an account store\<close>

text \<open>What the connection handler relies on: a call gives the answer and the map of
  accounts that the specification gives, and keeps the store well formed.\<close>

locale account_store =
  fixes auth :: "bytes \<Rightarrow> bytes \<Rightarrow> bytes \<Rightarrow> 'f \<Rightarrow> (int \<times> 'f) cres"
    and ok :: "'f \<Rightarrow> bool" and accts :: "'f \<Rightarrow> (bytes \<rightharpoonup> bytes)" and field :: "bytes \<Rightarrow> bool"
  assumes auth_spec: "ok f \<Longrightarrow> field uid \<Longrightarrow> field pw \<Longrightarrow>
    \<exists>r g. auth mode uid pw f = Inr (r, g) \<and> ok g \<and> (r, accts g) = auth_spec mode uid pw (accts f)"
begin

lemma auth_keeps: "ok f \<Longrightarrow> field uid \<Longrightarrow> field pw \<Longrightarrow> auth mode uid pw f = Inr (r, g) \<Longrightarrow> ok g"
  using auth_spec [of f uid pw mode] by auto

lemma auth_result:
  "ok f \<Longrightarrow> field uid \<Longrightarrow> field pw \<Longrightarrow> auth mode uid pw f = Inr (r, g) \<Longrightarrow>
   (r, accts g) = auth_spec mode uid pw (accts f)"
  using auth_spec [of f uid pw mode] by auto

text \<open>After a registration that succeeded, the same credentials log in, and no other
  password does; a second registration of the id is refused.\<close>

lemma register_then:
  assumes "ok f" "field uid" "field pw" "auth ''REGISTER'' uid pw f = Inr (0, g)" "field q"
  shows "\<exists>h. auth ''LOGIN'' uid q g = Inr (if q = pw then 0 else -1, h) \<and> accts h = accts g"
    and "\<exists>h. auth ''REGISTER'' uid q g = Inr (-1, h) \<and> accts h = accts g"
proof -
  have g: "ok g" using auth_keeps [OF assms(1-4)] .
  have "accts g uid = Some pw"
    using auth_result [OF assms(1-4)] by (auto simp: auth_spec_def split: option.splits)
  then show "\<exists>h. auth ''LOGIN'' uid q g = Inr (if q = pw then 0 else -1, h) \<and> accts h = accts g"
    and "\<exists>h. auth ''REGISTER'' uid q g = Inr (-1, h) \<and> accts h = accts g"
    using auth_spec [OF g assms(2,5), of "''LOGIN''"] auth_spec [OF g assms(2,5), of "''REGISTER''"]
    by (auto simp: auth_spec_def split: if_splits)
qed

text \<open>No call removes or changes an account.\<close>

lemma accounts_grow:
  "ok f \<Longrightarrow> field uid \<Longrightarrow> field pw \<Longrightarrow> auth mode uid pw f = Inr (r, g) \<Longrightarrow> accts f \<subseteq>\<^sub>m accts g"
  using auth_result [of f uid pw mode r g]
  by (auto simp: auth_spec_def map_le_def split: if_splits option.splits)

end

interpretation user_file: account_store "\<lambda>mode uid pw. process_auth mode (Some uid) (Some pw)" file_ok accounts field_ok
  by unfold_locales (rule process_auth_spec)

subsection \<open>Properties\<close>

text \<open>The user file that is kept beside the server.\<close>

definition users_txt :: bytes where
  "users_txt = user_lines [(''user1'', ''1234''), (''user2'', ''1234''), (''user3'', ''1234''), (''user4'', ''1234'')]"

lemma field_ok_examples:
  "field_ok ''user1''" "field_ok ''user2''" "field_ok ''user3''" "field_ok ''user4''"
  "field_ok ''1234''" "field_ok ''kim''" "field_ok ''pw''"
  by (simp_all add: field_ok_def is_token_def is_space_def)

lemma users_txt_ok: "file_ok (Some users_txt)"
  unfolding file_ok_def users_txt_def
  by (simp, rule exI, rule conjI [OF _ refl]) (simp add: users_ok_def field_ok_examples)

text \<open>
  Property C2.  \<^verbatim>\<open>process_auth\<close> implements its contract: on a well-formed user file and
  credentials that fit the arrays it returns the value the header comment documents (0, -1
  or -2), and the file it leaves is well formed and holds the accounts of the
  specification: unchanged, or extended with the new account after a registration that
  succeeded.
\<close>

theorem process_auth_refines:
  assumes "file_ok users" and "field_ok uid" and "field_ok pw"
  shows "\<exists>r users'. process_auth mode (Some uid) (Some pw) users = Inr (r, users') \<and> file_ok users'
    \<and> (r, accounts users') = auth_spec mode uid pw (accounts users)"
  using assms by (rule user_file.auth_spec)

theorem process_auth_refines_witness:
  "file_ok (Some users_txt) \<and> (\<exists>users'. process_auth ''LOGIN'' (Some ''kim'') (Some ''pw'') (Some users_txt) = Inr (-2, users'))"
  using process_auth_refines [OF users_txt_ok field_ok_examples(6,7), of "''LOGIN''"] users_txt_ok
  by (auto simp: auth_spec_def accounts_def users_txt_def file_pairs_user_lines users_ok_def field_ok_examples)

text \<open>
  Registering and logging in: after \<^verbatim>\<open>REGISTER\<close> returned 0, \<^verbatim>\<open>LOGIN\<close> with
  the same id returns 0 for the registered password and -1 for any other, and another
  \<^verbatim>\<open>REGISTER\<close> of the id returns -1; neither changes the accounts.
\<close>

lemma register_login_roundtrip:
  assumes "file_ok users" and "field_ok uid" and "field_ok pw" and "field_ok q"
    and "process_auth ''REGISTER'' (Some uid) (Some pw) users = Inr (0, users')"
  shows "(\<exists>f. process_auth ''LOGIN'' (Some uid) (Some q) users' = Inr (if q = pw then 0 else -1, f)
             \<and> accounts f = accounts users')
       \<and> (\<exists>f. process_auth ''REGISTER'' (Some uid) (Some q) users' = Inr (-1, f) \<and> accounts f = accounts users')"
  using user_file.register_then [OF assms(1,2,3,5,4)] by blast

lemma register_kim:
  "process_auth ''REGISTER'' (Some ''kim'') (Some ''pw'') None = Inr (0, Some (user_lines [(''kim'', ''pw'')]))"
  by (simp add: process_auth_def auth_scan.simps user_lines_def user_line_def)

lemma register_login_roundtrip_example:
  "\<exists>f. process_auth ''LOGIN'' (Some ''kim'') (Some ''pw'') (Some (user_lines [(''kim'', ''pw'')])) = Inr (0, f)"
  using register_login_roundtrip [OF _ field_ok_examples(6,7,7) register_kim]
  by (auto simp: file_ok_def)

text \<open>
  No call of \<^verbatim>\<open>process_auth\<close> loses or changes an account that is already in the file.
\<close>

lemma accounts_never_lost:
  assumes "file_ok users" and "field_ok uid" and "field_ok pw"
    and "process_auth mode (Some uid) (Some pw) users = Inr (r, users')"
  shows "accounts users \<subseteq>\<^sub>m accounts users'"
  using assms by (rule user_file.accounts_grow)

lemma accounts_never_lost_example:
  "accounts None \<subseteq>\<^sub>m accounts (Some (user_lines [(''kim'', ''pw'')]))
   \<and> accounts (Some (user_lines [(''kim'', ''pw'')])) ''kim'' = Some ''pw''"
proof -
  have "users_ok [(''kim'', ''pw'')]" by (simp add: users_ok_def field_ok_examples)
  then show ?thesis
    using accounts_never_lost [OF _ field_ok_examples(6,7) register_kim]
    by (simp add: file_ok_def accounts_def file_pairs_user_lines)
qed

end
