(* ===== verification/Chat_Server.thy ===== *)
theory Chat_Server
  imports Auth_File
begin

section \<open>The messenger's server\<close>

text \<open>
  \<^verbatim>\<open>project2/gui_server.c\<close>: one thread per connection (\<^verbatim>\<open>handle_clnt\<close>) over the shared
  registry \<^verbatim>\<open>clnt_list\<close>/\<^verbatim>\<open>clnt_cnt\<close>, the heap of \<^verbatim>\<open>Client\<close> structs it points to, and the
  user file.  A pointer is a number; a heap cell is unallocated, a live struct or a freed
  one.  A handler is split where it takes and releases the mutex or waits for its socket,
  so a run of the server is a list of events, each one handler moving from one such point
  to the next, in any order.  \<^verbatim>\<open>malloc\<close> gives a block with arbitrary content, and
  \<^verbatim>\<open>accept\<close> an arbitrary descriptor: both are parameters of the \<open>Accept\<close> event.  What is
  written to the sockets is recorded in \<open>sent\<close>, in order.
\<close>

subsection \<open>Constants and messages\<close>

definition BUF_SIZE :: nat where "BUF_SIZE = 1024"
definition MAX_CLNT :: nat where "MAX_CLNT = 256"
definition NAME_SIZE :: nat where "NAME_SIZE = 20"

text \<open>The Korean texts of the source, in UTF-8.\<close>

definition msg_dup_login :: bytes where
  "msg_dup_login = map char_of [236, 139, 164, 237, 140, 168, 58, 32, 236, 157, 180, 235, 175, 184, 32,
     236, 160, 145, 236, 134, 141, 236, 164, 145, 236, 157, 184, 32, 236, 149, 132, 236, 157,
     180, 235, 148, 148, 236, 158, 133, 235, 139, 136, 235, 139, 164, 46 :: nat]"

definition msg_welcome_1 :: bytes where
  "msg_welcome_1 = map char_of [62, 62, 62, 32, 236, 132, 156, 235, 178, 132, 58, 32, 237, 153, 152, 236,
     152, 129, 237, 149, 169, 235, 139, 136, 235, 139, 164, 32 :: nat]"

definition msg_welcome_2 :: bytes where
  "msg_welcome_2 = map char_of [235, 139, 152, 33, 32, 40, 235, 161, 156, 235, 185, 132, 32, 236, 158, 133,
     236, 158, 165, 41, 10 :: nat]"

definition msg_id_exists :: bytes where
  "msg_id_exists = map char_of [236, 139, 164, 237, 140, 168, 58, 32, 236, 157, 180, 235, 175, 184, 32,
     236, 161, 180, 236, 158, 172, 237, 149, 152, 235, 138, 148, 32, 236, 149, 132, 236, 157,
     180, 235, 148, 148, 236, 158, 133, 235, 139, 136, 235, 139, 164, 46 :: nat]"

definition msg_no_id :: bytes where
  "msg_no_id = map char_of [236, 139, 164, 237, 140, 168, 58, 32, 236, 161, 180, 236, 158, 172, 237,
     149, 152, 236, 167, 128, 32, 236, 149, 138, 235, 138, 148, 32, 236, 149, 132, 236, 157,
     180, 235, 148, 148, 236, 158, 133, 235, 139, 136, 235, 139, 164, 46 :: nat]"

definition msg_bad_pw :: bytes where
  "msg_bad_pw = map char_of [236, 139, 164, 237, 140, 168, 58, 32, 235, 185, 132, 235, 176, 128, 235,
     178, 136, 237, 152, 184, 234, 176, 128, 32, 237, 139, 128, 235, 160, 184, 236, 138, 181,
     235, 139, 136, 235, 139, 164, 46 :: nat]"

definition msg_moved_1 :: bytes where
  "msg_moved_1 = map char_of [62, 62, 62, 32, 236, 132, 156, 235, 178, 132, 58, 32 :: nat]"

definition msg_moved_2 :: bytes where
  "msg_moved_2 = map char_of [235, 178, 136, 32, 235, 176, 169, 236, 156, 188, 235, 161, 156, 32, 236,
     157, 180, 235, 143, 153, 237, 150, 136, 236, 138, 181, 235, 139, 136, 235, 139, 164, 46,
     10 :: nat]"

subsection \<open>State\<close>

record client =
  c_sock :: int
  c_name :: bytes \<comment> \<open>\<^verbatim>\<open>char name[20]\<close>\<close>
  c_room :: int

datatype cell = Unallocated | Live client | Freed

text \<open>Where a handler thread stands.\<close>

datatype handler =
    H_None \<comment> \<open>no thread for this struct\<close>
  | H_Login \<comment> \<open>waits for the login or registration request\<close>
  | H_Auth bytes "bytes option" "bytes option"
      \<comment> \<open>about to call \<^verbatim>\<open>process_auth(mode, id, pw)\<close>\<close>
  | H_Reply bytes "bytes option" int \<comment> \<open>about to answer, with the result\<close>
  | H_Chat \<comment> \<open>in the message loop\<close>
  | H_Leave \<comment> \<open>at the label \<^verbatim>\<open>DISCONNECT\<close>\<close>

record server =
  clnt_list :: "nat list" \<comment> \<open>\<^verbatim>\<open>Client *clnt_list[MAX_CLNT]\<close>\<close>
  clnt_cnt :: nat
  heap :: "nat \<Rightarrow> cell"
  users_file :: "bytes option"
  threads :: "nat \<Rightarrow> handler"
  msg_buf :: "nat \<Rightarrow> bytes" \<comment> \<open>the handlers' local \<^verbatim>\<open>char msg[BUF_SIZE]\<close>\<close>
  sent :: "(int \<times> bytes) list"

definition server_init :: "bytes option \<Rightarrow> server" where
  "server_init f = \<lparr>clnt_list = replicate MAX_CLNT 0, clnt_cnt = 0, heap = (\<lambda>_. Unallocated),
     users_file = f, threads = (\<lambda>_. H_None), msg_buf = (\<lambda>_. []), sent = []\<rparr>"

definition is_live :: "cell \<Rightarrow> bool" where
  "is_live x = (case x of Live c \<Rightarrow> True | _ \<Rightarrow> False)"

definition deref :: "server \<Rightarrow> nat \<Rightarrow> client cres" where
  "deref s p = (case heap s p of
      Live c \<Rightarrow> Inr c | Freed \<Rightarrow> Inl Use_After_Free | Unallocated \<Rightarrow> Inl Null_Pointer)"

definition store_client :: "nat \<Rightarrow> client \<Rightarrow> server \<Rightarrow> server" where
  "store_client p c s = s\<lparr>heap := (heap s)(p := Live c)\<rparr>"

definition goto :: "nat \<Rightarrow> handler \<Rightarrow> server \<Rightarrow> server" where
  "goto p h s = s\<lparr>threads := (threads s)(p := h)\<rparr>"

definition write_to :: "int \<Rightarrow> bytes \<Rightarrow> server \<Rightarrow> server" where
  "write_to sk m s = s\<lparr>sent := sent s @ [(sk, m)]\<rparr>"

subsection \<open>main: a new connection\<close>

definition accept_clnt :: "nat \<Rightarrow> int \<Rightarrow> bytes \<Rightarrow> bytes \<Rightarrow> server \<Rightarrow> server cres" where
  "accept_clnt p sk junk buf s =
     (let s = store_client p \<lparr>c_sock = sk, c_name = junk, c_room = 0\<rparr> s in
      if clnt_cnt s < MAX_CLNT then
        Inr (goto p H_Login
          (s\<lparr>clnt_list := (clnt_list s)[clnt_cnt s := p], clnt_cnt := clnt_cnt s + 1,
             msg_buf := (msg_buf s)(p := buf)\<rparr>))
      else Inl Out_Of_Bounds)"

subsection \<open>handle\_clnt: the request\<close>

text \<open>\<^verbatim>\<open>sscanf(auth_buf, "%s %s %s", mode, id, pw)\<close> into \<^verbatim>\<open>mode[10]\<close>, \<^verbatim>\<open>id[20]\<close> and
  \<^verbatim>\<open>pw[20]\<close>; an array that no conversion reached stays uninitialised.\<close>

definition scan_request :: "bytes \<Rightarrow> (bytes option \<times> bytes option \<times> bytes option) cres" where
  "scan_request buf =
     cbind (scan_field 10 buf) (\<lambda>(mode, r).
     cbind (scan_field 20 r) (\<lambda>(uid, r').
     cbind (scan_field 20 r') (\<lambda>(pw, r'').
     Inr (mode, uid, pw))))"

text \<open>\<^verbatim>\<open>strcmp(name, id) == 0\<close> for an array of 20 bytes and a string of at most 19: the
  comparison ends inside the array.\<close>

definition name_is :: "bytes \<Rightarrow> bytes \<Rightarrow> bool" where
  "name_is nm uid = starts (uid @ [NUL]) nm"

text \<open>The loop that looks for another connection with the same name.\<close>

fun logged_in :: "server \<Rightarrow> int \<Rightarrow> bytes option \<Rightarrow> nat list \<Rightarrow> bool cres" where
  "logged_in s sk uid [] = Inr False"
| "logged_in s sk uid (q # qs) =
     cbind (deref s q) (\<lambda>c.
       if c_sock c \<noteq> sk then
         (case uid of
            None \<Rightarrow> Inl Uninitialised
          | Some u \<Rightarrow> if name_is (c_name c) u then Inr True else logged_in s sk uid qs)
       else logged_in s sk uid qs)"

text \<open>The test \<^verbatim>\<open>strlen(clnt->name) == 0\<close> before the message loop.\<close>

definition enter_chat :: "nat \<Rightarrow> server \<Rightarrow> server cres" where
  "enter_chat p s =
     cbind (deref s p) (\<lambda>c.
     cbind (read_cstr (c_name c)) (\<lambda>nm.
     Inr (goto p (if nm = [] then H_Leave else H_Chat) s)))"

text \<open>The request arrived (\<open>d\<close>), or the read returned 0 or less (\<open>d = []\<close>).\<close>

definition on_request :: "nat \<Rightarrow> bytes \<Rightarrow> server \<Rightarrow> server cres" where
  "on_request p d s =
     (if d = [] then enter_chat p s
      else
        cbind (scan_request (cstr d)) (\<lambda>(mode, uid, pw).
        case mode of
          None \<Rightarrow> Inl Uninitialised
        | Some m \<Rightarrow>
            cbind (deref s p) (\<lambda>c.
            cbind (if m = ''LOGIN''
                   then logged_in s (c_sock c) uid (take (clnt_cnt s) (clnt_list s))
                   else Inr False) (\<lambda>already.
            if already
            then Inr (goto p H_Leave (write_to (c_sock c) msg_dup_login s))
            else Inr (goto p (H_Auth m uid pw) s)))))"

definition on_auth :: "nat \<Rightarrow> bytes \<Rightarrow> bytes option \<Rightarrow> bytes option \<Rightarrow> server \<Rightarrow> server cres" where
  "on_auth p mode uid pw s =
     cbind (process_auth mode uid pw (users_file s)) (\<lambda>(result, f).
       Inr (goto p (H_Reply mode uid result) (s\<lparr>users_file := f\<rparr>)))"

definition on_reply :: "nat \<Rightarrow> bytes \<Rightarrow> bytes option \<Rightarrow> int \<Rightarrow> server \<Rightarrow> server cres" where
  "on_reply p mode uid result s =
     cbind (deref s p) (\<lambda>c.
     if result = 0 then
       (let s = write_to (c_sock c) ''OK'' s in
        if mode = ''LOGIN'' then
          (case uid of
             None \<Rightarrow> Inl Uninitialised
           | Some u \<Rightarrow>
               cbind (store_cstr (c_name c) u) (\<lambda>nm.
               cbind (store_cstr (msg_buf s p) (msg_welcome_1 @ cstr nm @ msg_welcome_2)) (\<lambda>m.
               enter_chat p
                 (write_to (c_sock c) (cstr m)
                   (store_client p (c\<lparr>c_name := nm\<rparr>) (s\<lparr>msg_buf := (msg_buf s)(p := m)\<rparr>))))))
        else enter_chat p s)
     else
       Inr (goto p H_Leave
         (write_to (c_sock c)
           (if mode = ''REGISTER'' then msg_id_exists
            else if result = -2 then msg_no_id else msg_bad_pw) s)))"

subsection \<open>send\_msg and the message loop\<close>

text \<open>What is written to one receiver: a file announcement as it came, any other message
  formatted into \<^verbatim>\<open>final_msg[BUF_SIZE + 30]\<close>.\<close>

definition outgoing :: "client \<Rightarrow> bytes \<Rightarrow> nat \<Rightarrow> bytes cres" where
  "outgoing sender msg len =
     (if starts ''[FILE]'' msg then Inr (take len msg)
      else cbind (read_cstr (c_name sender)) (\<lambda>from.
           cbind (store_cstr (replicate (BUF_SIZE + 30) NUL)
                    (CHR ''['' # from @ ''] '' @ cstr msg)) (\<lambda>final_msg.
           Inr (cstr final_msg))))"

fun send_loop :: "server \<Rightarrow> client \<Rightarrow> bytes \<Rightarrow> nat \<Rightarrow> nat list \<Rightarrow> (int \<times> bytes) list cres" where
  "send_loop s sender msg len [] = Inr []"
| "send_loop s sender msg len (q # qs) =
     cbind (deref s q) (\<lambda>c.
     cbind (read_cstr (c_name c)) (\<lambda>nm.
     if nm \<noteq> [] \<and> c_room c = c_room sender then
       cbind (outgoing sender msg len) (\<lambda>out.
       cbind (send_loop s sender msg len qs) (\<lambda>rest. Inr ((c_sock c, out) # rest)))
     else send_loop s sender msg len qs))"

definition send_msg :: "nat \<Rightarrow> bytes \<Rightarrow> nat \<Rightarrow> server \<Rightarrow> server cres" where
  "send_msg p msg len s =
     cbind (deref s p) (\<lambda>sender.
     cbind (send_loop s sender msg len (take (clnt_cnt s) (clnt_list s))) (\<lambda>out.
     Inr (s\<lparr>sent := sent s @ out\<rparr>)))"

text \<open>What \<^verbatim>\<open>read\<close> on the socket returned.\<close>

datatype read_result = Data bytes | Closed | Failed

definition on_message :: "nat \<Rightarrow> bytes \<Rightarrow> server \<Rightarrow> server cres" where
  "on_message p d s =
     cbind (set_byte (fill (msg_buf s p) d) (int (length d)) NUL) (\<lambda>msg.
     (let s = s\<lparr>msg_buf := (msg_buf s)(p := msg)\<rparr> in
      if starts ''/'' msg then
        (if starts ''/join'' msg then
           cbind (atoi_mem (drop 6 msg)) (\<lambda>new_room.
           cbind (deref s p) (\<lambda>c.
           cbind (store_cstr msg (msg_moved_1 @ show_int new_room @ msg_moved_2)) (\<lambda>m.
           Inr (write_to (c_sock c) (cstr m)
             (store_client p (c\<lparr>c_room := new_room\<rparr>) (s\<lparr>msg_buf := (msg_buf s)(p := m)\<rparr>))))))
         else Inr s)
      else send_msg p msg (length d) s))"

text \<open>\<^verbatim>\<open>read\<close> failing with -1 keeps the loop going: it then writes \<^verbatim>\<open>msg[-1]\<close>.\<close>

definition on_read :: "nat \<Rightarrow> read_result \<Rightarrow> server \<Rightarrow> server cres" where
  "on_read p r s = (case r of
      Closed \<Rightarrow> Inr (goto p H_Leave s)
    | Failed \<Rightarrow> cbind (set_byte (msg_buf s p) (-1) NUL) (\<lambda>msg. Inr s)
    | Data d \<Rightarrow> on_message p d s)"

subsection \<open>DISCONNECT\<close>

text \<open>The inner loop \<^verbatim>\<open>while (i++ < clnt_cnt - 1) clnt_list[i] = clnt_list[i + 1];\<close>: the
  increment takes effect before the body.\<close>

function shift_loop :: "nat \<Rightarrow> nat \<Rightarrow> nat list \<Rightarrow> nat list cres" where
  "shift_loop cnt i l =
     (if Suc i < cnt then
        (if Suc (Suc i) < length l
         then shift_loop cnt (Suc i) (l[Suc i := l ! Suc (Suc i)])
         else Inl Out_Of_Bounds)
      else Inr l)"
  by pat_completeness auto
termination
  by (relation "measure (\<lambda>(cnt, i, l). cnt - i)") auto

declare shift_loop.simps [simp del]

fun find_client :: "server \<Rightarrow> int \<Rightarrow> nat \<Rightarrow> nat list \<Rightarrow> nat option cres" where
  "find_client s sk i [] = Inr None"
| "find_client s sk i (q # qs) =
     cbind (deref s q) (\<lambda>c. if sk = c_sock c then Inr (Some i) else find_client s sk (Suc i) qs)"

definition disconnect :: "nat \<Rightarrow> server \<Rightarrow> server cres" where
  "disconnect p s =
     cbind (deref s p) (\<lambda>c.
     cbind (find_client s (c_sock c) 0 (take (clnt_cnt s) (clnt_list s))) (\<lambda>found.
     cbind (case found of
              None \<Rightarrow> Inr (clnt_list s)
            | Some i \<Rightarrow> shift_loop (clnt_cnt s) i (clnt_list s)) (\<lambda>l.
     Inr (goto p H_None
       (s\<lparr>clnt_list := l, clnt_cnt := clnt_cnt s - 1, heap := (heap s)(p := Freed)\<rparr>)))))"

subsection \<open>Events and runs\<close>

datatype event =
    Accept nat int bytes bytes
  | Read nat read_result
  | Auth nat
  | Reply nat
  | Leave nat

text \<open>An event of a handler that does not stand where the event happens changes nothing.
  \<^verbatim>\<open>malloc\<close> returns a block that is not live, \<^verbatim>\<open>read\<close> at most the bytes asked for.\<close>

fun exec :: "server \<Rightarrow> event \<Rightarrow> server cres" where
  "exec s (Accept p sk junk buf) =
     (if \<not> is_live (heap s p) \<and> length junk = NAME_SIZE \<and> length buf = BUF_SIZE
      then accept_clnt p sk junk buf s else Inr s)"
| "exec s (Read p r) = (case threads s p of
      H_Login \<Rightarrow> (case r of
          Data d \<Rightarrow> if d \<noteq> [] \<and> length d < BUF_SIZE then on_request p d s else Inr s
        | _ \<Rightarrow> on_request p [] s)
    | H_Chat \<Rightarrow> (case r of
          Data d \<Rightarrow> if d \<noteq> [] \<and> length d \<le> BUF_SIZE then on_read p r s else Inr s
        | _ \<Rightarrow> on_read p r s)
    | _ \<Rightarrow> Inr s)"
| "exec s (Auth p) = (case threads s p of H_Auth m u w \<Rightarrow> on_auth p m u w s | _ \<Rightarrow> Inr s)"
| "exec s (Reply p) = (case threads s p of H_Reply m u r \<Rightarrow> on_reply p m u r s | _ \<Rightarrow> Inr s)"
| "exec s (Leave p) = (case threads s p of H_Leave \<Rightarrow> disconnect p s | _ \<Rightarrow> Inr s)"

fun run :: "server \<Rightarrow> event list \<Rightarrow> server cres" where
  "run s [] = Inr s"
| "run s (e # es) = cbind (exec s e) (\<lambda>t. run t es)"


subsection \<open>The registry\<close>

definition connected :: "server \<Rightarrow> nat list" where
  "connected s = take (clnt_cnt s) (clnt_list s)"

definition sock_of :: "server \<Rightarrow> nat \<Rightarrow> int" where
  "sock_of s p = (case heap s p of Live c \<Rightarrow> c_sock c | _ \<Rightarrow> -1)"

definition name_of :: "server \<Rightarrow> nat \<Rightarrow> bytes" where
  "name_of s p = (case heap s p of Live c \<Rightarrow> c_name c | _ \<Rightarrow> [])"

definition room_of :: "server \<Rightarrow> nat \<Rightarrow> int" where
  "room_of s p = (case heap s p of Live c \<Rightarrow> c_room c | _ \<Rightarrow> 0)"

text \<open>Well formed: the entries are distinct, they are the live structs, these are the structs
  that have a handler, their sockets differ and their name arrays have 20 bytes.\<close>

definition registry_ok :: "server \<Rightarrow> bool" where
  "registry_ok s \<longleftrightarrow>
     length (clnt_list s) = MAX_CLNT \<and> clnt_cnt s \<le> MAX_CLNT \<and> distinct (connected s) \<and>
     (\<forall>p. p \<in> set (connected s) \<longleftrightarrow> is_live (heap s p)) \<and>
     (\<forall>p. threads s p \<noteq> H_None \<longleftrightarrow> is_live (heap s p)) \<and>
     inj_on (sock_of s) (set (connected s)) \<and>
     (\<forall>p \<in> set (connected s). length (name_of s p) = NAME_SIZE)"

lemma is_live_simps [simp]: "is_live (Live c)" "\<not> is_live Freed" "\<not> is_live Unallocated"
  by (simp_all add: is_live_def)

lemma is_live_iff: "is_live x \<longleftrightarrow> (\<exists>c. x = Live c)"
  by (cases x) auto

lemma deref_Inr [simp]: "deref s p = Inr c \<longleftrightarrow> heap s p = Live c"
  by (simp add: deref_def split: cell.splits)

lemma deref_live: "is_live (heap s p) \<Longrightarrow> \<exists>c. deref s p = Inr c \<and> heap s p = Live c"
  by (auto simp: is_live_iff deref_def)

text \<open>A result that is not an access to a dangling or null pointer.\<close>

definition no_dangling :: "'a cres \<Rightarrow> bool" where
  "no_dangling r \<longleftrightarrow> r \<noteq> Inl Use_After_Free \<and> r \<noteq> Inl Null_Pointer"

lemma no_dangling_simps [simp]:
  "no_dangling (Inr x)" "no_dangling (Inl Out_Of_Bounds)" "no_dangling (Inl Uninitialised)"
  "no_dangling (Inl Signed_Overflow)"
  by (simp_all add: no_dangling_def)

lemma deref_frame [simp]:
  "deref (s\<lparr>msg_buf := m\<rparr>) p = deref s p"
  "deref (s\<lparr>threads := t\<rparr>) p = deref s p"
  "deref (s\<lparr>sent := w\<rparr>) p = deref s p"
  "deref (s\<lparr>users_file := f\<rparr>) p = deref s p"
  by (simp_all add: deref_def)

lemma no_dangling_bind [intro!]:
  "no_dangling m \<Longrightarrow> (\<And>x. m = Inr x \<Longrightarrow> no_dangling (f x)) \<Longrightarrow> no_dangling (cbind m f)"
  by (cases m) (auto simp: no_dangling_def)

lemma no_dangling_prims [intro!]:
  "is_live (heap s p) \<Longrightarrow> no_dangling (deref s p)"
  "no_dangling (read_cstr b)" "no_dangling (store_cstr b t)" "no_dangling (set_byte b i c)"
  "no_dangling (c_int v)" "no_dangling (atoi b)" "no_dangling (atoi_mem b)"
  "no_dangling (scan_field n b)"
  by (auto simp: deref_def read_cstr_def store_cstr_def set_byte_def c_int_def atoi_def atoi_mem_def
      scan_field_def is_live_def no_dangling_def split: cell.splits list.splits option.splits)

lemma no_dangling_auth: "no_dangling (auth_scan f u q)" "no_dangling (process_auth m u w f')"
proof -
  have scan: "no_dangling (auth_scan f u q)" for f u q
  proof (induction f u q rule: auth_scan.induct)
    case (1 f u q)
    then show ?case
      by (auto simp: auth_scan.simps [of f u q] split: option.splits)
  qed
  then show "no_dangling (auth_scan f u q)" .
  show "no_dangling (process_auth m u w f')"
    using scan [of "case f' of Some f \<Rightarrow> f | None \<Rightarrow> []" u None]
    by (auto simp: process_auth_def no_dangling_def Let_def split: sum.splits option.splits)
qed

lemma no_dangling_outgoing [intro!]: "no_dangling (outgoing c msg len)"
  unfolding outgoing_def by auto

lemma no_dangling_loops:
  assumes "\<forall>q \<in> set qs. is_live (heap s q)"
  shows "no_dangling (logged_in s sk uid qs)" and "no_dangling (find_client s sk i qs)"
    and "no_dangling (send_loop s sender msg len qs)"
  using assms
proof (induction qs arbitrary: i)
  case (Cons q qs)
  {
    case 1
    with Cons.IH(1) show ?case by (auto split: option.splits)
  next
    case 2
    with Cons.IH(2) show ?case by auto
  next
    case 3
    with Cons.IH(3) show ?case
      by auto
  }
qed auto

lemma no_dangling_shift: "no_dangling (shift_loop cnt i l)"
proof (induction cnt i l rule: shift_loop.induct)
  case (1 cnt i l)
  then show ?case by (auto simp: shift_loop.simps [of cnt i l])
qed

text \<open>While the registry is well formed no handler touches a freed or unallocated struct.\<close>

lemma live_thread: "registry_ok s \<Longrightarrow> threads s p \<noteq> H_None \<Longrightarrow> is_live (heap s p)"
  by (simp add: registry_ok_def)

lemma live_connected: "registry_ok s \<Longrightarrow> \<forall>q \<in> set (take (clnt_cnt s) (clnt_list s)). is_live (heap s q)"
  by (simp add: registry_ok_def connected_def)

lemma no_dangling_enter: "is_live (heap s p) \<Longrightarrow> no_dangling (enter_chat p s)"
  unfolding enter_chat_def by (intro no_dangling_bind no_dangling_prims) auto

lemma no_dangling_request:
  assumes "registry_ok s" "is_live (heap s p)"
  shows "no_dangling (on_request p d s)"
proof -
  have "no_dangling (scan_request b)" for b
    unfolding scan_request_def by auto
  with no_dangling_loops(1) [OF live_connected [OF assms(1)]] assms(2) show ?thesis
    unfolding on_request_def
    by (auto simp: no_dangling_enter split: option.splits)
qed

lemma no_dangling_reply: "is_live (heap s p) \<Longrightarrow> no_dangling (on_reply p m u r s)"
  unfolding on_reply_def
  by (auto simp: Let_def write_to_def store_client_def no_dangling_enter split: option.splits)

lemma no_dangling_send:
  assumes "\<forall>q \<in> set (take (clnt_cnt s) (clnt_list s)). is_live (heap s q)" "is_live (heap s p)"
  shows "no_dangling (send_msg p msg len s)"
  unfolding send_msg_def using assms no_dangling_loops(3)
  by auto

lemma no_dangling_message:
  assumes "registry_ok s" "is_live (heap s p)"
  shows "no_dangling (on_message p d s)"
  unfolding on_message_def
  using live_connected [OF assms(1)] assms(2)
  by (auto simp: Let_def intro!: no_dangling_send)

lemma exec_no_dangling:
  assumes "registry_ok s"
  shows "no_dangling (exec s e)"
proof (cases e)
  case (Accept p sk junk buf)
  then show ?thesis by (auto simp: accept_clnt_def Let_def)
next
  case (Read p r)
  note live = live_thread [OF assms, of p]
  show ?thesis
    using Read live no_dangling_request [OF assms, of p] no_dangling_message [OF assms, of p]
    by (auto simp: on_read_def split: handler.splits read_result.splits)
next
  case (Auth p)
  then show ?thesis
    by (auto simp: on_auth_def no_dangling_auth split: handler.splits)
next
  case (Reply p)
  then show ?thesis
    using live_thread [OF assms, of p] by (auto simp: no_dangling_reply split: handler.splits)
next
  case (Leave p)
  then show ?thesis
    using live_thread [OF assms, of p] no_dangling_loops(2) [OF live_connected [OF assms]]
    by (auto simp: disconnect_def no_dangling_shift split: handler.splits option.splits)
qed


subsection \<open>Which events keep the registry well formed\<close>

definition same_registry :: "server \<Rightarrow> server \<Rightarrow> bool" where
  "same_registry s t \<longleftrightarrow>
     clnt_list t = clnt_list s \<and> clnt_cnt t = clnt_cnt s \<and>
     (\<forall>q. is_live (heap t q) = is_live (heap s q)) \<and> (\<forall>q. sock_of t q = sock_of s q) \<and>
     (\<forall>q. length (name_of t q) = length (name_of s q)) \<and>
     (\<forall>q. (threads t q = H_None) = (threads s q = H_None))"

lemma same_registry_ok:
  assumes "same_registry s t" "registry_ok s"
  shows "registry_ok t"
proof -
  have "connected t = connected s" "sock_of t = sock_of s"
    using assms(1) by (auto simp: same_registry_def connected_def fun_eq_iff)
  with assms show ?thesis by (simp add: registry_ok_def same_registry_def)
qed

lemma same_registry_refl [simp]: "same_registry s s"
  by (simp add: same_registry_def)

lemma store_client_of:
  "sock_of (store_client p c s) = (sock_of s)(p := c_sock c)"
  "name_of (store_client p c s) = (name_of s)(p := c_name c)"
  "heap s p = Live d \<Longrightarrow> sock_of s p = c_sock d" "heap s p = Live d \<Longrightarrow> name_of s p = c_name d"
  by (auto simp: store_client_def sock_of_def name_of_def)

lemma same_store_client:
  assumes "same_registry s t" "heap t p = Live c" "c_sock c' = c_sock c"
    "length (c_name c') = length (c_name c)"
  shows "same_registry s (store_client p c' t)"
proof -
  have "is_live (heap s p)" "sock_of s p = c_sock c" "length (name_of s p) = length (c_name c)"
    using assms(1,2) store_client_of(3,4) [of t p c]
    by (auto simp: same_registry_def) (metis is_live_simps(1))
  with assms show ?thesis
    by (auto simp: same_registry_def store_client_of) (simp_all add: store_client_def split: if_splits)
qed

lemma same_registry_intros [intro]:
  "same_registry s t \<Longrightarrow> threads s p \<noteq> H_None \<Longrightarrow> h \<noteq> H_None \<Longrightarrow> same_registry s (goto p h t)"
  "same_registry s t \<Longrightarrow> same_registry s (write_to sk m t)"
  "same_registry s t \<Longrightarrow> same_registry s (t\<lparr>msg_buf := b\<rparr>)"
  "same_registry s t \<Longrightarrow> same_registry s (t\<lparr>sent := w\<rparr>)"
  "same_registry s t \<Longrightarrow> same_registry s (t\<lparr>users_file := f\<rparr>)"
  by (auto simp: same_registry_def goto_def write_to_def sock_of_def name_of_def)

lemma heap_frame [simp]:
  "heap (goto p h s) = heap s" "heap (write_to sk m s) = heap s"
  "threads (write_to sk m s) = threads s" "threads (store_client p c s) = threads s"
  "sent (goto p h s) = sent s" "sent (store_client p c s) = sent s"
  "sent (write_to sk m s) = sent s @ [(sk, m)]"
  "heap (store_client p c s) = (heap s)(p := Live c)"
  "threads (goto p h s) = (threads s)(p := h)"
  by (simp_all add: goto_def write_to_def store_client_def)

lemma same_enter: "same_registry s0 s \<Longrightarrow> threads s0 p \<noteq> H_None \<Longrightarrow> enter_chat p s = Inr t \<Longrightarrow> same_registry s0 t"
  by (auto simp: enter_chat_def)

lemma same_request: "threads s p \<noteq> H_None \<Longrightarrow> on_request p d s = Inr t \<Longrightarrow> same_registry s t"
  by (auto simp: on_request_def split: if_splits option.splits
      dest: same_enter [OF same_registry_refl] intro!: same_registry_intros)

lemma same_auth: "threads s p \<noteq> H_None \<Longrightarrow> on_auth p m u w s = Inr t \<Longrightarrow> same_registry s t"
  by (auto simp: on_auth_def intro!: same_registry_intros)

lemma same_reply:
  assumes "threads s p \<noteq> H_None" "on_reply p m u r s = Inr t"
  shows "same_registry s t"
proof -
  from assms(2) obtain c where c: "heap s p = Live c" by (auto simp: on_reply_def)
  with assms show ?thesis
    by (auto simp: on_reply_def Let_def split: if_splits option.splits
        intro!: same_registry_intros same_store_client elim!: same_enter [rotated 2] dest: store_cstr_Inr)
qed

lemma same_message: "threads s p \<noteq> H_None \<Longrightarrow> on_message p d s = Inr t \<Longrightarrow> same_registry s t"
  by (auto simp: on_message_def send_msg_def Let_def split: if_splits
      intro!: same_registry_intros same_store_client)

lemma same_read: "threads s p \<noteq> H_None \<Longrightarrow> on_read p r s = Inr t \<Longrightarrow> same_registry s t"
  by (auto simp: on_read_def dest: same_message split: read_result.splits)

lemma connected_accept:
  assumes "registry_ok s" "accept_clnt p sk junk buf s = Inr t"
  shows "connected t = connected s @ [p]" "heap t = (heap s)(p := Live \<lparr>c_sock = sk, c_name = junk, c_room = 0\<rparr>)"
    "threads t = (threads s)(p := H_Login)" "length (clnt_list t) = MAX_CLNT" "clnt_cnt t \<le> MAX_CLNT"
  using assms
  by (auto simp: accept_clnt_def registry_ok_def connected_def Let_def goto_def store_client_def
      take_Suc_conv_app_nth split: if_splits)

lemma registry_accept:
  assumes ok: "registry_ok s" and t: "accept_clnt p sk junk buf s = Inr t"
    and "\<not> is_live (heap s p)" "length junk = NAME_SIZE" "sk \<notin> sock_of s ` set (connected s)"
  shows "registry_ok t"
proof -
  note c = connected_accept [OF ok t]
  have p: "p \<notin> set (connected s)" using ok assms(3) by (simp add: registry_ok_def)
  have sock: "sock_of t q = (if q = p then sk else sock_of s q)"
    and name: "name_of t q = (if q = p then junk else name_of s q)" for q
    using c by (simp_all add: sock_of_def name_of_def)
  have "inj_on (sock_of t) (set (connected t))"
    using ok assms(5) p c(1) sock unfolding registry_ok_def
    by (auto simp: inj_on_def image_iff)
  with ok p c sock name assms(4) show ?thesis
    unfolding registry_ok_def by auto
qed

lemma find_client_at:
  assumes "i < length qs" "\<forall>q \<in> set qs. is_live (heap s q)" "inj_on (sock_of s) (set qs)" "distinct qs"
  shows "find_client s (sock_of s (qs ! i)) k qs = Inr (Some (k + i))"
  using assms
proof (induction qs arbitrary: i k)
  case (Cons q qs)
  obtain c where c: "heap s q = Live c" using Cons.prems(2) by (auto simp: is_live_iff)
  show ?case
  proof (cases i)
    case 0
    with c show ?thesis by (simp add: deref_def sock_of_def)
  next
    case (Suc j)
    with Cons.prems have "qs ! j \<in> set qs" "qs ! j \<noteq> q" by auto
    with Cons.prems(3) have "sock_of s (qs ! j) \<noteq> sock_of s q" by (auto simp: inj_on_def)
    with Suc Cons.prems Cons.IH [of j "Suc k"] c show ?thesis
      by (auto simp: deref_def sock_of_def)
  qed
qed simp

text \<open>What the shifting loop really computes: entry \<open>i\<close> stays, entry \<open>i + 1\<close> is overwritten.\<close>

lemma shift_loop_eq:
  assumes "Suc i < cnt" "cnt < length l"
  shows "shift_loop cnt i l
    = Inr (take (Suc i) l @ drop (Suc (Suc i)) (take (Suc cnt) l) @ drop cnt l)"
  using assms
proof (induction cnt i l rule: shift_loop.induct)
  case (1 cnt i l)
  let ?l = "l[Suc i := l ! Suc (Suc i)]"
  have step: "shift_loop cnt i l = shift_loop cnt (Suc i) ?l"
    using "1.prems" by (simp add: shift_loop.simps [of cnt i l])
  have take: "take (Suc (Suc i)) ?l = take (Suc i) l @ [l ! Suc (Suc i)]"
    using "1.prems" by (simp add: take_Suc_conv_app_nth [of "Suc i"])
  have split: "drop (Suc (Suc i)) (take (Suc cnt) l)
      = l ! Suc (Suc i) # drop (Suc (Suc (Suc i))) (take (Suc cnt) l)"
    using "1.prems" by (simp add: Cons_nth_drop_Suc [symmetric])
  show ?case
  proof (cases "Suc (Suc i) < cnt")
    case True
    with "1.IH" "1.prems" step take split show ?thesis
      by (simp add: drop_update_cancel take_update_swap)
  next
    case False
    with "1.prems" have cnt: "cnt = Suc (Suc i)" by simp
    have "?l = take (Suc (Suc i)) ?l @ drop (Suc (Suc i)) ?l" by (rule append_take_drop_id [symmetric])
    also have "\<dots> = take (Suc i) l @ l ! Suc (Suc i) # drop (Suc (Suc i)) l"
      using take by (simp add: drop_update_cancel)
    finally have l: "?l = take (Suc i) l @ l ! Suc (Suc i) # drop (Suc (Suc i)) l" .
    have "shift_loop cnt (Suc i) ?l = Inr ?l"
      using False by (simp add: shift_loop.simps [of cnt "Suc i"])
    then show ?thesis
      unfolding step l using split cnt "1.prems" by simp
  qed
qed

lemma shift_take:
  assumes "Suc i < cnt" "cnt < length l"
  shows "take (cnt - Suc 0) (take (Suc i) l @ drop (Suc (Suc i)) (take (Suc cnt) l) @ drop cnt l)
    = take (Suc i) l @ drop (Suc (Suc i)) (take cnt l)"
proof -
  have "take (cnt - Suc 0 - Suc i) (drop (Suc (Suc i)) (take (Suc cnt) l))
      = drop (Suc (Suc i)) (take (cnt - Suc 0 - Suc i + Suc (Suc i)) (take (Suc cnt) l))"
    by (rule take_drop)
  also have "cnt - Suc 0 - Suc i + Suc (Suc i) = cnt" using assms by simp
  finally have "take (cnt - Suc 0 - Suc i) (drop (Suc (Suc i)) (take (Suc cnt) l))
      = drop (Suc (Suc i)) (take cnt l)" by (simp add: min_def)
  moreover have "length (drop (Suc (Suc i)) (take (Suc cnt) l)) = cnt - Suc i"
    using assms by simp
  moreover have "take (cnt - Suc 0) (take (Suc i) l) = take (Suc i) l" using assms by simp
  moreover have "length (take (Suc i) l) = Suc i" using assms by simp
  ultimately show ?thesis
    using assms by simp
qed

lemma disconnect_effect:
  assumes ok: "registry_ok s" and i: "i < clnt_cnt s" "connected s ! i = p"
    and room: "Suc i < clnt_cnt s \<Longrightarrow> clnt_cnt s < MAX_CLNT"
  shows "\<exists>t. disconnect p s = Inr t \<and> heap t = (heap s)(p := Freed) \<and>
    threads t = (threads s)(p := H_None) \<and> length (clnt_list t) = MAX_CLNT \<and>
    clnt_cnt t = clnt_cnt s - 1 \<and>
    connected t = take (Suc i) (butlast (connected s)) @ drop (Suc (Suc i)) (connected s)"
proof -
  have len: "length (connected s) = clnt_cnt s" "length (clnt_list s) = MAX_CLNT" "clnt_cnt s \<le> MAX_CLNT"
    using ok by (simp_all add: registry_ok_def connected_def)
  have "p \<in> set (connected s)" using i len(1) by (auto simp: in_set_conv_nth)
  then have "is_live (heap s p)" using ok by (simp add: registry_ok_def)
  then obtain c where c: "heap s p = Live c" by (auto simp: is_live_iff)
  have "find_client s (sock_of s (connected s ! i)) 0 (connected s) = Inr (Some (0 + i))"
    by (rule find_client_at) (use ok i len in \<open>simp_all add: registry_ok_def\<close>)
  then have found: "find_client s (c_sock c) 0 (take (clnt_cnt s) (clnt_list s)) = Inr (Some i)"
    using i(2) c by (simp add: sock_of_def connected_def)
  let ?conn = "take (Suc i) (butlast (connected s)) @ drop (Suc (Suc i)) (connected s)"
  have "\<exists>l. shift_loop (clnt_cnt s) i (clnt_list s) = Inr l \<and> length l = MAX_CLNT
      \<and> take (clnt_cnt s - 1) l = ?conn"
  proof (cases "Suc i < clnt_cnt s")
    case True
    then have full: "clnt_cnt s < length (clnt_list s)" using room len by simp
    have "Suc i \<le> clnt_cnt s - 1" using True by simp
    then have "take (Suc i) (butlast (connected s)) = take (Suc i) (clnt_list s)"
      using len by (simp add: connected_def butlast_conv_take min_def)
    with True full len show ?thesis
      unfolding shift_loop_eq [OF True full]
      using shift_take [OF True full] by (simp add: connected_def)
  next
    case False
    with i(1) have cnt: "clnt_cnt s = Suc i" by simp
    have "take (Suc i) (butlast (connected s)) = take i (clnt_list s)"
      using cnt len by (simp add: connected_def butlast_take)
    with False cnt len show ?thesis
      by (simp add: shift_loop.simps [of _ i])
  qed
  then obtain l where "shift_loop (clnt_cnt s) i (clnt_list s) = Inr l" "length l = MAX_CLNT"
    "take (clnt_cnt s - 1) l = ?conn" by blast
  then show ?thesis
    using c found by (auto simp: disconnect_def deref_def goto_def connected_def)
qed

lemma registry_disconnect_last:
  assumes ok: "registry_ok s" and "connected s \<noteq> []" "last (connected s) = p" "disconnect p s = Inr t"
  shows "registry_ok t" and "connected t = butlast (connected s)"
proof -
  let ?i = "clnt_cnt s - 1"
  have len: "length (connected s) = clnt_cnt s" using ok by (simp add: registry_ok_def connected_def)
  with assms(2) have cnt: "0 < clnt_cnt s" by (metis length_greater_0_conv)
  have i: "?i < clnt_cnt s" "connected s ! ?i = p"
    using assms(2,3) len cnt by (simp_all add: last_conv_nth)
  obtain t' where t': "disconnect p s = Inr t'" "heap t' = (heap s)(p := Freed)"
    "threads t' = (threads s)(p := H_None)" "length (clnt_list t') = MAX_CLNT" "clnt_cnt t' = ?i"
    "connected t' = take (Suc ?i) (butlast (connected s)) @ drop (Suc (Suc ?i)) (connected s)"
    using disconnect_effect [OF ok i] cnt by (metis Suc_diff_1 diff_Suc_1 less_irrefl One_nat_def)
  have t: "t' = t" using t'(1) assms(4) by simp
  show con: "connected t = butlast (connected s)"
    using t'(6) len cnt t by simp
  have split: "connected s = butlast (connected s) @ [p]"
    using assms(2,3) by (metis append_butlast_last_id)
  have d: "distinct (connected s)" using ok by (simp add: registry_ok_def)
  have set: "set (connected s) = insert p (set (butlast (connected s)))"
    by (subst split) simp
  have p: "p \<notin> set (butlast (connected s))"
    using d by (subst (asm) split) simp
  have of: "sock_of t q = sock_of s q" "name_of t q = name_of s q" if "q \<noteq> p" for q
    using that t' t by (auto simp: sock_of_def name_of_def)
  have "inj_on (sock_of t) (set (connected t))"
    using ok p of unfolding registry_ok_def con set inj_on_def by (metis insertI2)
  moreover have "clnt_cnt t \<le> MAX_CLNT" using ok t'(5) t unfolding registry_ok_def by auto
  moreover have "q \<in> set (connected t) \<longleftrightarrow> is_live (heap t q)" for q
    using ok t' t p con set unfolding registry_ok_def by (cases "q = p") auto
  moreover have "threads t q \<noteq> H_None \<longleftrightarrow> is_live (heap t q)" for q
    using ok t' t unfolding registry_ok_def by (cases "q = p") auto
  moreover have "length (name_of t q) = NAME_SIZE" if "q \<in> set (connected t)" for q
    using that ok p of con set unfolding registry_ok_def by (metis insertI2)
  ultimately show "registry_ok t"
    using t' t con d unfolding registry_ok_def by (auto simp: distinct_butlast)
qed

subsection \<open>Interface of a session, and the properties\<close>

text \<open>The events under which the registry stays well formed: a new connection gets a socket
  that no connected client has, and a handler reaches \<^verbatim>\<open>DISCONNECT\<close> only while its client is
  the last entry.\<close>

definition orderly :: "server \<Rightarrow> event \<Rightarrow> bool" where
  "orderly s e = (case e of
      Accept p sk junk buf \<Rightarrow> sk \<notin> sock_of s ` set (connected s)
    | Leave p \<Rightarrow> threads s p = H_Leave \<longrightarrow> connected s \<noteq> [] \<and> last (connected s) = p
    | _ \<Rightarrow> True)"

lemma exec_registry:
  assumes ok: "registry_ok s" and e: "orderly s e" and t: "exec s e = Inr t"
  shows "registry_ok t"
proof (cases e)
  case (Accept p sk junk buf)
  with ok e t registry_accept [OF ok] show ?thesis
    by (auto simp: orderly_def split: if_splits)
next
  case (Read p r)
  have "same_registry s t"
    using t Read by (auto split: handler.splits read_result.splits if_splits
        dest: same_request [rotated] same_read [rotated])
  then show ?thesis using ok by (rule same_registry_ok)
next
  case (Auth p)
  have "same_registry s t"
    using t Auth by (auto split: handler.splits dest: same_auth [rotated])
  then show ?thesis using ok by (rule same_registry_ok)
next
  case (Reply p)
  have "same_registry s t"
    using t Reply by (auto split: handler.splits dest: same_reply [rotated])
  then show ?thesis using ok by (rule same_registry_ok)
next
  case (Leave p)
  with ok e t registry_disconnect_last(1) [OF ok] show ?thesis
    by (auto simp: orderly_def split: handler.splits)
qed

fun orderly_run :: "server \<Rightarrow> event list \<Rightarrow> bool" where
  "orderly_run s [] = True"
| "orderly_run s (e # es) =
     (orderly s e \<and> (case exec s e of Inl x \<Rightarrow> True | Inr t \<Rightarrow> orderly_run t es))"

lemma registry_init: "registry_ok (server_init f)"
  by (simp add: registry_ok_def server_init_def connected_def)

lemma run_registry:
  "registry_ok s \<Longrightarrow> orderly_run s es \<Longrightarrow> no_dangling (run s es) \<and> (\<forall>t. run s es = Inr t \<longrightarrow> registry_ok t)"
proof (induction es arbitrary: s)
  case (Cons e es)
  show ?case
  proof (cases "exec s e")
    case (Inl x)
    with exec_no_dangling [OF Cons.prems(1), of e] show ?thesis by (auto simp: no_dangling_def)
  next
    case (Inr t)
    with exec_registry [OF Cons.prems(1) _ Inr] Cons show ?thesis by auto
  qed
qed simp

text \<open>
  Property C9.  Memory safety of the registry, as far as it goes: in every run from the
  start in which clients leave in the reverse order of their arrival, no handler accesses a
  freed or unallocated \<^verbatim>\<open>Client\<close>, and the registry keeps listing exactly the live structs,
  once each.
\<close>

theorem orderly_runs_safe:
  assumes "orderly_run (server_init f) es"
  shows "no_dangling (run (server_init f) es)
    \<and> (\<forall>t. run (server_init f) es = Inr t \<longrightarrow> registry_ok t)"
  using registry_init assms by (rule run_registry)

text \<open>A session of one client: it connects, logs in as \<^verbatim>\<open>user1\<close>, hangs up, and its handler
  disconnects it.\<close>

definition junk :: bytes where "junk = replicate NAME_SIZE NUL"
definition stack :: bytes where "stack = replicate BUF_SIZE NUL"

definition one_session :: "event list" where
  "one_session = [Accept 1 4 junk stack, Read 1 (Data ''LOGIN user1 1234''), Auth 1, Reply 1,
     Read 1 Closed, Leave 1]"


theorem orderly_runs_safe_witness:
  "orderly_run (server_init (Some users_txt)) one_session
   \<and> no_dangling (run (server_init (Some users_txt)) one_session)"
proof -
  have "orderly_run (server_init (Some users_txt)) one_session" by code_simp
  then show ?thesis using orderly_runs_safe [of "Some users_txt" one_session] by blast
qed

end
