(* ===== verification/Chat_Rooms.thy ===== *)
theory Chat_Rooms
  imports Chat_Server
begin

section \<open>Rooms, logins and departures on the messenger's server\<close>

text \<open>
  What the handlers of \<^verbatim>\<open>project2/gui_server.c\<close> do to the registry and the sockets, proved
  of the definitions of \<^verbatim>\<open>Chat_Server\<close>: who receives a message, how a room is joined, when
  a message overruns the handler's buffer, which login is refused, and what is left of the
  registry when a client that is not the last entry departs.
\<close>

subsection \<open>Broadcasts\<close>

text \<open>The name of every connected client is a string of its array.\<close>

definition names_ok :: "server \<Rightarrow> bool" where
  "names_ok s \<longleftrightarrow> (\<forall>q \<in> set (connected s). terminated (name_of s q))"

text \<open>Who receives a message from \<open>p\<close>: the clients with a name that are in \<open>p\<close>'s room,
  \<open>p\<close> itself included.\<close>

definition audience :: "server \<Rightarrow> nat \<Rightarrow> nat list" where
  "audience s p = filter (\<lambda>q. cstr (name_of s q) \<noteq> [] \<and> room_of s q = room_of s p) (connected s)"

lemma live_of:
  "heap s p = Live c \<Longrightarrow> sock_of s p = c_sock c \<and> name_of s p = c_name c \<and> room_of s p = c_room c"
  by (simp add: sock_of_def name_of_def room_of_def)

lemma outgoing_ok:
  assumes "terminated (c_name c)" "length (c_name c) = NAME_SIZE" "length (cstr msg) < BUF_SIZE"
    "NUL \<notin> set (cstr (c_name c))"
  shows "outgoing c msg len = Inr (if starts ''[FILE]'' msg then take len msg
    else CHR ''['' # cstr (c_name c) @ '']'' @ '' '' @ cstr msg)"
proof -
  let ?text = "CHR ''['' # cstr (c_name c) @ ''] '' @ cstr msg"
  have "length ?text < BUF_SIZE + 30"
    using length_cstr_less [OF assms(1)] assms(2,3) by (simp add: NAME_SIZE_def)
  then obtain b where b: "store_cstr (replicate (BUF_SIZE + 30) NUL) ?text = Inr b"
    by (simp add: store_cstr_def)
  have "cstr b = ?text"
    by (rule cstr_store_cstr [OF b]) simp
  with b assms(1) show ?thesis
    by (simp add: outgoing_def read_cstr_def)
qed

lemma send_loop_eq:
  assumes "\<forall>q \<in> set qs. is_live (heap s q) \<and> terminated (name_of s q)"
    and "outgoing sender msg len = Inr out"
  shows "send_loop s sender msg len qs = Inr (map (\<lambda>q. (sock_of s q, out))
    (filter (\<lambda>q. cstr (name_of s q) \<noteq> [] \<and> room_of s q = c_room sender) qs))"
  using assms(1)
proof (induction qs)
  case (Cons q qs)
  then obtain c where c: "heap s q = Live c" by (auto simp: is_live_iff)
  with Cons live_of [OF c] assms(2) show ?case
    by (auto simp: deref_def read_cstr_def)
qed simp

lemma send_msg_eq:
  assumes "registry_ok s" "names_ok s" "p \<in> set (connected s)" "length (cstr msg) < BUF_SIZE"
  shows "send_msg p msg len s = Inr (s\<lparr>sent := sent s @ map (\<lambda>q. (sock_of s q,
     if starts ''[FILE]'' msg then take len msg
     else CHR ''['' # cstr (name_of s p) @ '']'' @ '' '' @ cstr msg)) (audience s p)\<rparr>)"
proof -
  have live: "\<forall>q \<in> set (connected s). is_live (heap s q) \<and> terminated (name_of s q)"
    using assms(1,2) by (simp add: registry_ok_def names_ok_def)
  then obtain c where c: "heap s p = Live c" using assms(3) by (auto simp: is_live_iff)
  have "terminated (name_of s p)" "length (name_of s p) = NAME_SIZE"
    using assms(1-3) by (simp_all add: registry_ok_def names_ok_def)
  then have nm: "terminated (c_name c)" "length (c_name c) = NAME_SIZE"
    using live_of [OF c] by simp_all
  show ?thesis
    using send_loop_eq [OF live outgoing_ok [OF nm assms(4)]] live_of [OF c] c
    by (simp add: send_msg_def deref_def connected_def audience_def)
qed

text \<open>The receive buffer after a message that fits.\<close>

lemma received:
  assumes "length d < length buf"
  shows "set_byte (fill buf d) (int (length d)) NUL = Inr (d @ NUL # drop (Suc (length d)) buf)"
  using assms by (rule fill_terminate)

lemma length_cstr_append: "length (cstr (d @ NUL # r)) \<le> length d"
  by (induction d) auto

lemma starts_snoc: "NUL \<notin> set w \<Longrightarrow> starts w (d @ NUL # r) = starts w d"
proof (induction w d rule: starts.induct)
  case (2 p ps)
  then show ?case by auto
qed auto

lemma cstr_append_NUL: "cstr (d @ NUL # r) = cstr d"
  by (induction d) auto


subsection \<open>The invariant of names and buffers\<close>

definition buffers_ok :: "server \<Rightarrow> bool" where
  "buffers_ok s \<longleftrightarrow> (\<forall>p. threads s p \<noteq> H_None \<longrightarrow> length (msg_buf s p) = BUF_SIZE)"

definition server_wf :: "server \<Rightarrow> bool" where
  "server_wf s \<longleftrightarrow> registry_ok s \<and> names_ok s \<and> buffers_ok s"

text \<open>The steps of a handler keep names strings of their arrays and arrays of their size.\<close>

definition keeps :: "server \<Rightarrow> server \<Rightarrow> bool" where
  "keeps s t \<longleftrightarrow>
     (\<forall>q. terminated (name_of s q) \<longrightarrow> terminated (name_of t q)) \<and>
     (\<forall>q. length (msg_buf t q) = length (msg_buf s q))"

lemma keeps_refl [simp]: "keeps s s"
  by (simp add: keeps_def)

lemma msg_buf_frame [simp]:
  "msg_buf (goto p h s) = msg_buf s" "msg_buf (write_to sk m s) = msg_buf s"
  "msg_buf (store_client p c s) = msg_buf s"
  by (simp_all add: goto_def write_to_def store_client_def)

lemma name_of_frame [simp]:
  "name_of (goto p h s) = name_of s" "name_of (write_to sk m s) = name_of s"
  "name_of (s\<lparr>msg_buf := b\<rparr>) = name_of s" "name_of (s\<lparr>sent := w\<rparr>) = name_of s"
  "name_of (s\<lparr>users_file := f\<rparr>) = name_of s"
  by (simp_all add: name_of_def goto_def write_to_def fun_eq_iff)

lemma keeps_buf:
  "length b = length (msg_buf s p) \<Longrightarrow> \<forall>q. terminated (name_of s q) \<longrightarrow> terminated (name_of t q)
   \<Longrightarrow> keeps s (t\<lparr>msg_buf := (msg_buf s)(p := b)\<rparr>)"
  by (simp add: keeps_def)

lemma keeps_client:
  "keeps s t \<Longrightarrow> terminated (c_name c) \<or> (\<exists>d. heap t p = Live d \<and> c_name c = c_name d)
   \<Longrightarrow> keeps s (store_client p c t)"
  by (auto simp: keeps_def store_client_of)

lemma keeps_frame [simp]:
  "keeps s (goto p h t) = keeps s t" "keeps s (write_to sk m t) = keeps s t"
  "keeps s (t\<lparr>sent := w\<rparr>) = keeps s t" "keeps s (t\<lparr>users_file := f\<rparr>) = keeps s t"
  by (simp_all add: keeps_def)

lemma keeps_enter: "enter_chat p s = Inr t \<Longrightarrow> keeps r s \<Longrightarrow> keeps r t"
  by (auto simp: enter_chat_def)

lemma keeps_reply: "on_reply p m u r s = Inr t \<Longrightarrow> keeps s t"
  by (auto simp: on_reply_def Let_def split: if_splits option.splits
      elim!: keeps_enter dest!: store_cstr_Inr intro!: keeps_client keeps_buf)

lemma keeps_request: "on_request p d s = Inr t \<Longrightarrow> keeps s t"
  by (auto simp: on_request_def split: if_splits option.splits elim!: keeps_enter)

lemma set_byte_length: "set_byte b i c = Inr b' \<Longrightarrow> length b' = length b"
  by (auto simp: set_byte_def split: if_splits)

lemma keeps_message:
  assumes "on_message p d s = Inr t" "length d \<le> length (msg_buf s p)"
  shows "keeps s t"
  using assms
  by (auto simp: on_message_def send_msg_def Let_def length_fill split: if_splits
      dest!: store_cstr_Inr set_byte_length intro!: keeps_client keeps_buf)


text \<open>Runs in which \<^verbatim>\<open>malloc\<close> happens to return blocks whose name is terminated.\<close>

definition tidy :: "server \<Rightarrow> event \<Rightarrow> bool" where
  "tidy s e = (orderly s e \<and> (case e of Accept p sk blk buf \<Rightarrow> terminated blk | _ \<Rightarrow> True))"

fun tidy_run :: "server \<Rightarrow> event list \<Rightarrow> bool" where
  "tidy_run s [] = True"
| "tidy_run s (e # es) =
     (tidy s e \<and> (case exec s e of Inl x \<Rightarrow> True | Inr t \<Rightarrow> tidy_run t es))"

lemma keeps_wf:
  assumes "server_wf s" "registry_ok t" "same_registry s t" "keeps s t"
  shows "server_wf t"
  using assms
  by (auto simp: server_wf_def names_ok_def buffers_ok_def keeps_def same_registry_def connected_def)

lemma server_wf_accept:
  assumes "server_wf s" "accept_clnt p sk blk buf s = Inr t" "registry_ok t" "terminated blk"
    "length buf = BUF_SIZE"
  shows "server_wf t"
proof -
  have ok: "registry_ok s" using assms(1) by (simp add: server_wf_def)
  note c = connected_accept [OF ok assms(2)]
  have "name_of t q = (if q = p then blk else name_of s q)" for q
    using c by (simp add: name_of_def)
  moreover have "msg_buf t = (msg_buf s)(p := buf)"
    using assms(2) by (auto simp: accept_clnt_def Let_def goto_def store_client_def split: if_splits)
  ultimately show ?thesis
    using assms c by (auto simp: server_wf_def names_ok_def buffers_ok_def)
qed

lemma server_wf_leave:
  assumes "server_wf s" "disconnect p s = Inr t" "connected s \<noteq> []" "last (connected s) = p"
  shows "server_wf t"
proof -
  have ok: "registry_ok s" using assms(1) by (simp add: server_wf_def)
  note r = registry_disconnect_last [OF ok assms(3,4,2)]
  have t: "heap t = (heap s)(p := Freed)" "msg_buf t = msg_buf s" "threads t = (threads s)(p := H_None)"
    using assms(2) by (auto simp: disconnect_def goto_def)
  have "terminated (name_of t q)" if q: "q \<in> set (connected t)" for q
  proof -
    have "q \<noteq> p" using q r(1) t(1) by (auto simp: registry_ok_def)
    moreover have "q \<in> set (connected s)" using q r(2) by (simp add: in_set_butlastD)
    ultimately show ?thesis
      using t(1) assms(1) by (auto simp: server_wf_def names_ok_def name_of_def)
  qed
  with assms(1) r(1) t(2,3) show ?thesis
    by (simp add: server_wf_def names_ok_def buffers_ok_def)
qed

lemma exec_wf:
  assumes wf: "server_wf s" and e: "tidy s e" and t: "exec s e = Inr t"
  shows "server_wf t"
proof -
  have ok: "registry_ok s" using wf by (simp add: server_wf_def)
  have r: "registry_ok t" using exec_registry [OF ok _ t] e by (simp add: tidy_def)
  show ?thesis
  proof (cases e)
    case (Accept p sk blk buf)
    with wf e t r server_wf_accept [OF wf] show ?thesis
      by (auto simp: tidy_def split: if_splits)
  next
    case (Read p x)
    have len: "threads s p = H_Chat \<Longrightarrow> length (msg_buf s p) = BUF_SIZE"
      using wf by (simp add: server_wf_def buffers_ok_def)
    have "same_registry s t" "keeps s t"
      using t Read len
      by (auto simp: on_read_def split: handler.splits read_result.splits if_splits
          dest: same_request [rotated] same_message [rotated] keeps_message keeps_request)
    with wf r show ?thesis by (rule keeps_wf)
  next
    case (Auth p)
    have "same_registry s t" "keeps s t"
      using t Auth by (auto split: handler.splits dest: same_auth [rotated]) (auto simp: on_auth_def)
    with wf r show ?thesis by (rule keeps_wf)
  next
    case (Reply p)
    have "same_registry s t" "keeps s t"
      using t Reply by (auto split: handler.splits dest: same_reply [rotated] keeps_reply)
    with wf r show ?thesis by (rule keeps_wf)
  next
    case (Leave p)
    with wf e t server_wf_leave [OF wf] show ?thesis
      by (auto simp: tidy_def orderly_def split: handler.splits)
  qed
qed

lemma run_wf: "server_wf s \<Longrightarrow> tidy_run s es \<Longrightarrow> run s es = Inr t \<Longrightarrow> server_wf t"
proof (induction es arbitrary: s)
  case (Cons e es)
  then show ?case using exec_wf [of s e] by auto
qed simp

lemma init_wf: "server_wf (server_init f)"
  using registry_init
  by (simp add: server_wf_def names_ok_def buffers_ok_def connected_def server_init_def)


text \<open>
  In every run from the start with initialised blocks in which clients leave
  in the reverse order of their arrival, the server's state stays well formed: the registry
  lists exactly the live structs, the names are terminated strings of their 20-byte arrays
  and every handler's message buffer has its size.
\<close>

lemma tidy_runs_wf:
  assumes "tidy_run (server_init f) es" and "run (server_init f) es = Inr t"
  shows "server_wf t"
  using init_wf assms by (rule run_wf)

text \<open>Two clients log in, one of them talks and joins a room.\<close>

definition two_clients :: "event list" where
  "two_clients = [Accept 1 4 junk stack, Read 1 (Data ''LOGIN user1 1234''), Auth 1, Reply 1,
     Accept 2 5 junk stack, Read 2 (Data ''LOGIN user2 1234''), Auth 2, Reply 2]"

definition two_users :: server where
  "two_users = (case run (server_init (Some users_txt)) two_clients of Inr t \<Rightarrow> t | Inl e \<Rightarrow> server_init None)"

lemma two_clients_tidy: "tidy_run (server_init (Some users_txt)) two_clients"
  by code_simp

text \<open>What a run shows: each entry with its socket, name, room and where its handler stands,
  and the user file.\<close>

definition chat_view :: "server \<Rightarrow> (nat \<times> int \<times> bytes \<times> int \<times> handler) list \<times> bytes option" where
  "chat_view s = (map (\<lambda>q. (q, sock_of s q, cstr (name_of s q), room_of s q, threads s q)) (connected s),
     users_file s)"

definition shows_view :: "server cres \<Rightarrow> (nat \<times> int \<times> bytes \<times> int \<times> handler) list \<times> bytes option \<Rightarrow> bool" where
  "shows_view r v = (case r of Inr t \<Rightarrow> chat_view t = v | Inl e \<Rightarrow> False)"

lemma two_clients_view:
  "shows_view (run (server_init (Some users_txt)) two_clients)
     ([(1, 4, ''user1'', 0, H_Chat), (2, 5, ''user2'', 0, H_Chat)], Some users_txt)"
  by code_simp

lemma two_clients_run: "run (server_init (Some users_txt)) two_clients = Inr two_users"
  using two_clients_view by (auto simp: shows_view_def two_users_def split: sum.splits)

lemma two_users_view:
  "chat_view two_users = ([(1, 4, ''user1'', 0, H_Chat), (2, 5, ''user2'', 0, H_Chat)], Some users_txt)"
  using two_clients_view two_clients_run by (simp add: shows_view_def)

lemma two_users_state:
  "connected two_users = [1, 2]" "threads two_users 1 = H_Chat" "threads two_users 2 = H_Chat"
  "sock_of two_users 1 = 4" "sock_of two_users 2 = 5" "room_of two_users 1 = 0" "room_of two_users 2 = 0"
  "cstr (name_of two_users 1) = ''user1''" "cstr (name_of two_users 2) = ''user2''"
  "users_file two_users = Some users_txt"
  using two_users_view by (auto simp: chat_view_def map_eq_Cons_conv)

lemma tidy_runs_wf_example: "server_wf two_users"
  using tidy_runs_wf [OF two_clients_tidy two_clients_run] .

lemma two_users_wf: "server_wf two_users"
  using run_wf [OF init_wf two_clients_tidy two_clients_run] .


subsection \<open>Messages\<close>

lemma texts_no_nul:
  "NUL \<notin> set msg_moved_1" "NUL \<notin> set msg_moved_2" "NUL \<notin> set msg_welcome_1" "NUL \<notin> set msg_welcome_2"
  by code_simp+

lemma chat_thread:
  assumes "server_wf s" "threads s p = H_Chat"
  obtains c where "heap s p = Live c" "p \<in> set (connected s)" "length (msg_buf s p) = BUF_SIZE"
    "registry_ok s" "names_ok s"
proof -
  have ok: "registry_ok s" "names_ok s" "buffers_ok s" using assms(1) by (simp_all add: server_wf_def)
  then have "is_live (heap s p)" using assms(2) live_thread [OF ok(1), of p] by simp
  moreover from this obtain c where "heap s p = Live c" by (auto simp: is_live_iff)
  ultimately show ?thesis
    using that [of c] ok assms(2) by (simp add: registry_ok_def buffers_ok_def)
qed

lemma on_message_plain:
  assumes wf: "server_wf s" "threads s p = H_Chat" and d: "length d < BUF_SIZE" "\<not> starts ''/'' d"
  shows "\<exists>t. on_message p d s = Inr t \<and> sent t = sent s @ map (\<lambda>q. (sock_of s q,
     if starts ''[FILE]'' d then d
     else CHR ''['' # cstr (name_of s p) @ '']'' @ '' '' @ cstr d)) (audience s p)
     \<and> heap t = heap s \<and> connected t = connected s \<and> threads t = threads s \<and> users_file t = users_file s"
proof -
  obtain c where c: "heap s p = Live c" "p \<in> set (connected s)" "length (msg_buf s p) = BUF_SIZE"
    "registry_ok s" "names_ok s" using wf by (rule chat_thread)
  let ?m = "d @ NUL # drop (Suc (length d)) (msg_buf s p)"
  let ?s = "s\<lparr>msg_buf := (msg_buf s)(p := ?m)\<rparr>"
  have "starts ''/'' ?m = starts ''/'' d" "starts ''[FILE]'' ?m = starts ''[FILE]'' d"
    by (rule starts_snoc, simp)+
  moreover have "set_byte (fill (msg_buf s p) d) (int (length d)) NUL = Inr ?m"
    by (rule received) (simp add: c(3) d(1))
  moreover have ns: "connected ?s = connected s" "name_of ?s = name_of s" "sock_of ?s = sock_of s"
    "room_of ?s = room_of s"
    by (simp_all add: connected_def name_of_def sock_of_def room_of_def fun_eq_iff)
  moreover have "registry_ok ?s" "names_ok ?s"
    using c(4,5) ns by (simp_all add: registry_ok_def names_ok_def)
  moreover have "length (cstr ?m) < BUF_SIZE"
    using length_cstr_append [of d "drop (Suc (length d)) (msg_buf s p)"] d(1) by linarith
  ultimately show ?thesis
    using send_msg_eq [of ?s p ?m "length d"] c(2) d(2)
    by (simp add: on_message_def Let_def audience_def cstr_append_NUL connected_def)
qed

text \<open>
  A message is broadcast to its room: a handler that receives \<open>d\<close>, which is
  not a command and is shorter than the buffer, writes exactly to the clients that have a
  name and are in the sender's room, once each and in registry order (the sender included);
  they get \<open>[name] d\<close>, or \<open>d\<close> itself when it announces a file.  Registry, accounts and the
  other handlers are untouched.
\<close>

lemma broadcast_to_room:
  assumes "server_wf s" and "threads s p = H_Chat" and "d \<noteq> []" and "length d < BUF_SIZE"
    and "\<not> starts ''/'' d"
  shows "\<exists>t. exec s (Read p (Data d)) = Inr t
    \<and> sent t = sent s @ map (\<lambda>q. (sock_of s q, if starts ''[FILE]'' d then d
         else CHR ''['' # cstr (name_of s p) @ '']'' @ '' '' @ cstr d)) (audience s p)
    \<and> heap t = heap s \<and> connected t = connected s \<and> threads t = threads s \<and> users_file t = users_file s"
  using on_message_plain [OF assms(1,2,4,5)] assms(2-4) by (simp add: on_read_def)

lemma broadcast_to_room_example:
  "\<exists>t. exec two_users (Read 1 (Data ''hi'')) = Inr t
     \<and> sent t = sent two_users @ [(4, ''[user1] hi''), (5, ''[user1] hi'')]"
  using broadcast_to_room [OF two_users_wf two_users_state(2), of "''hi''"]
  by (auto simp: BUF_SIZE_def audience_def two_users_state simp del: One_nat_def exec.simps)

text \<open>The request that the client prints with \<^verbatim>\<open>"/join %d"\<close> moves its sender, and no other client, to
  exactly that room, for every value of an \<^verbatim>\<open>int\<close>; only the sender is answered.\<close>

lemma join_moves:
  assumes "server_wf s" and "threads s p = H_Chat" and "- (2 ^ 31) \<le> r" and "r < 2 ^ 31"
  shows "\<exists>t. exec s (Read p (Data (''/join '' @ show_int r))) = Inr t \<and> room_of t p = r
    \<and> (\<forall>q. q \<noteq> p \<longrightarrow> heap t q = heap s q) \<and> connected t = connected s
    \<and> sent t = sent s @ [(sock_of s p, msg_moved_1 @ show_int r @ msg_moved_2)]
    \<and> name_of t p = name_of s p"
proof -
  obtain c where c: "heap s p = Live c" "p \<in> set (connected s)" "length (msg_buf s p) = BUF_SIZE"
    "registry_ok s" "names_ok s" using assms(1,2) by (rule chat_thread)
  let ?d = "''/join '' @ show_int r"
  let ?m = "?d @ NUL # drop (Suc (length ?d)) (msg_buf s p)"
  have r: "length (show_int r) \<le> 11" using assms(3,4) by (rule length_show_int)
  have fits: "length ?d \<le> BUF_SIZE" using r by (simp add: BUF_SIZE_def)
  have len: "length ?d < length (msg_buf s p)" using r c(3) by (simp add: BUF_SIZE_def)
  have set: "set_byte (fill (msg_buf s p) ?d) (int (length ?d)) NUL = Inr ?m"
    by (rule received [OF len])
  have at: "atoi_mem (drop 6 ?m) = Inr r"
    using atoi_mem_terminated [of "show_int r"] atoi_show_int [OF assms(3,4)] by simp
  let ?reply = "msg_moved_1 @ show_int r @ msg_moved_2"
  have m: "length ?m = BUF_SIZE" using len c(3) by simp
  have "length ?reply < BUF_SIZE"
    using r by (simp add: msg_moved_1_def msg_moved_2_def BUF_SIZE_def)
  then obtain b where b: "store_cstr ?m ?reply = Inr b"
    using m unfolding store_cstr_def by (metis (no_types, lifting))
  have "NUL \<notin> set (show_int r)" using show_int_plain by blast
  then have "NUL \<notin> set ?reply" using texts_no_nul by simp
  then have "cstr b = ?reply" by (rule cstr_store_cstr [OF b])
  with set at b c assms(2) fits live_of [OF c(1)] show ?thesis
    by (simp add: on_read_def on_message_def Let_def deref_def write_to_def store_client_def
        connected_def room_of_def name_of_def)
qed

text \<open>
  The buffer of the message loop: a handler takes a message that is not a
  command without fault exactly when it is shorter than the buffer.  A message of 1024 bytes,
  which the \<^verbatim>\<open>read\<close> of \<^verbatim>\<open>sizeof(msg)\<close> bytes allows, has its terminator written one past
  the array; a failed \<^verbatim>\<open>read\<close> has it written one before.
\<close>

lemma message_overrun:
  assumes "server_wf s" and "threads s p = H_Chat" and "d \<noteq> []" and "length d \<le> BUF_SIZE"
    and "\<not> starts ''/'' d"
  shows "(c_ok (exec s (Read p (Data d))) \<longleftrightarrow> length d < BUF_SIZE)
    \<and> exec s (Read p Failed) = Inl Out_Of_Bounds"
proof
  obtain c where "length (msg_buf s p) = BUF_SIZE" using assms(1,2) by (rule chat_thread)
  then have over: "exec s (Read p (Data d)) = Inl Out_Of_Bounds" if "length d = BUF_SIZE"
    using that assms(2) fill_terminate_overrun [of d "msg_buf s p"]
    by (auto simp: on_read_def on_message_def BUF_SIZE_def)
  show "c_ok (exec s (Read p (Data d))) \<longleftrightarrow> length d < BUF_SIZE"
  proof (cases "length d < BUF_SIZE")
    case True
    with on_message_plain [OF assms(1,2) True assms(5)] assms show ?thesis
      by (auto simp: c_ok_iff on_read_def)
  next
    case False
    then have "length d = BUF_SIZE" using assms(4) by simp
    with over show ?thesis by simp
  qed
  show "exec s (Read p Failed) = Inl Out_Of_Bounds"
    using assms(2) by (simp add: on_read_def set_byte_def)
qed

lemma plain_text: "\<not> starts ''/'' (replicate n (CHR ''a''))"
  by (cases n) auto

lemma message_overrun_example:
  "\<not> c_ok (exec two_users (Read 1 (Data (replicate BUF_SIZE (CHR ''a'')))))"
proof -
  have "BUF_SIZE \<noteq> 0" by (simp add: BUF_SIZE_def)
  then show ?thesis
    using message_overrun [OF two_users_wf two_users_state(2) _ _ plain_text, of BUF_SIZE]
    by (simp del: exec.simps One_nat_def)
qed

subsection \<open>Logging in\<close>

lemma scan_request_eq:
  assumes "is_token m" "length m < 10" "field_ok uid" "field_ok pw"
  shows "scan_request (m @ SP # uid @ SP # pw) = Inr (Some m, Some uid, Some pw)"
  using assms
  by (simp add: scan_request_def scan_field_def scan_word_append scan_word_skip scan_word_last field_ok_def)

lemma mode_words:
  "is_token ''LOGIN''" "is_token ''REGISTER''" "NUL \<notin> set ''LOGIN''" "NUL \<notin> set ''REGISTER''"
  by (simp_all add: is_token_def is_space_def)

lemma request_cstr:
  assumes "m = ''LOGIN'' \<or> m = ''REGISTER''" "field_ok uid" "field_ok pw"
  shows "cstr (m @ SP # uid @ SP # pw) = m @ SP # uid @ SP # pw" "is_token m" "length m < 10"
    "length (m @ SP # uid @ SP # pw) < BUF_SIZE"
proof -
  show len: "length m < 10" and "is_token m" using assms(1) mode_words by auto
  have "NUL \<notin> set m" using assms(1) mode_words(3,4) by blast
  then have "NUL \<notin> set (m @ SP # uid @ SP # pw)" using assms(2,3) by (simp add: field_ok_def)
  then show "cstr (m @ SP # uid @ SP # pw) = m @ SP # uid @ SP # pw" by (rule cstr_no_nul)
  have "length uid < 20" "length pw < 20" using assms(2,3) by (simp_all add: field_ok_def)
  then show "length (m @ SP # uid @ SP # pw) < BUF_SIZE" using len by (simp add: BUF_SIZE_def)
qed

text \<open>Some other connected client has the name.\<close>

definition name_taken :: "server \<Rightarrow> nat \<Rightarrow> bytes \<Rightarrow> bool" where
  "name_taken s p uid \<longleftrightarrow> (\<exists>q \<in> set (connected s). q \<noteq> p \<and> cstr (name_of s q) = uid)"

lemma name_is_iff: "terminated nm \<Longrightarrow> NUL \<notin> set u \<Longrightarrow> name_is nm u \<longleftrightarrow> cstr nm = u"
proof -
  assume t: "terminated nm" and u: "NUL \<notin> set u"
  obtain x r where x: "nm = x @ NUL # r" "NUL \<notin> set x"
    using t split_list_first [of NUL nm] by (auto simp: terminated_def)
  then have c: "cstr nm = x" by (simp add: cstr_terminator)
  show ?thesis
  proof
    assume "name_is nm u"
    then obtain r' where "nm = u @ NUL # r'" by (auto simp: name_is_def starts_iff)
    then show "cstr nm = u" using u by (simp add: cstr_terminator)
  next
    assume "cstr nm = u"
    then show "name_is nm u" using x c by (auto simp: name_is_def starts_iff)
  qed
qed

lemma logged_in_eq:
  assumes "\<forall>q \<in> set qs. is_live (heap s q) \<and> terminated (name_of s q)" "NUL \<notin> set u"
    and "\<forall>q \<in> set qs. sock_of s q = sk \<longleftrightarrow> q = p"
  shows "logged_in s sk (Some u) qs = Inr (\<exists>q \<in> set qs. q \<noteq> p \<and> cstr (name_of s q) = u)"
  using assms(1,3)
proof (induction qs)
  case (Cons q qs)
  then obtain c where c: "heap s q = Live c" by (auto simp: is_live_iff)
  moreover have "terminated (c_name c)" using Cons.prems(1) live_of [OF c] by simp
  ultimately show ?case
    using Cons live_of [OF c] name_is_iff [OF _ assms(2), of "c_name c"]
    by (auto simp: deref_def)
qed simp

lemma on_request_login:
  assumes "server_wf s" "p \<in> set (connected s)" "field_ok uid" "field_ok pw"
  shows "on_request p (''LOGIN'' @ SP # uid @ SP # pw) s =
    Inr (if name_taken s p uid then goto p H_Leave (write_to (sock_of s p) msg_dup_login s)
         else goto p (H_Auth ''LOGIN'' (Some uid) (Some pw)) s)"
proof -
  have ok: "registry_ok s" "names_ok s" using assms(1) by (simp_all add: server_wf_def)
  have "\<forall>q \<in> set (connected s). is_live (heap s q) \<and> terminated (name_of s q)"
    using ok by (simp add: registry_ok_def names_ok_def)
  moreover have "\<forall>q \<in> set (connected s). sock_of s q = sock_of s p \<longleftrightarrow> q = p"
    using ok(1) assms(2) by (auto simp: registry_ok_def inj_on_def)
  moreover have "NUL \<notin> set uid" using assms(3) by (simp add: field_ok_def)
  ultimately have l: "logged_in s (sock_of s p) (Some uid) (connected s) = Inr (name_taken s p uid)"
    unfolding name_taken_def by (intro logged_in_eq)
  obtain c where c: "heap s p = Live c"
    using ok(1) assms(2) by (auto simp: registry_ok_def is_live_iff)
  note r = request_cstr [OF _ assms(3,4), of "''LOGIN''"]
  show ?thesis
    using scan_request_eq [OF r(2,3) assms(3,4)] r(1) l c live_of [OF c]
    by (simp add: on_request_def deref_def connected_def)
qed

end
