(* ===== verification/Chat_Logins.thy ===== *)
theory Chat_Logins
  imports Chat_Rooms
begin

section \<open>Logging in and leaving\<close>

text \<open>
  The login of \<^verbatim>\<open>project2/gui_server.c\<close> as a whole (request, \<^verbatim>\<open>process_auth\<close>, answer), the
  refusal of a name in use and the window in which it is missed, and the registry after
  \<^verbatim>\<open>DISCONNECT\<close>.
\<close>

subsection \<open>Login\<close>

lemma login_thread:
  assumes "server_wf s" "threads s p \<noteq> H_None"
  obtains c where "heap s p = Live c" "p \<in> set (connected s)" "length (msg_buf s p) = BUF_SIZE"
    "length (c_name c) = NAME_SIZE" "sock_of s p = c_sock c"
proof -
  have ok: "registry_ok s" "buffers_ok s" using assms(1) by (simp_all add: server_wf_def)
  then have l: "is_live (heap s p)" using assms(2) live_thread [OF ok(1), of p] by simp
  then obtain c where c: "heap s p = Live c" by (auto simp: is_live_iff)
  have p: "p \<in> set (connected s)" using ok(1) l by (simp add: registry_ok_def)
  then have "length (name_of s p) = NAME_SIZE" using ok(1) by (simp add: registry_ok_def)
  with that [of c] c p live_of [OF c] ok(2) assms(2) show ?thesis
    by (simp add: buffers_ok_def)
qed

text \<open>The answer to a request of which \<^verbatim>\<open>process_auth\<close> returned 0.\<close>

lemma on_reply_ok:
  assumes c: "heap s p = Live c" "length (c_name c) = NAME_SIZE" "length (msg_buf s p) = BUF_SIZE"
    and uid: "field_ok uid"
  shows "\<exists>t. on_reply p ''LOGIN'' (Some uid) 0 s = Inr t \<and> threads t p = H_Chat
    \<and> cstr (name_of t p) = uid \<and> users_file t = users_file s
    \<and> sent t = sent s @ [(c_sock c, ''OK''), (c_sock c, msg_welcome_1 @ uid @ msg_welcome_2)]"
proof -
  have u: "length uid < 20" "NUL \<notin> set uid" "uid \<noteq> []"
    using uid by (auto simp: field_ok_def is_token_def)
  then obtain nm where nm: "store_cstr (c_name c) uid = Inr nm"
    using c(2) by (simp add: store_cstr_def NAME_SIZE_def)
  then have n: "cstr nm = uid" "terminated nm"
    using cstr_store_cstr [OF nm u(2)] store_cstr_Inr [OF nm] by simp_all
  let ?w = "msg_welcome_1 @ cstr nm @ msg_welcome_2"
  have "length ?w < BUF_SIZE"
    using u(1) n(1) by (simp add: msg_welcome_1_def msg_welcome_2_def BUF_SIZE_def)
  then obtain m where m: "store_cstr (msg_buf s p) ?w = Inr m"
    unfolding store_cstr_def c(3) by (metis (no_types, lifting))
  have "cstr m = ?w"
    by (rule cstr_store_cstr [OF m]) (simp add: texts_no_nul)
  with c(1) nm n m u(3) show ?thesis
    by (simp add: on_reply_def deref_def enter_chat_def read_cstr_def store_client_of)
       (simp add: write_to_def goto_def store_client_def)
qed

lemma login_steps:
  assumes "server_wf s" "threads s p = H_Login" "file_ok (users_file s)" "field_ok uid" "field_ok pw"
    "\<not> name_taken s p uid"
  shows "\<exists>t f. run s [Read p (Data (''LOGIN'' @ SP # uid @ SP # pw)), Auth p, Reply p] = Inr t
    \<and> accounts f = accounts (users_file s) \<and> users_file t = f \<and>
    (if accounts (users_file s) uid = Some pw
     then threads t p = H_Chat \<and> cstr (name_of t p) = uid
       \<and> sent t = sent s @ [(sock_of s p, ''OK''), (sock_of s p, msg_welcome_1 @ uid @ msg_welcome_2)]
     else threads t p = H_Leave \<and> sent t = sent s @ [(sock_of s p,
       if accounts (users_file s) uid = None then msg_no_id else msg_bad_pw)])"
proof -
  have "threads s p \<noteq> H_None" using assms(2) by simp
  with assms(1) obtain c where c: "heap s p = Live c" "p \<in> set (connected s)"
    "length (msg_buf s p) = BUF_SIZE" "length (c_name c) = NAME_SIZE" "sock_of s p = c_sock c"
    by (rule login_thread)
  note r = request_cstr [OF _ assms(4,5), of "''LOGIN''"]
  let ?d = "''LOGIN'' @ SP # uid @ SP # pw"
  have e1: "exec s (Read p (Data ?d)) = Inr (goto p (H_Auth ''LOGIN'' (Some uid) (Some pw)) s)"
    using on_request_login [OF assms(1) c(2) assms(4,5)] assms(2,6) r(4) by simp
  let ?s1 = "goto p (H_Auth ''LOGIN'' (Some uid) (Some pw)) s"
  obtain res f where a: "process_auth ''LOGIN'' (Some uid) (Some pw) (users_file s) = Inr (res, f)"
    "(res, accounts f) = auth_spec ''LOGIN'' uid pw (accounts (users_file s))"
    using process_auth_spec [OF assms(3-5)] by blast
  have fs: "users_file ?s1 = users_file s" by (simp add: goto_def)
  let ?s2 = "goto p (H_Reply ''LOGIN'' (Some uid) res) (?s1\<lparr>users_file := f\<rparr>)"
  have e2: "exec ?s1 (Auth p) = Inr ?s2"
    using a(1) fs by (simp add: on_auth_def)
  have s2: "heap ?s2 p = Live c" "msg_buf ?s2 p = msg_buf s p" "sent ?s2 = sent s"
    "users_file ?s2 = f" "threads ?s2 p = H_Reply ''LOGIN'' (Some uid) res"
    using c(1) by (simp_all add: goto_def)
  have run: "run s [Read p (Data ?d), Auth p, Reply p] = on_reply p ''LOGIN'' (Some uid) res ?s2"
    using e1 e2 s2(5) by (simp del: exec.simps add: exec.simps(4) cbind_def split: sum.splits)
  have af: "accounts f = accounts (users_file s)"
    using a(2) by (auto simp: auth_spec_def split: option.splits if_splits)
  show ?thesis
  proof (cases "accounts (users_file s) uid = Some pw")
    case True
    then have res: "res = 0" using a(2) by (simp add: auth_spec_def)
    have "length (msg_buf ?s2 p) = BUF_SIZE" using c(3) s2(2) by simp
    with on_reply_ok [OF s2(1) c(4) _ assms(4)] show ?thesis
      using True run res af s2(3,4) c(5) by auto
  next
    case False
    then have res: "res \<noteq> 0" "res = -2 \<longleftrightarrow> accounts (users_file s) uid = None"
      using a(2) by (auto simp: auth_spec_def split: option.splits if_splits)
    have "on_reply p ''LOGIN'' (Some uid) res ?s2
        = Inr (goto p H_Leave (write_to (c_sock c) (if res = -2 then msg_no_id else msg_bad_pw) ?s2))"
      using s2(1) res(1) by (simp add: on_reply_def deref_def)
    then show ?thesis
      unfolding run using False res(2) af c(5) by (simp add: goto_def write_to_def)
  qed
qed


text \<open>
  Login: a request \<^verbatim>\<open>LOGIN id pw\<close> with fields that fit, from a handler that
  waits for it, for a name nobody else uses, is answered \<open>OK\<close> and the welcome and puts the
  handler in the message loop under that name exactly when the user file holds that id with
  that password; otherwise the handler goes to \<^verbatim>\<open>DISCONNECT\<close> after the message for an
  unknown id or for a wrong password.  The accounts stay as they are.
\<close>

lemma login_flow:
  assumes "server_wf s" and "threads s p = H_Login" and "file_ok (users_file s)"
    and "field_ok uid" and "field_ok pw" and "\<not> name_taken s p uid"
  shows "\<exists>t. run s [Read p (Data (''LOGIN'' @ SP # uid @ SP # pw)), Auth p, Reply p] = Inr t
    \<and> accounts (users_file t) = accounts (users_file s) \<and>
    (if accounts (users_file s) uid = Some pw
     then threads t p = H_Chat \<and> cstr (name_of t p) = uid
       \<and> sent t = sent s @ [(sock_of s p, ''OK''), (sock_of s p, msg_welcome_1 @ uid @ msg_welcome_2)]
     else threads t p = H_Leave \<and> sent t = sent s @ [(sock_of s p,
       if accounts (users_file s) uid = None then msg_no_id else msg_bad_pw)])"
  using login_steps [OF assms] by auto

text \<open>The two clients of before and a third that has just connected.\<close>

definition third_joined :: server where
  "third_joined = (case exec two_users (Accept 3 6 junk stack) of Inr t \<Rightarrow> t | Inl e \<Rightarrow> two_users)"

lemma accept_frame:
  "accept_clnt p sk blk buf s = Inr t \<Longrightarrow> users_file t = users_file s \<and> clnt_cnt t = clnt_cnt s + 1"
  by (auto simp: accept_clnt_def Let_def store_client_def goto_def split: if_splits)

lemma third_joined_state:
  "server_wf third_joined" "threads third_joined 3 = H_Login" "users_file third_joined = Some users_txt"
  "connected third_joined = [1, 2, 3]" "\<And>q. q \<noteq> 3 \<Longrightarrow> name_of third_joined q = name_of two_users q"
  "sock_of third_joined 3 = 6" "connected third_joined ! 1 = 2" "clnt_cnt third_joined = 3"
proof -
  have wf: "registry_ok two_users" using two_users_wf by (simp add: server_wf_def)
  have three: "\<not> is_live (heap two_users 3)"
  proof -
    have "3 \<in> set (connected two_users) \<longleftrightarrow> is_live (heap two_users 3)"
      using wf unfolding registry_ok_def by blast
    then show ?thesis using two_users_state(1) by simp
  qed
  have cnt: "clnt_cnt two_users = 2"
    using wf two_users_state(1) by (auto simp: registry_ok_def connected_def dest: arg_cong [where f = length])
  have j: "length junk = NAME_SIZE" "terminated junk" "length stack = BUF_SIZE"
    by (simp_all add: junk_def stack_def NAME_SIZE_def terminated_def)
  have "c_ok (exec two_users (Accept 3 6 junk stack))"
    using cnt three j by (simp add: accept_clnt_def Let_def store_client_def MAX_CLNT_def)
  then have e: "exec two_users (Accept 3 6 junk stack) = Inr third_joined"
    by (auto simp: c_ok_iff third_joined_def)
  then have a: "accept_clnt 3 6 junk stack two_users = Inr third_joined"
    using three j by simp
  have "tidy two_users (Accept 3 6 junk stack)"
    using two_users_state j by (auto simp: tidy_def orderly_def)
  with exec_wf [OF two_users_wf _ e] show "server_wf third_joined" by simp
  note c = connected_accept [OF wf a]
  show con: "connected third_joined = [1, 2, 3]" using c(1) two_users_state(1) by simp
  then show "connected third_joined ! 1 = 2" by simp
  show "threads third_joined 3 = H_Login" using c(3) by simp
  show "sock_of third_joined 3 = 6" using c(2) by (simp add: sock_of_def)
  show "q \<noteq> 3 \<Longrightarrow> name_of third_joined q = name_of two_users q" for q
    using c(2) by (simp add: name_of_def)
  show "users_file third_joined = Some users_txt" "clnt_cnt third_joined = 3"
    using accept_frame [OF a] cnt two_users_state(10) by simp_all
qed

lemma third_names: "name_taken third_joined 3 ''user1''" "\<not> name_taken third_joined 3 ''user3''"
  using third_joined_state(4,5) two_users_state(8,9) by (auto simp: name_taken_def)

lemma login_flow_example:
  "\<exists>t. run third_joined [Read 3 (Data (''LOGIN'' @ SP # ''user3'' @ SP # ''1234'')), Auth 3, Reply 3] = Inr t
     \<and> threads t 3 = H_Chat \<and> cstr (name_of t 3) = ''user3''"
proof -
  have "accounts (Some users_txt) ''user3'' = Some ''1234''"
    by (simp add: accounts_def users_txt_def file_pairs_user_lines users_ok_def field_ok_examples)
  moreover have "file_ok (users_file third_joined)" using users_txt_ok third_joined_state(3) by simp
  ultimately show ?thesis
    using login_flow [OF third_joined_state(1,2) _ field_ok_examples(3,5) third_names(2)] third_joined_state(3)
    by (auto simp del: run.simps)
qed

text \<open>
  A name in use is refused: when another connected client already has the id,
  the same request is answered with the message for it, the user file is not consulted, and
  the handler goes to \<^verbatim>\<open>DISCONNECT\<close> with its name still unset.
\<close>

lemma duplicate_login_refused:
  assumes "server_wf s" and "threads s p = H_Login" and "field_ok uid" and "field_ok pw"
    and "name_taken s p uid"
  shows "exec s (Read p (Data (''LOGIN'' @ SP # uid @ SP # pw)))
    = Inr (goto p H_Leave (write_to (sock_of s p) msg_dup_login s))"
proof -
  have "threads s p \<noteq> H_None" using assms(2) by simp
  with assms(1) obtain c where "p \<in> set (connected s)" by (rule login_thread)
  with on_request_login [OF assms(1) _ assms(3,4)] assms(2,5) request_cstr(4) [OF _ assms(3,4), of "''LOGIN''"]
  show ?thesis by simp
qed

lemma duplicate_login_refused_example:
  "exec third_joined (Read 3 (Data (''LOGIN'' @ SP # ''user1'' @ SP # ''1234'')))
     = Inr (goto 3 H_Leave (write_to 6 msg_dup_login third_joined))"
  using duplicate_login_refused [OF third_joined_state(1,2) field_ok_examples(1,5) third_names(1)]
    third_joined_state(6) by (simp only:)

text \<open>Two handlers test the name before either has taken it.\<close>

definition login_race :: "event list" where
  "login_race = [Accept 1 4 junk stack, Accept 2 5 junk stack, Read 1 (Data ''LOGIN user1 1234''),
     Read 2 (Data ''LOGIN user1 1234''), Auth 1, Reply 1, Auth 2, Reply 2]"

text \<open>
  The refusal is not atomic: the test of the name and its assignment are in
  different critical sections, and in this run from the start two clients end up in the
  message loop under the same id.
\<close>

lemma login_race_admits_both:
  "shows_view (run (server_init (Some users_txt)) login_race)
     ([(1, 4, ''user1'', 0, H_Chat), (2, 5, ''user1'', 0, H_Chat)], Some users_txt)"
  by code_simp


subsection \<open>Leaving\<close>

text \<open>
  The last entry leaves correctly: the registry loses exactly that client,
  keeps the others in order, and its struct is freed.
\<close>

lemma disconnect_last:
  assumes "registry_ok s" and "connected s \<noteq> []" and "last (connected s) = p"
  shows "\<exists>t. disconnect p s = Inr t \<and> connected t = butlast (connected s)
    \<and> heap t = (heap s)(p := Freed) \<and> registry_ok t"
proof -
  let ?i = "clnt_cnt s - 1"
  have len: "length (connected s) = clnt_cnt s"
    using assms(1) by (simp add: registry_ok_def connected_def)
  then have "?i < clnt_cnt s" "connected s ! ?i = p"
    using assms(2,3) by (simp_all add: last_conv_nth flip: len)
  moreover from this have "Suc ?i < clnt_cnt s \<Longrightarrow> clnt_cnt s < MAX_CLNT" by simp
  ultimately obtain t where t: "disconnect p s = Inr t" "heap t = (heap s)(p := Freed)"
    using disconnect_effect [OF assms(1), of ?i p] by blast
  with registry_disconnect_last [OF assms t(1)] show ?thesis by blast
qed

lemma send_loop_live: "send_loop s sender msg len qs = Inr out \<Longrightarrow> \<forall>q \<in> set qs. is_live (heap s q)"
  by (induction qs arbitrary: out) (auto split: if_splits)

lemma disconnect_last_example:
  "\<exists>t. disconnect 3 third_joined = Inr t \<and> connected t = [1, 2]"
proof -
  have "registry_ok third_joined" using third_joined_state(1) by (simp add: server_wf_def)
  then show ?thesis
    using disconnect_last [of third_joined 3] third_joined_state(4) by auto
qed

text \<open>
  Property C38.  An entry that is not the last leaves the registry broken: the shifting loop
  increments before it copies, so the departed client stays listed with its struct freed,
  the client after it loses its entry while it is still connected, and from then on no
  message of any client can be broadcast without an access to freed memory.
\<close>

theorem disconnect_keeps_departed:
  assumes "registry_ok s" and "clnt_cnt s < MAX_CLNT" and "Suc i < clnt_cnt s" and "connected s ! i = p"
  shows "\<exists>t. disconnect p s = Inr t
    \<and> connected t = take (Suc i) (connected s) @ drop (Suc (Suc i)) (connected s)
    \<and> p \<in> set (connected t) \<and> heap t p = Freed
    \<and> connected s ! Suc i \<notin> set (connected t) \<and> is_live (heap t (connected s ! Suc i))
    \<and> (\<forall>q msg len. \<not> c_ok (send_msg q msg len t))"
proof -
  let ?c = "connected s"
  have len: "length ?c = clnt_cnt s" and d: "distinct ?c"
    using assms(1) by (simp_all add: registry_ok_def connected_def)
  obtain t where t: "disconnect p s = Inr t" "heap t = (heap s)(p := Freed)"
    "connected t = take (Suc i) (butlast ?c) @ drop (Suc (Suc i)) ?c"
    using disconnect_effect [OF assms(1) _ assms(4,2)] assms(3) by auto
  have con: "connected t = take (Suc i) ?c @ drop (Suc (Suc i)) ?c"
    using t(3) len assms(3) by (simp add: take_butlast)
  have p: "p \<in> set (connected t)"
    unfolding con using assms(3,4) len by (auto simp: take_Suc_conv_app_nth)
  let ?n = "?c ! Suc i"
  have split: "?c = take (Suc i) ?c @ ?n # drop (Suc (Suc i)) ?c"
    using assms(3) len by (simp add: id_take_nth_drop [of "Suc i"])
  have "distinct (take (Suc i) ?c @ ?n # drop (Suc (Suc i)) ?c)" using d split by simp
  then have n: "?n \<notin> set (connected t)" unfolding con by simp
  have "?n \<in> set ?c" using assms(3) len by simp
  then have "is_live (heap s ?n)" using assms(1) by (simp add: registry_ok_def)
  moreover have "?n \<noteq> p" using n p by blast
  ultimately have live: "is_live (heap t ?n)" using t(2) by simp
  have "\<not> c_ok (send_msg q msg len t)" for q msg len
  proof
    assume "c_ok (send_msg q msg len t)"
    then obtain c out where "send_loop t c msg len (connected t) = Inr out"
      by (auto simp: c_ok_iff send_msg_def connected_def)
    then have "is_live (heap t p)" using send_loop_live p by blast
    then show False using t(2) by simp
  qed
  with t(1,2) con p n live show ?thesis by auto
qed

theorem disconnect_keeps_departed_witness:
  "\<exists>t. disconnect 2 third_joined = Inr t \<and> connected t = [1, 2] \<and> heap t 2 = Freed"
proof -
  have "registry_ok third_joined" using third_joined_state(1) by (simp add: server_wf_def)
  then show ?thesis
    using disconnect_keeps_departed [of third_joined 1 2] third_joined_state(4,7,8)
    by (auto simp: MAX_CLNT_def)
qed

end
