(* ===== verification/Chat_Window.thy ===== *)
theory Chat_Window
  imports Chat_Logins
begin

section \<open>The messenger's window\<close>

text \<open>
  The callbacks of \<^verbatim>\<open>project2/gui_client.c\<close>.  GTK is not under \<^verbatim>\<open>src/\<close>: a callback is a
  definition over what it reads (the texts of the entries, what the connection gives) and
  what it changes: the socket, the user's name, the text view, the room label, the entry, the
  dialogs shown, the files it creates and what it writes to sockets.  A reply is what
  \<^verbatim>\<open>read\<close> delivered, \<open>None\<close> for 0 or less.  A message for the view is an allocated
  \<^verbatim>\<open>MsgUpdate\<close> of 1024 bytes, handed to \<^verbatim>\<open>update_ui\<close> by the main loop.
\<close>

subsection \<open>Texts\<close>

definition ask_both_signup :: bytes where
  "ask_both_signup = map char_of [236, 149, 132, 236, 157, 180, 235, 148, 148, 236, 153, 128, 32, 235, 185, 132, 235, 176,
     128, 235, 178, 136, 237, 152, 184, 235, 165, 188, 32, 235, 170, 168, 235, 145, 144, 32,
     236, 158, 133, 235, 160, 165, 237, 149, 180, 236, 163, 188, 236, 132, 184, 236, 154,
     148, 46 :: nat]"

definition ask_both_login :: bytes where
  "ask_both_login = map char_of [236, 149, 132, 236, 157, 180, 235, 148, 148, 236, 153, 128, 32, 235, 185, 132, 235, 176,
     128, 235, 178, 136, 237, 152, 184, 235, 165, 188, 32, 236, 158, 133, 235, 160, 165, 237,
     149, 180, 236, 163, 188, 236, 132, 184, 236, 154, 148, 46 :: nat]"

definition no_server :: bytes where
  "no_server = map char_of [236, 132, 156, 235, 178, 132, 32, 236, 151, 176, 234, 178, 176, 32, 236, 139, 164, 237,
     140, 168, 33 :: nat]"

definition no_server_login :: bytes where
  "no_server_login = map char_of [236, 132, 156, 235, 178, 132, 32, 236, 151, 176, 234, 178, 176, 32, 236, 139, 164, 237,
     140, 168, 33, 32, 236, 132, 156, 235, 178, 132, 234, 176, 128, 32, 236, 188, 156, 236,
     160, 184, 32, 236, 158, 136, 235, 138, 148, 236, 167, 128, 32, 237, 153, 149, 236, 157,
     184, 237, 149, 152, 236, 132, 184, 236, 154, 148, 46 :: nat]"

definition no_reply :: bytes where
  "no_reply = map char_of [236, 132, 156, 235, 178, 132, 32, 236, 157, 145, 235, 139, 181, 32, 236, 151, 134, 236,
     157, 140, 46 :: nat]"

definition unknown_error :: bytes where
  "unknown_error = map char_of [236, 149, 140, 32, 236, 136, 152, 32, 236, 151, 134, 235, 138, 148, 32, 236, 152, 164,
     235, 165, 152 :: nat]"

definition signup_ok :: bytes where
  "signup_ok = map char_of [237, 154, 140, 236, 155, 144, 234, 176, 128, 236, 158, 133, 32, 236, 132, 177, 234, 179,
     181, 33, 32, 235, 161, 156, 234, 183, 184, 236, 157, 184, 32, 237, 149, 180, 236, 163,
     188, 236, 132, 184, 236, 154, 148, 46 :: nat]"

definition signup_failed :: bytes where
  "signup_failed = map char_of [237, 154, 140, 236, 155, 144, 234, 176, 128, 236, 158, 133, 32, 236, 139, 164, 237, 140,
     168, 32, 40, 73, 68, 32, 236, 164, 145, 235, 179, 181, 32, 235, 147, 177, 41 :: nat]"

definition at_lobby :: bytes where
  "at_lobby = map char_of [237, 152, 132, 236, 158, 172, 58, 32, 235, 161, 156, 235, 185, 132 :: nat]"

definition at_room_1 :: bytes where
  "at_room_1 = map char_of [237, 152, 132, 236, 158, 172, 58, 32 :: nat]"

definition at_room_2 :: bytes where
  "at_room_2 = map char_of [235, 178, 136, 32, 235, 176, 169 :: nat]"

definition saved_text :: bytes where
  "saved_text = map char_of [62, 62, 62, 32, 237, 140, 140, 236, 157, 188, 32, 236, 160, 128, 236, 158, 165, 235,
     144, 168, 58, 32 :: nat]"

definition sending_text :: bytes where
  "sending_text = map char_of [62, 62, 62, 32, 237, 140, 140, 236, 157, 188, 32, 236, 160, 132, 236, 134, 161, 32, 236,
     164, 145, 58, 32 :: nat]"

definition title_text :: bytes where
  "title_text = map char_of [236, 152, 164, 237, 148, 136, 236, 134, 140, 236, 138, 164, 32, 235, 169, 148, 236, 139,
     160, 236, 160, 128, 32, 45, 32 :: nat]"

subsection \<open>State\<close>

datatype dialog = Alert bytes | Info bytes

record window =
  w_sock :: int
  w_name :: bytes \<comment> \<open>\<^verbatim>\<open>char name[NAME_SIZE]\<close>\<close>
  w_title :: bytes
  chat_open :: bool
  view :: bytes
  pending :: "bytes list" \<comment> \<open>the \<^verbatim>\<open>MsgUpdate\<close>s not yet shown\<close>
  entry :: bytes
  room_label :: bytes
  dialogs :: "dialog list"
  signup_open :: bool
  created :: "bytes list" \<comment> \<open>files created, all empty\<close>
  w_sent :: "(int \<times> bytes) list"
  w_closed :: "int list"

definition show_alert :: "bytes \<Rightarrow> window \<Rightarrow> window" where
  "show_alert t g = g\<lparr>dialogs := dialogs g @ [Alert t]\<rparr>"

definition show_info :: "bytes \<Rightarrow> window \<Rightarrow> window" where
  "show_info t g = g\<lparr>dialogs := dialogs g @ [Info t]\<rparr>"

definition w_write :: "int \<Rightarrow> bytes \<Rightarrow> window \<Rightarrow> window" where
  "w_write sk d g = g\<lparr>w_sent := w_sent g @ [(sk, d)]\<rparr>"

text \<open>\<^verbatim>\<open>sprintf\<close> into a fresh array of \<open>n\<close> bytes, read back as a string.\<close>

definition sprintf :: "nat \<Rightarrow> bytes \<Rightarrow> bytes cres" where
  "sprintf n t = (if length t < n then Inr t else Inl Out_Of_Bounds)"

definition add_update :: "bytes \<Rightarrow> window \<Rightarrow> window cres" where
  "add_update t g = cbind (sprintf BUF_SIZE t) (\<lambda>m. Inr (g\<lparr>pending := pending g @ [m]\<rparr>))"

text \<open>The main loop runs one handed-over update; the buffer exists once the chat is open.\<close>

definition update_ui :: "window \<Rightarrow> window" where
  "update_ui g = (case pending g of
      [] \<Rightarrow> g
    | m # ms \<Rightarrow> g\<lparr>pending := ms, view := (if chat_open g then view g @ m @ [NL] else view g)\<rparr>)"

subsection \<open>Signing up and logging in\<close>

definition on_signup_confirm :: "bytes \<Rightarrow> bytes \<Rightarrow> int option \<Rightarrow> bytes option \<Rightarrow> window \<Rightarrow> window cres" where
  "on_signup_confirm new_id new_pw conn reply g =
     (if new_id = [] \<or> new_pw = [] then Inr (show_alert ask_both_signup g)
      else case conn of
        None \<Rightarrow> Inr (show_alert no_server g)
      | Some reg_sock \<Rightarrow>
          cbind (sprintf 50 (''REGISTER '' @ new_id @ '' '' @ new_pw)) (\<lambda>req.
          let g = w_write reg_sock req g;
              res = (case reply of Some r \<Rightarrow> cstr r | None \<Rightarrow> unknown_error);
              g = g\<lparr>w_closed := w_closed g @ [reg_sock]\<rparr>
          in Inr (if starts ''OK'' res then (show_info signup_ok g)\<lparr>signup_open := False\<rparr>
                  else show_alert signup_failed g)))"

text \<open>\<^verbatim>\<open>strncpy(name, id_text, NAME_SIZE - 1)\<close>: at most 19 bytes, padded with NULs.\<close>

definition strncpy :: "bytes \<Rightarrow> bytes \<Rightarrow> nat \<Rightarrow> bytes" where
  "strncpy dest s n = take n (s @ replicate n NUL) @ drop n dest"

definition create_chat_interface :: "window \<Rightarrow> window cres" where
  "create_chat_interface g =
     cbind (read_cstr (w_name g)) (\<lambda>nm.
     cbind (sprintf 50 (title_text @ nm)) (\<lambda>title.
       Inr (g\<lparr>w_title := title, chat_open := True, room_label := at_lobby\<rparr>)))"

definition on_login_clicked :: "bytes \<Rightarrow> bytes \<Rightarrow> int option \<Rightarrow> bytes option \<Rightarrow> window \<Rightarrow> window cres" where
  "on_login_clicked id_text pw_text conn reply g =
     (if id_text = [] \<or> pw_text = [] then Inr (show_alert ask_both_login g)
      else case conn of
        None \<Rightarrow> Inr (show_alert no_server_login (g\<lparr>w_sock := -1\<rparr>))
      | Some sk \<Rightarrow>
          cbind (sprintf 50 (''LOGIN '' @ id_text @ '' '' @ pw_text)) (\<lambda>login_info.
          let g = w_write sk login_info (g\<lparr>w_sock := sk\<rparr>) in
          case reply of
            None \<Rightarrow> Inr (show_alert no_reply (g\<lparr>w_closed := w_closed g @ [sk]\<rparr>))
          | Some r \<Rightarrow>
              if starts ''OK'' (cstr r) then
                create_chat_interface (g\<lparr>w_name := strncpy (w_name g) id_text (NAME_SIZE - 1)\<rparr>)
              else Inr (show_alert (cstr r) (g\<lparr>w_closed := w_closed g @ [sk]\<rparr>))))"

subsection \<open>Rooms, messages, files\<close>

definition on_room_clicked :: "int \<Rightarrow> window \<Rightarrow> window cres" where
  "on_room_clicked room_num g =
     cbind (sprintf 50 (if room_num = 0 then ''/join 0'' else ''/join '' @ show_int room_num)) (\<lambda>cmd.
     cbind (sprintf 50 (if room_num = 0 then at_lobby else at_room_1 @ show_int room_num @ at_room_2)) (\<lambda>label.
       Inr ((w_write (w_sock g) cmd g)\<lparr>room_label := label\<rparr>)))"

text \<open>One turn of the receiving thread's loop: \<open>d\<close> is what arrived, at most 1023 bytes.  A
  file announcement creates an empty file of the announced name.\<close>

definition recv_turn :: "bytes \<Rightarrow> (bytes \<Rightarrow> bool) \<Rightarrow> window \<Rightarrow> window cres" where
  "recv_turn d can_create g =
     (let msg = cstr d in
      if starts ''[FILE]'' msg then
        cbind (scan_field 100 (drop 6 msg)) (\<lambda>(filename, r).
        case filename of
          None \<Rightarrow> Inl Uninitialised
        | Some fn \<Rightarrow>
            cbind (sprintf 120 (''recv_'' @ fn)) (\<lambda>save_name.
            if can_create save_name
            then add_update (saved_text @ save_name) (g\<lparr>created := created g @ [save_name]\<rparr>)
            else Inr g))
      else add_update msg g)"

fun recv_msg :: "bytes list \<Rightarrow> (bytes \<Rightarrow> bool) \<Rightarrow> window \<Rightarrow> window cres" where
  "recv_msg [] can_create g = Inr g"
| "recv_msg (d # ds) can_create g =
     (if d = [] then Inr g else cbind (recv_turn d can_create g) (recv_msg ds can_create))"

definition on_send_clicked :: "window \<Rightarrow> window" where
  "on_send_clicked g = (if entry g = [] then g else (w_write (w_sock g) (entry g) g)\<lparr>entry := []\<rparr>)"

text \<open>The file chooser returned the path's last component, or was cancelled.\<close>

definition on_file_clicked :: "bytes option \<Rightarrow> window \<Rightarrow> window cres" where
  "on_file_clicked base_name g = (case base_name of
      None \<Rightarrow> Inr g
    | Some b \<Rightarrow>
        cbind (sprintf BUF_SIZE (''[FILE] '' @ b)) (\<lambda>header.
          add_update (sending_text @ b) (w_write (w_sock g) header g)))"

subsection \<open>The client's requests are the server's\<close>

text \<open>The last byte of \<^verbatim>\<open>name\<close> is never written: it is the zero of the program's start, and
  terminates the name.\<close>

lemma strncpy_name:
  assumes "drop (NAME_SIZE - 1) old = [NUL]" "NUL \<notin> set s" "length s \<le> NAME_SIZE - 1"
  shows "strncpy old s (NAME_SIZE - 1) = s @ NUL # replicate (NAME_SIZE - 1 - length s) NUL"
    and "cstr (strncpy old s (NAME_SIZE - 1)) = s" and "terminated (strncpy old s (NAME_SIZE - 1))"
proof -
  let ?k = "NAME_SIZE - 1 - length s"
  have "take (NAME_SIZE - 1) (s @ replicate (NAME_SIZE - 1) NUL) = s @ replicate ?k NUL"
    using assms(3) by (simp add: min_def)
  then show eq: "strncpy old s (NAME_SIZE - 1) = s @ NUL # replicate ?k NUL"
    using assms(1) replicate_append_same [of ?k NUL] by (simp add: strncpy_def)
  show "cstr (strncpy old s (NAME_SIZE - 1)) = s" unfolding eq by (rule cstr_terminator [OF assms(2)])
  show "terminated (strncpy old s (NAME_SIZE - 1))" unfolding eq by (simp add: terminated_def)
qed

text \<open>
  Client and server agree on the login request: for an id and a password that
  fit the server's arrays, \<^verbatim>\<open>on_login_clicked\<close> writes one request, which the server's
  \<^verbatim>\<open>sscanf\<close> splits into exactly \<^verbatim>\<open>LOGIN\<close>, the id and the password; an answer that begins
  with \<open>OK\<close> opens the chat under that id, any other closes the socket and is shown as it
  came.
\<close>

lemma login_request_understood:
  assumes "field_ok uid" and "field_ok pw" and "drop (NAME_SIZE - 1) (w_name g) = [NUL]"
  shows "\<exists>req t. req = ''LOGIN'' @ SP # uid @ SP # pw \<and> on_login_clicked uid pw (Some sk) (Some reply) g = Inr t
    \<and> w_sent t = w_sent g @ [(sk, req)] \<and> scan_request (cstr req) = Inr (Some ''LOGIN'', Some uid, Some pw)
    \<and> (if starts ''OK'' (cstr reply) then chat_open t \<and> cstr (w_name t) = uid \<and> w_sock t = sk
       else w_closed t = w_closed g @ [sk] \<and> dialogs t = dialogs g @ [Alert (cstr reply)]
         \<and> chat_open t = chat_open g)"
proof -
  let ?req = "''LOGIN'' @ SP # uid @ SP # pw"
  have len: "length uid < 20" "length pw < 20" "NUL \<notin> set uid" "uid \<noteq> []" "pw \<noteq> []"
    using assms(1,2) by (auto simp: field_ok_def is_token_def)
  note r = request_cstr [OF _ assms(1,2), of "''LOGIN''"]
  have s: "sprintf 50 (''LOGIN '' @ uid @ '' '' @ pw) = Inr ?req"
    using len by (simp add: sprintf_def)
  have scan: "scan_request (cstr ?req) = Inr (Some ''LOGIN'', Some uid, Some pw)"
    using r scan_request_eq [OF _ _ assms(1,2), of "''LOGIN''"] by simp
  show ?thesis
  proof (cases "starts ''OK'' (cstr reply)")
    case True
    have "length uid \<le> NAME_SIZE - 1" using len(1) by (simp add: NAME_SIZE_def)
    note nm = strncpy_name [OF assms(3) len(3) this]
    have "length (title_text @ uid) < 50" using len(1) by (simp add: title_text_def)
    then have title: "sprintf 50 (title_text @ uid) = Inr (title_text @ uid)"
      by (simp only: sprintf_def if_True)
    let ?g = "(w_write sk ?req (g\<lparr>w_sock := sk\<rparr>))\<lparr>w_name := strncpy (w_name g) uid (NAME_SIZE - 1)\<rparr>"
    have "create_chat_interface ?g = Inr (?g\<lparr>w_title := title_text @ uid, chat_open := True, room_label := at_lobby\<rparr>)"
      using nm(2,3) title by (simp add: create_chat_interface_def read_cstr_def)
    then have "on_login_clicked uid pw (Some sk) (Some reply) g
        = Inr (?g\<lparr>w_title := title_text @ uid, chat_open := True, room_label := at_lobby\<rparr>)"
      using True len(4,5) s by (simp add: on_login_clicked_def Let_def w_write_def)
    moreover let ?t = "?g\<lparr>w_title := title_text @ uid, chat_open := True, room_label := at_lobby\<rparr>"
    have "w_sent ?t = w_sent g @ [(sk, ?req)]" "chat_open ?t" "cstr (w_name ?t) = uid" "w_sock ?t = sk"
      using nm(2) by (simp_all add: w_write_def)
    ultimately show ?thesis using True scan by (intro exI [of _ ?req] exI [of _ ?t]) presburger
  next
    case False
    then have "on_login_clicked uid pw (Some sk) (Some reply) g
        = Inr (show_alert (cstr reply) ((w_write sk ?req (g\<lparr>w_sock := sk\<rparr>))\<lparr>w_closed := w_closed g @ [sk]\<rparr>))"
      using len(4,5) s by (simp add: on_login_clicked_def Let_def w_write_def)
    moreover let ?t = "show_alert (cstr reply) ((w_write sk ?req (g\<lparr>w_sock := sk\<rparr>))\<lparr>w_closed := w_closed g @ [sk]\<rparr>)"
    have "w_sent ?t = w_sent g @ [(sk, ?req)]" "w_closed ?t = w_closed g @ [sk]"
      "dialogs ?t = dialogs g @ [Alert (cstr reply)]" "chat_open ?t = chat_open g"
      by (simp_all add: w_write_def show_alert_def)
    ultimately show ?thesis using False scan by (intro exI [of _ ?req] exI [of _ ?t]) presburger
  qed
qed

definition blank_window :: window where
  "blank_window = \<lparr>w_sock = 0, w_name = replicate NAME_SIZE NUL, w_title = [], chat_open = False, view = [],
     pending = [], entry = [], room_label = [], dialogs = [], signup_open = False, created = [],
     w_sent = [], w_closed = []\<rparr>"

lemma login_request_understood_example:
  "\<exists>t. on_login_clicked ''kim'' ''pw'' (Some 7) (Some ''OK'') blank_window = Inr t
     \<and> chat_open t \<and> cstr (w_name t) = ''kim''"
proof -
  have "drop (NAME_SIZE - 1) (w_name blank_window) = [NUL]"
    by (simp add: blank_window_def NAME_SIZE_def)
  from login_request_understood [OF field_ok_examples(6,7) this, of 7 "''OK''"] show ?thesis by auto
qed

text \<open>The room buttons write the request that the server's \<^verbatim>\<open>/join\<close> reads.\<close>

lemma room_clicked_eq:
  assumes "- (2 ^ 31) \<le> r" "r < 2 ^ 31"
  shows "on_room_clicked r g = Inr ((w_write (w_sock g) (''/join '' @ show_int r) g)
    \<lparr>room_label := if r = 0 then at_lobby else at_room_1 @ show_int r @ at_room_2\<rparr>)"
proof -
  have len: "length (show_int r) \<le> 11" using assms by (rule length_show_int)
  have zero: "show_int 0 = ''0''" by code_simp
  have "length (at_room_1 @ show_int r @ at_room_2) < 50"
    using len by (simp add: at_room_1_def at_room_2_def)
  then have lbl: "sprintf 50 (at_room_1 @ show_int r @ at_room_2) = Inr (at_room_1 @ show_int r @ at_room_2)"
    by (simp only: sprintf_def if_True)
  have "length at_lobby < 50" by (simp add: at_lobby_def)
  then have lob: "sprintf 50 at_lobby = Inr at_lobby" by (simp only: sprintf_def if_True)
  have cmd: "sprintf 50 (''/join '' @ show_int r) = Inr (''/join '' @ show_int r)"
    using len by (simp add: sprintf_def)
  show ?thesis
  proof (cases "r = 0")
    case True
    then show ?thesis using lob zero by (simp add: on_room_clicked_def sprintf_def)
  next
    case False
    then show ?thesis using cmd lbl by (simp add: on_room_clicked_def)
  qed
qed

lemma room_request:
  assumes "- (2 ^ 31) \<le> r" "r < 2 ^ 31"
  shows "\<exists>t. on_room_clicked r g = Inr t \<and> w_sent t = w_sent g @ [(w_sock g, ''/join '' @ show_int r)]"
  unfolding room_clicked_eq [OF assms] by (simp add: w_write_def)

text \<open>The announcement of a file creates an empty file at each receiver: the file's bytes
  are never sent.\<close>

lemma announced_file_is_empty:
  assumes "is_token fn" "NUL \<notin> set fn" "length fn < 100" "can_create (''recv_'' @ fn)"
  shows "recv_turn (''[FILE] '' @ fn) can_create g = Inr (g\<lparr>created := created g @ [''recv_'' @ fn],
    pending := pending g @ [saved_text @ ''recv_'' @ fn]\<rparr>)"
proof -
  have "NUL \<notin> set (''[FILE] '' @ fn)" using assms(2) by simp
  then have c: "cstr (''[FILE] '' @ fn) = ''[FILE] '' @ fn" by (rule cstr_no_nul)
  have sc: "scan_field 100 (SP # fn) = Inr (Some fn, [])"
    using assms(1,3) by (simp add: scan_field_def scan_word_skip scan_word_last)
  have "length (saved_text @ ''recv_'' @ fn) < BUF_SIZE"
    using assms(3) by (simp add: saved_text_def BUF_SIZE_def)
  then have u: "sprintf BUF_SIZE (saved_text @ ''recv_'' @ fn) = Inr (saved_text @ ''recv_'' @ fn)"
    by (simp only: sprintf_def if_True)
  have v: "sprintf 120 (''recv_'' @ fn) = Inr (''recv_'' @ fn)" using assms(3) by (simp add: sprintf_def)
  show ?thesis
    unfolding recv_turn_def Let_def c using sc u v assms(4) by (simp add: add_update_def)
qed

end
