(* ===== verification/Chat_Service.thy ===== *)
theory Chat_Service
  imports Chat_Logins Transition
begin

section \<open>The messenger as a service of rooms\<close>

text \<open>
  What the server of \<^verbatim>\<open>project2/gui_server.c\<close> promises its users, without pointers, threads
  and buffers: a list of members in the order of their arrival, each with a socket, a name
  and a room, and the messages delivered so far.  An input (a connection, a request, the
  verdict on it, a line, a departure) determines what the service does with the members and
  exactly which messages it delivers to whom.  The server of \<^verbatim>\<open>Chat_Server\<close> is proved to
  refine the service on the runs that keep its registry well formed.
\<close>

subsection \<open>The abstract service\<close>

type_synonym member = "int \<times> bytes \<times> int" \<comment> \<open>socket, name, room\<close>

type_synonym service = "member list \<times> (int \<times> bytes) list"

definition rename :: "int \<Rightarrow> bytes \<Rightarrow> member list \<Rightarrow> member list" where
  "rename sk nm = map (\<lambda>(k, n, r). if k = sk then (k, nm, r) else (k, n, r))"

definition change_room :: "int \<Rightarrow> int \<Rightarrow> member list \<Rightarrow> member list" where
  "change_room sk room = map (\<lambda>(k, n, r). if k = sk then (k, n, room) else (k, n, r))"

text \<open>Who hears what is said in a room: its members that have a name.\<close>

definition hearers :: "int \<Rightarrow> member list \<Rightarrow> int list" where
  "hearers room ms = map fst (filter (\<lambda>(k, n, r). n \<noteq> [] \<and> r = room) ms)"

definition spoken :: "bytes \<Rightarrow> bytes \<Rightarrow> bytes" where
  "spoken nm d = (if starts ''[FILE]'' d then d else CHR ''['' # nm @ '']'' @ '' '' @ cstr d)"

text \<open>
  The inputs, each with the socket it comes from: a connection with the name its struct
  happens to hold, a request with its mode and id, the result of \<^verbatim>\<open>process_auth\<close> for a mode
  and id, a line (with what the receiving buffer holds behind it: \<^verbatim>\<open>/join\<close> with no number
  reads on there), a departure.
\<close>

datatype svc_input =
    Join int bytes
  | Ask int bytes bytes
  | Verdict int bytes bytes int
  | Say int bytes bytes
  | Quit int

fun svc_do :: "svc_input \<Rightarrow> service \<Rightarrow> service option" where
  "svc_do (Join sk nm) (ms, out) =
     (if sk \<in> fst ` set ms \<or> MAX_CLNT \<le> length ms then None else Some (ms @ [(sk, nm, 0)], out))"
| "svc_do (Ask sk mode nm) (ms, out) =
     (if sk \<notin> fst ` set ms then None
      else if mode = ''LOGIN'' \<and> (\<exists>m \<in> set ms. fst m \<noteq> sk \<and> fst (snd m) = nm)
      then Some (ms, out @ [(sk, msg_dup_login)])
      else Some (ms, out))"
| "svc_do (Verdict sk mode nm result) (ms, out) =
     (if sk \<notin> fst ` set ms then None
      else if result = 0 \<and> mode = ''LOGIN''
      then Some (rename sk nm ms, out @ [(sk, ''OK''), (sk, msg_welcome_1 @ nm @ msg_welcome_2)])
      else Some (ms, out @ [(sk, if result = 0 then ''OK''
                                 else if mode = ''REGISTER'' then msg_id_exists
                                 else if result = -2 then msg_no_id else msg_bad_pw)]))"
| "svc_do (Say sk d old) (ms, out) =
     (case map_of ms sk of
        None \<Rightarrow> None
      | Some (nm, room) \<Rightarrow>
          if starts ''/join'' d then
            (case atoi_mem (drop 6 (d @ NUL # old)) of
               Inl e \<Rightarrow> None
             | Inr r \<Rightarrow> Some (change_room sk r ms, out @ [(sk, msg_moved_1 @ show_int r @ msg_moved_2)]))
          else if starts ''/'' d then Some (ms, out)
          else Some (ms, out @ map (\<lambda>k. (k, spoken nm d)) (hearers room ms)))"
| "svc_do (Quit sk) (ms, out) =
     (if sk \<notin> fst ` set ms then None else Some (filter (\<lambda>m. fst m \<noteq> sk) ms, out))"

lemma fst_rename [simp]: "map fst (rename sk nm ms) = map fst ms"
  by (induction ms) (auto simp: rename_def)

lemma fst_change_room [simp]: "map fst (change_room sk room ms) = map fst ms"
  by (induction ms) (auto simp: change_room_def)

text \<open>What the service delivers on one input goes to members of one room.\<close>

lemma svc_do_one_room:
  assumes "svc_do l (ms, out) = Some (ms', out')"
  shows "\<exists>room new. out' = out @ new \<and> (\<forall>x \<in> set new. \<exists>nm. (fst x, nm, room) \<in> set ms)"
proof -
  have one: "\<exists>room new. out' = out @ new \<and> (\<forall>x \<in> set new. \<exists>nm. (fst x, nm, room) \<in> set ms)"
    if "sk \<in> fst ` set ms" "out' = out @ map (Pair sk) ds" for sk ds
    using that by force
  show ?thesis
  proof (cases l)
    case (Join sk nm)
    with assms show ?thesis by (auto split: if_splits)
  next
    case (Ask sk m nm)
    then have "sk \<in> fst ` set ms" and "out' = out @ map (Pair sk) [] \<or> out' = out @ map (Pair sk) [msg_dup_login]"
      using assms by (auto split: if_splits)
    then show ?thesis using one by blast
  next
    case (Verdict sk m nm r)
    then have "sk \<in> fst ` set ms" and "\<exists>ds. out' = out @ map (Pair sk) ds"
      using assms by (auto split: if_splits intro: exI [of _ "[d]" for d]
          exI [of _ "[''OK'', msg_welcome_1 @ nm @ msg_welcome_2]"])
    then show ?thesis using one by blast
  next
    case (Say sk d old)
    with assms obtain nm room where m: "map_of ms sk = Some (nm, room)" by (auto split: option.splits)
    then have sk: "sk \<in> fst ` set ms" by (force dest: map_of_SomeD)
    consider (talk) "out' = out @ map (\<lambda>k. (k, spoken nm d)) (hearers room ms)"
      | (tell) ds where "out' = out @ map (Pair sk) ds"
    proof -
      assume t: "out' = out @ map (\<lambda>k. (k, spoken nm d)) (hearers room ms) \<Longrightarrow> thesis"
        and n: "\<And>ds. out' = out @ map (Pair sk) ds \<Longrightarrow> thesis"
      from assms Say m t n [of "[]"] n [of "[msg_moved_1 @ show_int r @ msg_moved_2]" for r]
      show thesis by (auto split: if_splits sum.splits)
    qed
    then show ?thesis
    proof cases
      case talk
      then show ?thesis by (intro exI [of _ room]) (auto simp: hearers_def)
    next
      case (tell ds)
      with sk one show ?thesis by blast
    qed
  next
    case (Quit sk)
    with assms show ?thesis by (auto split: if_splits)
  qed
qed

subsection \<open>The server seen as the service\<close>

definition member_of :: "server \<Rightarrow> nat \<Rightarrow> member" where
  "member_of s q = (sock_of s q, cstr (name_of s q), room_of s q)"

definition svc_abs :: "server \<Rightarrow> service" where
  "svc_abs s = (map (member_of s) (connected s), sent s)"

lemma member_of_frame: "heap t = heap s \<Longrightarrow> member_of t = member_of s"
  by (simp add: member_of_def sock_of_def name_of_def room_of_def fun_eq_iff)

lemma connected_frame: "clnt_list t = clnt_list s \<Longrightarrow> clnt_cnt t = clnt_cnt s \<Longrightarrow> connected t = connected s"
  by (simp add: connected_def)

lemma fst_abs: "fst ` set (fst (svc_abs s)) = sock_of s ` set (connected s)"
  by (auto simp: svc_abs_def member_of_def image_image)

lemma member_socket: "p \<in> set (connected s) \<Longrightarrow> sock_of s p \<in> fst ` set (fst (svc_abs s))"
  by (simp add: fst_abs)

text \<open>A struct that is replaced keeps its socket: one entry of the list changes.\<close>

lemma abs_store:
  assumes "registry_ok s" "p \<in> set (connected s)" "heap t = (heap s)(p := Live c)" "connected t = connected s"
    "c_sock c = sock_of s p"
  shows "c_room c = room_of s p
      \<Longrightarrow> map (member_of t) (connected t) = rename (sock_of s p) (cstr (c_name c)) (fst (svc_abs s))"
    and "c_name c = name_of s p
      \<Longrightarrow> map (member_of t) (connected t) = change_room (sock_of s p) (c_room c) (fst (svc_abs s))"
proof -
  have "inj_on (sock_of s) (set (connected s))" using assms(1) by (simp add: registry_ok_def)
  then have eq: "sock_of s q = sock_of s p \<longleftrightarrow> q = p" if "q \<in> set (connected s)" for q
    using that assms(2) by (auto dest: inj_onD)
  have at: "member_of t q = (if q = p then (sock_of s p, cstr (c_name c), c_room c) else member_of s q)" for q
    using assms(3,5) by (simp add: member_of_def sock_of_def name_of_def room_of_def)
  show "map (member_of t) (connected t) = rename (sock_of s p) (cstr (c_name c)) (fst (svc_abs s))"
    if "c_room c = room_of s p"
    unfolding assms(4) using eq that by (auto simp: svc_abs_def at rename_def) (auto simp: member_of_def)
  show "map (member_of t) (connected t) = change_room (sock_of s p) (c_room c) (fst (svc_abs s))"
    if "c_name c = name_of s p"
    unfolding assms(4) using eq that by (auto simp: svc_abs_def at change_room_def) (auto simp: member_of_def)
qed

lemma abs_frame:
  "heap t = heap s \<Longrightarrow> connected t = connected s \<Longrightarrow> svc_abs t = (fst (svc_abs s), sent t)"
  by (simp add: svc_abs_def member_of_frame [of t s])

lemma abs_pair:
  obtains ms where "svc_abs s = (ms, sent s)"
  by (simp add: svc_abs_def)

lemma distinct_sockets: "registry_ok s \<Longrightarrow> distinct (map fst (fst (svc_abs s)))"
  by (auto simp: registry_ok_def svc_abs_def member_of_def comp_def distinct_map)

lemma lookup_socket:
  assumes "registry_ok s" "p \<in> set (connected s)"
  shows "map_of (fst (svc_abs s)) (sock_of s p) = Some (cstr (name_of s p), room_of s p)"
proof (rule map_of_is_SomeI)
  show "distinct (map fst (fst (svc_abs s)))" using assms(1) by (rule distinct_sockets)
  show "(sock_of s p, cstr (name_of s p), room_of s p) \<in> set (fst (svc_abs s))"
    using assms(2) by (auto simp: svc_abs_def member_of_def)
qed

subsection \<open>The inputs an event brings\<close>

text \<open>
  Read off the event and where its handler stands, before the handler does anything.  The
  third words of a request, and a request without an id, are of no concern to the service.
\<close>

definition request_inputs :: "int \<Rightarrow> bytes \<Rightarrow> svc_input list" where
  "request_inputs sk d = (case scan_request (cstr d) of
      Inl e \<Rightarrow> []
    | Inr (mode, uid, pw) \<Rightarrow>
        (case mode of None \<Rightarrow> [] | Some m \<Rightarrow> (case uid of None \<Rightarrow> [] | Some u \<Rightarrow> [Ask sk m u])))"

fun inputs :: "server \<Rightarrow> event \<Rightarrow> svc_input list" where
  "inputs s (Accept p sk blk buf) =
     (if \<not> is_live (heap s p) \<and> length blk = NAME_SIZE \<and> length buf = BUF_SIZE
      then [Join sk (cstr blk)] else [])"
| "inputs s (Read p r) =
     (case r of
        Data d \<Rightarrow>
          if d = [] then []
          else if threads s p = H_Login \<and> length d < BUF_SIZE then request_inputs (sock_of s p) d
          else if threads s p = H_Chat \<and> length d \<le> BUF_SIZE
          then [Say (sock_of s p) d (drop (Suc (length d)) (msg_buf s p))]
          else []
      | _ \<Rightarrow> [])"
| "inputs s (Auth p) = []"
| "inputs s (Reply p) =
     (case threads s p of
        H_Reply mode uid result \<Rightarrow>
          [Verdict (sock_of s p) mode (case uid of Some u \<Rightarrow> cstr u | None \<Rightarrow> []) result]
      | _ \<Rightarrow> [])"
| "inputs s (Leave p) = (if threads s p = H_Leave then [Quit (sock_of s p)] else [])"

subsection \<open>Every event does what the service does on its inputs\<close>

lemma abs_accept:
  assumes "registry_ok s" "accept_clnt p sk blk buf s = Inr t" "\<not> is_live (heap s p)"
    "sk \<notin> sock_of s ` set (connected s)"
  shows "svc_do (Join sk (cstr blk)) (svc_abs s) = Some (svc_abs t)"
proof -
  note c = connected_accept [OF assms(1,2)]
  have "p \<notin> set (connected s)" using assms(1,3) by (simp add: registry_ok_def)
  then have "map (member_of t) (connected s) = map (member_of s) (connected s)"
    using c(2) by (auto simp: member_of_def sock_of_def name_of_def room_of_def)
  moreover have "member_of t p = (sk, cstr blk, 0)"
    using c(2) by (simp add: member_of_def sock_of_def name_of_def room_of_def)
  moreover have "sent t = sent s" "clnt_cnt s < MAX_CLNT"
    using assms(2) by (auto simp: accept_clnt_def Let_def store_client_def split: if_splits)
  moreover have "length (fst (svc_abs s)) \<le> clnt_cnt s" by (simp add: svc_abs_def connected_def)
  moreover have "sk \<notin> fst ` set (fst (svc_abs s))" using assms(4) by (simp add: fst_abs)
  ultimately show ?thesis
    using c(1) by (auto simp: svc_abs_def not_le)
qed

lemma live_client:
  assumes "registry_ok s" "threads s p \<noteq> H_None"
  obtains c where "heap s p = Live c" "p \<in> set (connected s)" "sock_of s p = c_sock c"
proof -
  have "is_live (heap s p)" using assms by (rule live_thread)
  then obtain c where "heap s p = Live c" by (auto simp: is_live_iff)
  moreover from this have "p \<in> set (connected s)" using assms(1) by (simp add: registry_ok_def)
  ultimately show ?thesis using that live_of by blast
qed

lemma enter_frame: "enter_chat p s = Inr t \<Longrightarrow> heap t = heap s \<and> connected t = connected s \<and> sent t = sent s"
  by (auto simp: enter_chat_def goto_def connected_def)

text \<open>A request changes no member; only a name in use is answered at once.\<close>

lemma scan_word_NUL: "scan_word s = Some (w, r) \<Longrightarrow> NUL \<notin> set s \<Longrightarrow> NUL \<notin> set w \<and> NUL \<notin> set r"
proof -
  assume a: "scan_word s = Some (w, r)" and n: "NUL \<notin> set s"
  have "skip_space s = w @ r"
    using a by (auto simp: scan_word_def Let_def split: if_splits)
  moreover have "set (skip_space s) \<subseteq> set s"
    by (auto simp: skip_space_def dest: set_dropWhileD)
  ultimately show ?thesis using n by auto
qed

lemma scan_field_NUL:
  "scan_field n s = Inr (f, r) \<Longrightarrow> NUL \<notin> set s \<Longrightarrow> NUL \<notin> set r \<and> (\<forall>w. f = Some w \<longrightarrow> NUL \<notin> set w)"
  by (auto simp: scan_field_def split: option.splits if_splits dest: scan_word_NUL)

lemma scan_request_NUL:
  assumes "scan_request (cstr d) = Inr (m, Some u, w)"
  shows "NUL \<notin> set u"
proof -
  obtain r r' where "scan_field 10 (cstr d) = Inr (m, r)" "scan_field 20 r = Inr (Some u, r')"
    using assms by (auto simp: scan_request_def)
  then show ?thesis using scan_field_NUL by (metis NUL_notin_cstr)
qed

lemma member_named:
  assumes "registry_ok s" "p \<in> set (connected s)"
  shows "(\<exists>m \<in> set (fst (svc_abs s)). fst m \<noteq> sock_of s p \<and> fst (snd m) = u) \<longleftrightarrow>
    (\<exists>q \<in> set (connected s). q \<noteq> p \<and> cstr (name_of s q) = u)"
proof -
  have "sock_of s q = sock_of s p \<longleftrightarrow> q = p" if "q \<in> set (connected s)" for q
    using assms that by (auto simp: registry_ok_def inj_on_def)
  then show ?thesis by (auto simp: svc_abs_def member_of_def)
qed

lemma abs_goto: "svc_abs (goto p h s) = svc_abs s"
  by (simp add: svc_abs_def connected_def member_of_frame [OF heap_frame(1)]) (simp add: goto_def)

lemma abs_write: "svc_abs (write_to k d s) = (fst (svc_abs s), sent s @ [(k, d)])"
  by (simp add: svc_abs_def connected_def member_of_frame [OF heap_frame(2)]) (simp add: write_to_def)

lemma abs_request:
  assumes "server_wf s" "threads s p \<noteq> H_None" "d \<noteq> []" "on_request p d s = Inr t"
  shows "perform svc_do (request_inputs (sock_of s p) d) (svc_abs s) = Some (svc_abs t)"
proof -
  have ok: "registry_ok s" "names_ok s" using assms(1) by (simp_all add: server_wf_def)
  obtain c where c: "heap s p = Live c" "p \<in> set (connected s)" "sock_of s p = c_sock c"
    using ok(1) assms(2) by (rule live_client)
  obtain m uid w where sc: "scan_request (cstr d) = Inr (Some m, uid, w)"
    using assms(3,4) by (auto simp: on_request_def split: option.splits)
  obtain b where b: "(if m = ''LOGIN'' then logged_in s (c_sock c) uid (connected s) else Inr False) = Inr b"
    and t: "t = (if b then goto p H_Leave (write_to (c_sock c) msg_dup_login s) else goto p (H_Auth m uid w) s)"
    using assms(3,4) sc c(1) by (auto simp: on_request_def connected_def split: if_splits)
  show ?thesis
  proof (cases uid)
    case None
    have "logged_in s k None qs = Inr x \<Longrightarrow> \<not> x" for k qs x
      by (induction qs) (auto split: if_splits)
    with None b have "\<not> b" by (auto split: if_splits)
    with t have "svc_abs t = svc_abs s" by (simp add: abs_goto)
    then show ?thesis using None sc by (simp add: request_inputs_def)
  next
    case (Some u)
    have "\<forall>q \<in> set (connected s). is_live (heap s q) \<and> terminated (name_of s q)"
      using ok by (simp add: registry_ok_def names_ok_def)
    moreover have "\<forall>q \<in> set (connected s). sock_of s q = sock_of s p \<longleftrightarrow> q = p"
      using ok(1) c(2) by (auto simp: registry_ok_def inj_on_def)
    moreover have "NUL \<notin> set u" using scan_request_NUL sc Some by blast
    ultimately have l: "logged_in s (sock_of s p) (Some u) (connected s)
        = Inr (\<exists>q \<in> set (connected s). q \<noteq> p \<and> cstr (name_of s q) = u)" by (intro logged_in_eq)
    have dup: "b \<longleftrightarrow> m = ''LOGIN'' \<and> (\<exists>m \<in> set (fst (svc_abs s)). fst m \<noteq> sock_of s p \<and> fst (snd m) = u)"
      unfolding member_named [OF ok(1) c(2)] using b l Some c(3) by (auto split: if_splits)
    have mem: "sock_of s p \<in> fst ` set (fst (svc_abs s))" using c(2) by (rule member_socket)
    have ask: "request_inputs (sock_of s p) d = [Ask (sock_of s p) m u]" using sc Some by (simp add: request_inputs_def)
    have a: "svc_abs t = (fst (svc_abs s), if b then sent s @ [(sock_of s p, msg_dup_login)] else sent s)"
      using t c(3) by (simp add: abs_goto abs_write) (simp add: svc_abs_def)
    obtain ms where ms: "svc_abs s = (ms, sent s)" by (rule abs_pair)
    show ?thesis
      using mem dup unfolding ask perform_one a unfolding ms fst_conv by simp
  qed
qed

lemma abs_enter: "enter_chat p s = Inr t \<Longrightarrow> svc_abs t = svc_abs s"
  using enter_frame [of p s t] abs_frame [of t s] by (simp add: svc_abs_def)

lemma abs_auth: "on_auth p m u w s = Inr t \<Longrightarrow> svc_abs t = svc_abs s"
  by (auto simp: on_auth_def svc_abs_def goto_def connected_def member_of_def sock_of_def name_of_def room_of_def)

text \<open>The name is stored and the welcome written before the handler enters the loop.\<close>

lemma abs_reply:
  assumes "registry_ok s" "threads s p \<noteq> H_None" "on_reply p m u r s = Inr t"
  shows "svc_do (Verdict (sock_of s p) m (case u of Some x \<Rightarrow> cstr x | None \<Rightarrow> []) r) (svc_abs s) = Some (svc_abs t)"
proof -
  obtain c where c: "heap s p = Live c" "p \<in> set (connected s)" "sock_of s p = c_sock c"
    using assms(1,2) by (rule live_client)
  note mem = member_socket [OF c(2)]
  show ?thesis
  proof (cases "r = 0 \<and> m = ''LOGIN''")
    case False
    let ?d = "if r = 0 then ''OK'' else if m = ''REGISTER'' then msg_id_exists
      else if r = -2 then msg_no_id else msg_bad_pw"
    have "heap t = heap s \<and> connected t = connected s \<and> sent t = sent s @ [(c_sock c, ?d)]"
    proof (cases "r = 0")
      case True
      with False assms(3) c have "enter_chat p (write_to (c_sock c) ''OK'' s) = Inr t"
        by (simp add: on_reply_def deref_def)
      from enter_frame [OF this] True show ?thesis by (simp add: connected_def write_to_def)
    next
      case no: False
      with assms(3) c(1) have "t = goto p H_Leave (write_to (c_sock c) ?d s)"
        by (simp add: on_reply_def deref_def)
      then show ?thesis by (simp add: connected_def goto_def write_to_def)
    qed
    then have "svc_abs t = (fst (svc_abs s), sent s @ [(sock_of s p, ?d)])"
      using abs_frame [of t s] c(3) by simp
    moreover obtain ms where ms: "svc_abs s = (ms, sent s)" by (rule abs_pair)
    ultimately show ?thesis
      using False mem unfolding ms fst_conv by (simp only: svc_do.simps if_False simp_thms)
  next
    case True
    with assms(3) c obtain x nm b where x: "u = Some x" "store_cstr (c_name c) x = Inr nm"
      and b: "store_cstr (msg_buf s p) (msg_welcome_1 @ cstr nm @ msg_welcome_2) = Inr b"
      and e: "enter_chat p (write_to (c_sock c) (cstr b) (store_client p (c\<lparr>c_name := nm\<rparr>)
          ((write_to (c_sock c) ''OK'' s)\<lparr>msg_buf := (msg_buf s)(p := b)\<rparr>))) = Inr t"
      by (auto simp: on_reply_def deref_def Let_def write_to_def split: option.splits)
    note f = enter_frame [OF e]
    have n: "cstr nm = cstr x"
      using x(2) by (auto simp: store_cstr_def cstr_append_NUL split: if_splits)
    have w: "cstr b = msg_welcome_1 @ cstr x @ msg_welcome_2"
      using cstr_store_cstr [OF b] n texts_no_nul by simp
    have h: "heap t = (heap s)(p := Live (c\<lparr>c_name := nm\<rparr>))" and k: "connected t = connected s"
      and o: "sent t = sent s @ [(c_sock c, ''OK''), (c_sock c, cstr b)]"
      using f by (simp_all add: connected_def store_client_def write_to_def)
    have "map (member_of t) (connected t) = rename (sock_of s p) (cstr nm) (fst (svc_abs s))"
      using abs_store(1) [OF assms(1) c(2) h k] c(3) live_of [OF c(1)] by simp
    then have "svc_abs t = (rename (sock_of s p) (cstr x) (fst (svc_abs s)), sent s @
        [(sock_of s p, ''OK''), (sock_of s p, msg_welcome_1 @ cstr x @ msg_welcome_2)])"
      using o w n c(3) by (simp add: svc_abs_def)
    moreover obtain ms where ms: "svc_abs s = (ms, sent s)" by (rule abs_pair)
    ultimately show ?thesis
      using True x(1) mem unfolding ms fst_conv by simp
  qed
qed

text \<open>Leaving: the struct of the last entry is freed.\<close>

lemma abs_leave:
  assumes "registry_ok s" "connected s \<noteq> []" "last (connected s) = p" "disconnect p s = Inr t"
  shows "svc_do (Quit (sock_of s p)) (svc_abs s) = Some (svc_abs t)"
proof -
  have t: "heap t = (heap s)(p := Freed)" "sent t = sent s"
    using assms(4) by (auto simp: disconnect_def goto_def)
  have con: "connected t = butlast (connected s)"
    by (rule registry_disconnect_last(2) [OF assms])
  have split: "connected s = butlast (connected s) @ [p]"
    using assms(2,3) by (metis append_butlast_last_id)
  have d: "distinct (connected s)" and inj: "inj_on (sock_of s) (set (connected s))"
    using assms(1) by (simp_all add: registry_ok_def)
  have p: "p \<notin> set (butlast (connected s))" using d by (subst (asm) split) simp
  then have "map (member_of t) (butlast (connected s)) = map (member_of s) (butlast (connected s))"
    using t(1) by (auto simp: member_of_def sock_of_def name_of_def room_of_def)
  then have a: "svc_abs t = (map (member_of s) (butlast (connected s)), sent s)"
    using con t(2) by (simp add: svc_abs_def)
  have "sock_of s q \<noteq> sock_of s p" if "q \<in> set (butlast (connected s))" for q
  proof -
    have "q \<in> set (connected s)" using that by (rule in_set_butlastD)
    moreover have "p \<in> set (connected s)" by (subst split) simp
    moreover have "q \<noteq> p" using that p by blast
    ultimately show ?thesis using inj by (auto dest: inj_onD)
  qed
  then have keep: "filter (\<lambda>m. fst m \<noteq> sock_of s p) (map (member_of s) (butlast (connected s)))
      = map (member_of s) (butlast (connected s))"
    by (auto simp: filter_id_conv member_of_def)
  have s: "svc_abs s = (map (member_of s) (butlast (connected s)) @ [member_of s p], sent s)"
    unfolding svc_abs_def by (subst split) simp
  show ?thesis
    unfolding a s using keep by (simp add: member_of_def)
qed

lemma audience_hearers:
  "map (\<lambda>q. (sock_of s q, x)) (audience s p) = map (\<lambda>k. (k, x)) (hearers (room_of s p) (fst (svc_abs s)))"
  by (simp add: audience_def hearers_def svc_abs_def member_of_def filter_map comp_def)

lemma starts_command: "starts ''/join'' d \<Longrightarrow> starts ''/'' d"
  by (cases d) auto

lemma abs_talk:
  assumes "server_wf s" "threads s p = H_Chat" "length d < BUF_SIZE" "\<not> starts ''/'' d" "on_message p d s = Inr t"
  shows "svc_do (Say (sock_of s p) d old) (svc_abs s) = Some (svc_abs t)"
proof -
  obtain c where p: "p \<in> set (connected s)" and ok: "registry_ok s" using assms(1,2) by (rule chat_thread)
  have t: "heap t = heap s" "connected t = connected s" "sent t = sent s @ map (\<lambda>q. (sock_of s q,
      spoken (cstr (name_of s p)) d)) (audience s p)"
    using on_message_plain [OF assms(1-4)] assms(5) by (auto simp: spoken_def)
  have "\<not> starts ''/join'' d" using assms(4) starts_command by blast
  moreover obtain ms where ms: "svc_abs s = (ms, sent s)" by (rule abs_pair)
  ultimately show ?thesis
    using assms(4) lookup_socket [OF ok p] unfolding abs_frame [OF t(1,2)] t(3) audience_hearers
    unfolding ms fst_conv by (simp del: starts.simps)
qed

text \<open>A command: \<^verbatim>\<open>/join\<close> moves, any other is dropped.\<close>

lemma abs_command:
  assumes "registry_ok s" "threads s p \<noteq> H_None" "starts ''/'' d" "length d < length (msg_buf s p)"
    "on_message p d s = Inr t"
  shows "svc_do (Say (sock_of s p) d (drop (Suc (length d)) (msg_buf s p))) (svc_abs s) = Some (svc_abs t)"
proof -
  obtain c where c: "heap s p = Live c" "p \<in> set (connected s)" "sock_of s p = c_sock c"
    using assms(1,2) by (rule live_client)
  let ?m = "d @ NUL # drop (Suc (length d)) (msg_buf s p)"
  have b: "set_byte (fill (msg_buf s p) d) (int (length d)) NUL = Inr ?m"
    by (rule received [OF assms(4)])
  have sl: "starts ''/'' ?m = starts ''/'' d" "starts ''/join'' ?m = starts ''/join'' d"
    by (rule starts_snoc, simp)+
  let ?s = "s\<lparr>msg_buf := (msg_buf s)(p := ?m)\<rparr>"
  note look = lookup_socket [OF assms(1) c(2)]
  show ?thesis
  proof (cases "starts ''/join'' d")
    case False
    with assms(3,5) b sl have "t = ?s" by (simp add: on_message_def)
    then have "svc_abs t = svc_abs s"
      by (simp add: svc_abs_def connected_def member_of_def sock_of_def name_of_def room_of_def)
    moreover obtain ms where ms: "svc_abs s = (ms, sent s)" by (rule abs_pair)
    ultimately show ?thesis
      using False assms(3) look unfolding ms fst_conv by (simp del: starts.simps)
  next
    case True
    with assms(3,5) b sl c(1) obtain r b' where r: "atoi_mem (drop 6 ?m) = Inr r"
      and b': "store_cstr ?m (msg_moved_1 @ show_int r @ msg_moved_2) = Inr b'"
      and t: "t = write_to (c_sock c) (cstr b')
        (store_client p (c\<lparr>c_room := r\<rparr>) (?s\<lparr>msg_buf := (msg_buf ?s)(p := b')\<rparr>))"
      by (auto simp: on_message_def Let_def deref_def simp del: starts.simps)
    have "NUL \<notin> set (show_int r)" using show_int_plain by blast
    then have w: "cstr b' = msg_moved_1 @ show_int r @ msg_moved_2"
      using cstr_store_cstr [OF b'] texts_no_nul by simp
    have h: "heap t = (heap s)(p := Live (c\<lparr>c_room := r\<rparr>))" "connected t = connected s"
      "sent t = sent s @ [(c_sock c, cstr b')]"
      using t by (simp_all add: connected_def store_client_def write_to_def)
    have "map (member_of t) (connected t) = change_room (sock_of s p) r (fst (svc_abs s))"
      using abs_store(2) [OF assms(1) c(2) h(1,2)] c(3) live_of [OF c(1)] by simp
    then have "svc_abs t = (change_room (sock_of s p) r (fst (svc_abs s)),
        sent s @ [(sock_of s p, msg_moved_1 @ show_int r @ msg_moved_2)])"
      using h(3) w c(3) by (simp add: svc_abs_def)
    moreover obtain ms where ms: "svc_abs s = (ms, sent s)" by (rule abs_pair)
    ultimately show ?thesis
      using True look r unfolding ms fst_conv by (simp del: starts.simps)
  qed
qed

lemma abs_message:
  assumes "server_wf s" "threads s p = H_Chat" "length d \<le> BUF_SIZE" "d \<noteq> []" "on_message p d s = Inr t"
  shows "svc_do (Say (sock_of s p) d (drop (Suc (length d)) (msg_buf s p))) (svc_abs s) = Some (svc_abs t)"
proof -
  obtain c where c: "length (msg_buf s p) = BUF_SIZE" "registry_ok s" using assms(1,2) by (rule chat_thread)
  have "length d \<noteq> BUF_SIZE"
    using assms(5) fill_terminate_overrun [of d "msg_buf s p"] c(1) by (auto simp: on_message_def BUF_SIZE_def)
  then have len: "length d < BUF_SIZE" using assms(3) by simp
  show ?thesis
  proof (cases "starts ''/'' d")
    case True
    with c assms(2,5) len abs_command [of s p d t] show ?thesis by simp
  next
    case False
    with assms len abs_talk show ?thesis by blast
  qed
qed

subsection \<open>The refinement\<close>

lemma exec_commutes:
  assumes wf: "server_wf s" and e: "tidy s e" and t: "exec s e = Inr t"
  shows "perform svc_do (inputs s e) (svc_abs s) = Some (svc_abs t)"
proof -
  have ok: "registry_ok s" using wf by (simp add: server_wf_def)
  show ?thesis
  proof (cases e)
    case (Accept p sk blk buf)
    with e t abs_accept [OF ok] show ?thesis
      by (auto simp: tidy_def orderly_def perform_one simp del: svc_do.simps perform.simps(2) split: if_splits)
  next
    case (Read p x)
    note step = t [unfolded Read exec.simps(2)]
    consider (login) "threads s p = H_Login" | (chat) "threads s p = H_Chat"
      | (other) "threads s p \<noteq> H_Login" "threads s p \<noteq> H_Chat" by blast
    then show ?thesis
    proof cases
      case login
      show ?thesis
      proof (cases "\<exists>d. x = Data d \<and> d \<noteq> [] \<and> length d < BUF_SIZE")
        case True
        then obtain d where d: "x = Data d" "d \<noteq> []" "length d < BUF_SIZE" by blast
        with login step have "on_request p d s = Inr t" by simp
        with d login Read abs_request [OF wf] show ?thesis by simp
      next
        case False
        with login step have "t = s \<or> enter_chat p s = Inr t"
          by (cases x) (auto simp: on_request_def)
        then have "svc_abs t = svc_abs s" using abs_enter by blast
        with False login Read show ?thesis by (cases x) auto
      qed
    next
      case chat
      show ?thesis
      proof (cases "\<exists>d. x = Data d \<and> d \<noteq> [] \<and> length d \<le> BUF_SIZE")
        case True
        then obtain d where d: "x = Data d" "d \<noteq> []" "length d \<le> BUF_SIZE" by blast
        with chat step have "on_message p d s = Inr t" by (simp add: on_read_def)
        with d chat Read abs_message [OF wf chat] show ?thesis
          by (simp add: perform_one del: svc_do.simps perform.simps(2))
      next
        case False
        with chat step have "t = s \<or> t = goto p H_Leave s"
          by (cases x) (auto simp: on_read_def)
        then have "svc_abs t = svc_abs s" using abs_goto by blast
        with False chat Read show ?thesis by (cases x) auto
      qed
    next
      case other
      with step have "t = s" by (cases "threads s p") simp_all
      with other Read show ?thesis by (cases x) simp_all
    qed
  next
    case (Auth p)
    with t have "t = s \<or> (\<exists>m u w. on_auth p m u w s = Inr t)" by (auto split: handler.splits)
    then have "svc_abs t = svc_abs s" using abs_auth by blast
    with Auth show ?thesis by simp
  next
    case (Reply p)
    show ?thesis
    proof (cases "\<exists>m u r. threads s p = H_Reply m u r")
      case True
      then obtain m u r where h: "threads s p = H_Reply m u r" by blast
      with t Reply have "on_reply p m u r s = Inr t" by simp
      with h Reply abs_reply [OF ok, of p m u r t] show ?thesis
        by (simp add: perform_one del: svc_do.simps perform.simps(2))
    next
      case False
      with t Reply have "t = s" by (cases "threads s p") auto
      with False Reply show ?thesis by (cases "threads s p") auto
    qed
  next
    case (Leave p)
    show ?thesis
    proof (cases "threads s p = H_Leave")
      case True
      with e t Leave abs_leave [OF ok, of p t] show ?thesis
        by (simp add: tidy_def orderly_def perform_one del: svc_do.simps perform.simps(2))
    next
      case False
      with t Leave have "t = s" by (cases "threads s p") auto
      with False Leave show ?thesis by simp
    qed
  qed
qed

text \<open>The run as events: those of the orderly runs with initialised blocks.\<close>

definition chat_step :: "server \<Rightarrow> event \<Rightarrow> server \<Rightarrow> bool" where
  "chat_step s e t \<longleftrightarrow> tidy s e \<and> exec s e = Inr t"

interpretation chat: labelled_refinement chat_step "\<lambda>s e t. inputs s e" server_wf svc_do svc_abs
  using exec_wf exec_commutes by unfold_locales (auto simp: chat_step_def)

text \<open>The inputs of a run, in order.\<close>

fun run_inputs :: "server \<Rightarrow> event list \<Rightarrow> svc_input list" where
  "run_inputs s [] = []"
| "run_inputs s (e # es) =
     inputs s e @ (case exec s e of Inl x \<Rightarrow> [] | Inr t \<Rightarrow> run_inputs t es)"

lemma run_chat_steps:
  "tidy_run s es \<Longrightarrow> run s es = Inr t \<Longrightarrow> run_of chat_step (\<lambda>s e t. inputs s e) s es (run_inputs s es) t"
proof (induction es arbitrary: s)
  case Nil
  then show ?case by (simp add: run_nil)
next
  case (Cons e es)
  from Cons.prems(2) obtain u where u: "exec s e = Inr u" "run u es = Inr t" by auto
  with Cons.prems(1) have "chat_step s e u" "tidy_run u es" by (simp_all add: chat_step_def)
  with run_cons [where label = "\<lambda>s e t. inputs s e", OF _ Cons.IH [of u]] u show ?case by simp
qed

text \<open>
  Property C3.  The server implements the service of rooms: take any run from the start with
  initialised blocks in which clients leave in the reverse order of their arrival, and list
  what comes in: connections, requests with their mode and id, the results of
  \<^verbatim>\<open>process_auth\<close>, lines, departures.  The service takes these inputs and ends with exactly
  the server's members (sockets, names, rooms, in the order of their arrival) and exactly the
  messages the server has written, each to the same socket and in the same order: the refusal
  of a name in use, the \<open>OK\<close> and the welcome under the new name or the reason of a failure, the
  answer to \<^verbatim>\<open>/join\<close> with its number, and every other line, under its speaker's name, to the
  named members of the speaker's room.  No two members share a socket, the registry lists
  exactly the live structs, the names are terminated strings and every handler's buffer has
  its size.
\<close>

theorem chat_refines_rooms:
  assumes "tidy_run (server_init f) es" and "run (server_init f) es = Inr t"
  shows "perform svc_do (run_inputs (server_init f) es) ([], []) = Some (svc_abs t)
    \<and> distinct (map fst (fst (svc_abs t))) \<and> server_wf t"
proof (intro conjI)
  note steps = run_chat_steps [OF assms]
  have "svc_abs (server_init f) = ([], [])"
    by (simp add: svc_abs_def connected_def server_init_def)
  then show "perform svc_do (run_inputs (server_init f) es) ([], []) = Some (svc_abs t)"
    using chat.run_commutes [OF steps init_wf] by simp
  show wf: "server_wf t" by (rule chat.run_keeps [OF steps init_wf])
  then show "distinct (map fst (fst (svc_abs t)))"
    by (intro distinct_sockets) (simp add: server_wf_def)
qed

lemma two_clients_inputs:
  "run_inputs (server_init (Some users_txt)) two_clients =
     [Join 4 [], Ask 4 ''LOGIN'' ''user1'', Verdict 4 ''LOGIN'' ''user1'' 0,
      Join 5 [], Ask 5 ''LOGIN'' ''user2'', Verdict 5 ''LOGIN'' ''user2'' 0]"
  by code_simp

lemma run_snoc: "run s es = Inr t \<Longrightarrow> exec t e = Inr u \<Longrightarrow> run s (es @ [e]) = Inr u"
  by (induction es arbitrary: s) auto

lemma tidy_run_snoc: "tidy_run s es \<Longrightarrow> run s es = Inr t \<Longrightarrow> tidy t e \<Longrightarrow> tidy_run s (es @ [e])"
  by (induction es arbitrary: s) (auto split: sum.splits)

lemma run_inputs_snoc: "run s es = Inr t \<Longrightarrow> run_inputs s (es @ [e]) = run_inputs s es @ inputs t e"
  by (induction es arbitrary: s) (auto split: sum.splits)

theorem chat_refines_rooms_witness:
  "\<exists>t. run (server_init (Some users_txt)) (two_clients @ [Read 1 (Data ''hi'')]) = Inr t
     \<and> svc_abs t = ([(4, ''user1'', 0), (5, ''user2'', 0)],
         [(4, ''OK''), (4, msg_welcome_1 @ ''user1'' @ msg_welcome_2),
          (5, ''OK''), (5, msg_welcome_1 @ ''user2'' @ msg_welcome_2),
          (4, ''[user1] hi''), (5, ''[user1] hi'')])"
proof -
  let ?e = "Read 1 (Data ''hi'')"
  obtain t where t: "exec two_users ?e = Inr t"
    using on_message_plain [OF two_users_wf two_users_state(2), of "''hi''"] two_users_state(2)
    by (auto simp: on_read_def BUF_SIZE_def simp del: One_nat_def)
  have tidy: "tidy_run (server_init (Some users_txt)) (two_clients @ [?e])"
    by (rule tidy_run_snoc [OF two_clients_tidy two_clients_run]) (simp add: tidy_def orderly_def)
  note run = run_snoc [OF two_clients_run t]
  obtain old where i: "inputs two_users ?e = [Say 4 ''hi'' old]"
    using two_users_state(2,4) by (simp add: BUF_SIZE_def del: One_nat_def)
  have "perform svc_do (run_inputs (server_init (Some users_txt)) (two_clients @ [?e])) ([], []) = Some (svc_abs t)"
    using chat_refines_rooms [OF tidy run] by (rule conjunct1)
  then show ?thesis
    using run unfolding run_inputs_snoc [OF two_clients_run] two_clients_inputs i
    by (simp add: rename_def hearers_def spoken_def MAX_CLNT_def)
qed

lemma inputs_cases:
  obtains "inputs s e = []" | l where "inputs s e = [l]"
proof (cases "inputs s e")
  case (Cons l ls)
  have "length (inputs s e) \<le> 1"
    by (cases e) (auto simp: request_inputs_def split: read_result.splits handler.splits sum.splits option.splits)
  with Cons that show ?thesis by simp
qed (use that in simp)

text \<open>
  Property C5.  Rooms do not leak: whatever a handler does, everything it writes goes to
  clients that are connected and in one and the same room.
\<close>

theorem one_room_per_event:
  assumes "server_wf s" and "tidy s e" and "exec s e = Inr t"
  shows "\<exists>room new. sent t = sent s @ new
    \<and> (\<forall>x \<in> set new. \<exists>q \<in> set (connected s). sock_of s q = fst x \<and> room_of s q = room)"
proof -
  have member: "\<exists>q \<in> set (connected s). sock_of s q = k \<and> room_of s q = room"
    if "(k, nm, room) \<in> set (fst (svc_abs s))" for k nm room
    using that by (auto simp: svc_abs_def member_of_def)
  note step = exec_commutes [OF assms]
  obtain ms ms' where ms: "svc_abs s = (ms, sent s)" "svc_abs t = (ms', sent t)"
    by (simp add: svc_abs_def)
  show ?thesis
  proof (rule inputs_cases [of s e])
    assume "inputs s e = []"
    with step ms have "sent t = sent s @ []" by simp
    then show ?thesis by fastforce
  next
    fix l assume "inputs s e = [l]"
    with step have "svc_do l (ms, sent s) = Some (ms', sent t)" unfolding ms by (simp only: perform_one)
    from svc_do_one_room [OF this] show ?thesis using member unfolding ms fst_conv by fastforce
  qed
qed

theorem one_room_per_event_witness:
  "\<exists>t room new. exec two_users (Read 1 (Data ''hi'')) = Inr t \<and> sent t = sent two_users @ new
    \<and> (\<forall>x \<in> set new. \<exists>q \<in> set (connected two_users). sock_of two_users q = fst x \<and> room_of two_users q = room)"
proof -
  obtain t where t: "exec two_users (Read 1 (Data ''hi'')) = Inr t"
    using on_message_plain [OF two_users_wf two_users_state(2), of "''hi''"] two_users_state(2)
    by (auto simp: on_read_def BUF_SIZE_def simp del: One_nat_def)
  have "tidy two_users (Read 1 (Data ''hi''))" by (simp add: tidy_def orderly_def)
  from one_room_per_event [OF two_users_wf this t] t show ?thesis by blast
qed

end
