(* ===== verification/Chat_System.thy ===== *)
theory Chat_System
  imports Chat_Window Chat_Service
begin

section \<open>The messenger end to end\<close>

text \<open>
  \<^verbatim>\<open>project2\<close> as its users see it: the server of \<^verbatim>\<open>gui_server.c\<close> and, for every connected
  client, a window of \<^verbatim>\<open>gui_client.c\<close>.  A user acts on a window; what the callback writes is
  read by that client's handler, one \<^verbatim>\<open>read\<close> for each \<^verbatim>\<open>write\<close>; what the handler writes is
  read by the receiving threads in the same way, and the main loops show it.  That a stream
  socket need not keep these boundaries is the subject of the last part.
\<close>

subsection \<open>Composition\<close>

text \<open>What a callback wrote, and what a server step wrote to the client of \<open>q\<close>.\<close>

definition writes :: "window \<Rightarrow> window \<Rightarrow> bytes list" where
  "writes g g' = map snd (drop (length (w_sent g)) (w_sent g'))"

definition delivered_to :: "server \<Rightarrow> server \<Rightarrow> nat \<Rightarrow> bytes list" where
  "delivered_to s t q = map snd (filter (\<lambda>(k, m). k = sock_of t q) (drop (length (sent s)) (sent t)))"

text \<open>The main loop shows everything that was handed over.\<close>

definition idle :: "window \<Rightarrow> window" where
  "idle g = (update_ui ^^ length (pending g)) g"

text \<open>Every client receives what was written to it; every file can be created.\<close>

fun deliver :: "server \<Rightarrow> server \<Rightarrow> nat list \<Rightarrow> (nat \<Rightarrow> window) \<Rightarrow> (nat \<Rightarrow> window) cres" where
  "deliver s t [] ws = Inr ws"
| "deliver s t (q # qs) ws =
     cbind (recv_msg (delivered_to s t q) (\<lambda>_. True) (ws q)) (\<lambda>g. deliver s t qs (ws(q := idle g)))"

text \<open>The user of client \<open>p\<close> acts on the window.\<close>

definition act :: "nat \<Rightarrow> (window \<Rightarrow> window cres) \<Rightarrow> server \<times> (nat \<Rightarrow> window) \<Rightarrow> (server \<times> (nat \<Rightarrow> window)) cres" where
  "act p f x = (case x of (s, ws) \<Rightarrow>
     cbind (f (ws p)) (\<lambda>g.
     cbind (run s (map (\<lambda>d. Read p (Data d)) (writes (ws p) g))) (\<lambda>t.
     cbind (deliver s t (connected t) (ws(p := g))) (\<lambda>ws'. Inr (t, ws')))))"

definition listening :: "server \<Rightarrow> (nat \<Rightarrow> window) \<Rightarrow> bool" where
  "listening s ws \<longleftrightarrow> (\<forall>q \<in> set (connected s). chat_open (ws q) \<and> pending (ws q) = [])"

lemma listening_at: "listening s ws \<Longrightarrow> q \<in> set (connected s) \<Longrightarrow> pending (ws q) = []"
  by (simp add: listening_def)

subsection \<open>Logging in\<close>

lemma refusals_text:
  "\<not> starts ''OK'' msg_no_id" "\<not> starts ''OK'' msg_bad_pw" "\<not> starts ''OK'' msg_dup_login"
  "NUL \<notin> set msg_no_id" "NUL \<notin> set msg_bad_pw" "NUL \<notin> set msg_dup_login"
  by (code_simp, code_simp, code_simp, code_simp, code_simp, code_simp)

lemma answers_plain:
  "starts ''OK'' (cstr ''OK'')" "\<not> starts ''OK'' (cstr msg_no_id)" "\<not> starts ''OK'' (cstr msg_bad_pw)"
  "\<not> starts ''OK'' (cstr msg_dup_login)"
  "cstr msg_no_id = msg_no_id" "cstr msg_bad_pw = msg_bad_pw" "cstr msg_dup_login = msg_dup_login"
  using refusals_text by (simp_all add: cstr_no_nul)

lemma not_taken: "\<not> name_taken s p uid \<longleftrightarrow> (\<forall>q \<in> set (connected s). q \<noteq> p \<longrightarrow> cstr (name_of s q) \<noteq> uid)"
  by (auto simp: name_taken_def)

text \<open>The handler's part, a name in use included: it is refused at the request, and the
  handler is no longer where the other two events happen.\<close>

lemma login_answered:
  assumes "server_wf s" "threads s p = H_Login" "file_ok (users_file s)" "field_ok uid" "field_ok pw"
    and req: "req = ''LOGIN'' @ SP # uid @ SP # pw"
  shows "\<exists>t. run s [Read p (Data req), Auth p, Reply p] = Inr t \<and>
    (if \<not> name_taken s p uid \<and> accounts (users_file s) uid = Some pw
     then threads t p = H_Chat \<and> cstr (name_of t p) = uid
       \<and> sent t = sent s @ [(sock_of s p, ''OK''), (sock_of s p, msg_welcome_1 @ uid @ msg_welcome_2)]
     else threads t p = H_Leave \<and> sent t = sent s @ [(sock_of s p,
       if name_taken s p uid then msg_dup_login
       else if accounts (users_file s) uid = None then msg_no_id else msg_bad_pw)])"
proof (cases "name_taken s p uid")
  case False
  with login_steps [OF assms(1-5)] show ?thesis unfolding req by (auto simp del: run.simps)
next
  case True
  let ?t = "goto p H_Leave (write_to (sock_of s p) msg_dup_login s)"
  have "exec s (Read p (Data req)) = Inr ?t"
    unfolding req by (rule duplicate_login_refused [OF assms(1,2,4,5) True])
  moreover have "exec ?t (Auth p) = Inr ?t" "exec ?t (Reply p) = Inr ?t" by simp_all
  ultimately have "run s [Read p (Data req), Auth p, Reply p] = Inr ?t"
    by (simp del: exec.simps)
  with True show ?thesis by (intro exI [of _ ?t]) (simp del: run.simps)
qed

text \<open>
  Property C28.  Login end to end: what \<^verbatim>\<open>on_login_clicked\<close> writes, read by a handler that waits
  for it, is answered by the server so that the window opens the chat under the id, and the
  server has the client under the same id in its message loop, exactly when no other connected
  client has the id and the user file holds it with that password; otherwise the window shows
  the server's reason (the id is in use, is unknown, or the password is wrong), closes its
  socket and stays where it was, and the handler goes to \<^verbatim>\<open>DISCONNECT\<close>.  The id and the password
  fit their arrays and are words, the user file has one line of three such words per account.
\<close>

theorem login_end_to_end:
  assumes "server_wf s" and "threads s p = H_Login" and "file_ok (users_file s)"
    and "field_ok uid" and "field_ok pw"
    and "drop (NAME_SIZE - 1) (w_name g) = [NUL]"
  shows "\<exists>req t reply g'. on_login_clicked uid pw (Some sk) (Some reply) g = Inr g'
    \<and> w_sent g' = w_sent g @ [(sk, req)] \<and> run s [Read p (Data req), Auth p, Reply p] = Inr t
    \<and> sent t ! length (sent s) = (sock_of s p, reply) \<and>
    (if accounts (users_file s) uid = Some pw
        \<and> (\<forall>q \<in> set (connected s). q \<noteq> p \<longrightarrow> cstr (name_of s q) \<noteq> uid)
     then chat_open g' \<and> cstr (w_name g') = uid \<and> w_sock g' = sk
       \<and> threads t p = H_Chat \<and> cstr (name_of t p) = uid
     else chat_open g' = chat_open g \<and> w_closed g' = w_closed g @ [sk] \<and> threads t p = H_Leave
       \<and> sent t = sent s @ [(sock_of s p, reply)]
       \<and> dialogs g' = dialogs g @ [Alert
           (if \<exists>q \<in> set (connected s). q \<noteq> p \<and> cstr (name_of s q) = uid then msg_dup_login
            else if accounts (users_file s) uid = None then msg_no_id else msg_bad_pw)])"
proof -
  let ?free = "\<not> name_taken s p uid" and ?acc = "accounts (users_file s) uid"
  let ?reply = "if ?free \<and> ?acc = Some pw then ''OK'' else if name_taken s p uid then msg_dup_login
    else if ?acc = None then msg_no_id else msg_bad_pw"
  let ?req = "''LOGIN'' @ SP # uid @ SP # pw"
  obtain t where t: "run s [Read p (Data ?req), Auth p, Reply p] = Inr t"
    "if ?free \<and> ?acc = Some pw then threads t p = H_Chat \<and> cstr (name_of t p) = uid
       \<and> sent t = sent s @ [(sock_of s p, ''OK''), (sock_of s p, msg_welcome_1 @ uid @ msg_welcome_2)]
     else threads t p = H_Leave \<and> sent t = sent s @ [(sock_of s p,
       if name_taken s p uid then msg_dup_login else if ?acc = None then msg_no_id else msg_bad_pw)]"
    using login_answered [OF assms(1-5) refl] by blast
  obtain g' where g': "on_login_clicked uid pw (Some sk) (Some ?reply) g = Inr g'" "w_sent g' = w_sent g @ [(sk, ?req)]"
    "if starts ''OK'' (cstr ?reply) then chat_open g' \<and> cstr (w_name g') = uid \<and> w_sock g' = sk
       else w_closed g' = w_closed g @ [sk] \<and> dialogs g' = dialogs g @ [Alert (cstr ?reply)]
         \<and> chat_open g' = chat_open g"
    using login_request_understood [OF assms(4,5,6), of sk ?reply] by blast
  have "sent t ! length (sent s) = (sock_of s p, ?reply)"
    using t(2) by (simp split: if_splits)
  then show ?thesis
    unfolding name_taken_def [symmetric] not_taken [symmetric] using t g' answers_plain
    by (intro exI [of _ ?req] exI [of _ t] exI [of _ ?reply] exI [of _ g'] conjI)
      (simp_all split: if_splits)
qed

text \<open>The third client logs in under a free name, or is refused under one in use.\<close>

theorem login_end_to_end_witness:
  "(\<exists>req t reply g'. on_login_clicked ''user3'' ''1234'' (Some 7) (Some reply) blank_window = Inr g'
     \<and> run third_joined [Read 3 (Data req), Auth 3, Reply 3] = Inr t \<and> sent t ! length (sent third_joined) = (6, reply)
     \<and> chat_open g' \<and> cstr (w_name g') = ''user3'' \<and> cstr (name_of t 3) = ''user3'')
   \<and> (\<exists>req t reply g'. on_login_clicked ''user1'' ''1234'' (Some 7) (Some reply) blank_window = Inr g'
     \<and> run third_joined [Read 3 (Data req), Auth 3, Reply 3] = Inr t
     \<and> \<not> chat_open g' \<and> dialogs g' = [Alert msg_dup_login] \<and> threads t 3 = H_Leave)"
proof -
  have acc: "accounts (Some users_txt) ''user3'' = Some ''1234''"
    by (simp add: accounts_def users_txt_def file_pairs_user_lines users_ok_def field_ok_examples)
  have f: "file_ok (users_file third_joined)" using users_txt_ok third_joined_state(3) by simp
  have w: "drop (NAME_SIZE - 1) (w_name blank_window) = [NUL]" "\<not> chat_open blank_window" "dialogs blank_window = []"
    by (simp_all add: blank_window_def NAME_SIZE_def)
  note r = login_end_to_end [OF third_joined_state(1,2) f _ _ w(1), folded not_taken name_taken_def]
  note r1 = r [OF field_ok_examples(3,5), of 7] and r2 = r [OF field_ok_examples(1,5), of 7]
  show ?thesis
  proof
    from r1 show "\<exists>req t reply g'. on_login_clicked ''user3'' ''1234'' (Some 7) (Some reply) blank_window = Inr g'
        \<and> run third_joined [Read 3 (Data req), Auth 3, Reply 3] = Inr t \<and> sent t ! length (sent third_joined) = (6, reply)
        \<and> chat_open g' \<and> cstr (w_name g') = ''user3'' \<and> cstr (name_of t 3) = ''user3''"
      unfolding third_joined_state(3,6) using acc third_names(2)
      by (elim exE conjE) (intro exI conjI; simp del: run.simps; elim conjE, assumption)
    from r2 obtain req t reply g' where
      "on_login_clicked ''user1'' ''1234'' (Some 7) (Some reply) blank_window = Inr g'"
      "run third_joined [Read 3 (Data req), Auth 3, Reply 3] = Inr t"
      "\<not> chat_open g' \<and> dialogs g' = [Alert msg_dup_login] \<and> threads t 3 = H_Leave"
      using third_names(1) w(2,3) by (auto simp del: run.simps)
    then show "\<exists>req t reply g'. on_login_clicked ''user1'' ''1234'' (Some 7) (Some reply) blank_window = Inr g'
        \<and> run third_joined [Read 3 (Data req), Auth 3, Reply 3] = Inr t
        \<and> \<not> chat_open g' \<and> dialogs g' = [Alert msg_dup_login] \<and> threads t 3 = H_Leave" by blast
  qed
qed

subsection \<open>Delivery\<close>

lemma update_ui_iter:
  "chat_open g \<Longrightarrow> pending g = ms \<Longrightarrow>
   (update_ui ^^ length ms) g = g\<lparr>pending := [], view := view g @ concat (map (\<lambda>m. m @ [NL]) ms)\<rparr>"
proof (induction ms arbitrary: g)
  case (Cons m ms)
  then show ?case by (simp add: funpow_Suc_right update_ui_def del: funpow.simps)
qed simp

lemma idle_eq:
  "chat_open g \<Longrightarrow> idle g = g\<lparr>pending := [], view := view g @ concat (map (\<lambda>m. m @ [NL]) (pending g))\<rparr>"
  by (simp add: idle_def update_ui_iter)

lemma deliver_eq:
  assumes "distinct qs" "\<forall>q \<in> set qs. recv_msg (delivered_to s t q) (\<lambda>_. True) (ws q) = Inr (G q)"
  shows "deliver s t qs ws = Inr (\<lambda>q. if q \<in> set qs then idle (G q) else ws q)"
  using assms
proof (induction qs arbitrary: ws)
  case (Cons q qs)
  then have "deliver s t (q # qs) ws = deliver s t qs (ws(q := idle (G q)))" by simp
  also have "\<dots> = Inr (\<lambda>x. if x \<in> set qs then idle (G x) else (ws(q := idle (G q))) x)"
    using Cons.prems by (intro Cons.IH) auto
  also have "(\<lambda>x. if x \<in> set qs then idle (G x) else (ws(q := idle (G q))) x)
      = (\<lambda>x. if x \<in> set (q # qs) then idle (G x) else ws x)"
    using Cons.prems(1) by auto
  finally show ?case .
qed simp

lemma filter_sockets:
  assumes "inj_on f (insert q (set qs))" "distinct qs"
  shows "filter (\<lambda>(k, m). k = f q) (map (\<lambda>x. (f x, d)) qs) = (if q \<in> set qs then [(f q, d)] else [])"
  using assms
proof (induction qs)
  case (Cons x qs)
  have "inj_on f (insert q (set qs))" using Cons.prems(1) by (rule inj_on_subset) auto
  moreover have "f x = f q \<longleftrightarrow> x = q" using inj_onD [OF Cons.prems(1), of x q] by auto
  ultimately show ?case using Cons by (cases "x = q") simp_all
qed simp

lemma arrives_broadcast:
  assumes "registry_ok s" "sock_of t = sock_of s" "q \<in> set (connected s)"
    "sent t = sent s @ map (\<lambda>x. (sock_of s x, d)) (audience s p)"
  shows "delivered_to s t q = (if q \<in> set (audience s p) then [d] else [])"
proof -
  have "inj_on (sock_of s) (set (connected s))" "distinct (connected s)"
    using assms(1) by (simp_all add: registry_ok_def)
  moreover have "insert q (set (audience s p)) \<subseteq> set (connected s)"
    using assms(3) by (auto simp: audience_def)
  ultimately have "inj_on (sock_of s) (insert q (set (audience s p)))" "distinct (audience s p)"
    using inj_on_subset by (blast, simp add: audience_def)
  note flt = filter_sockets [OF this]
  have "drop (length (sent s)) (sent t) = map (\<lambda>x. (sock_of s x, d)) (audience s p)"
    using assms(4) by simp
  then show ?thesis unfolding delivered_to_def assms(2) by (simp only: flt) simp
qed

lemma sock_of_frame: "heap t = heap s \<Longrightarrow> sock_of t = sock_of s"
  by (simp add: sock_of_def fun_eq_iff)

text \<open>What one client does with what was broadcast.\<close>

lemma name_length:
  assumes "server_wf s" "p \<in> set (connected s)"
  shows "length (cstr (name_of s p)) < NAME_SIZE" "NUL \<notin> set (cstr (name_of s p))"
proof -
  have "terminated (name_of s p)" "length (name_of s p) = NAME_SIZE"
    using assms by (simp_all add: server_wf_def names_ok_def registry_ok_def)
  then show "length (cstr (name_of s p)) < NAME_SIZE" using length_cstr_less by metis
  show "NUL \<notin> set (cstr (name_of s p))" by simp
qed

text \<open>The window after the main loop has shown what was pending and then \<open>ms\<close>.\<close>

definition flushed :: "window \<Rightarrow> bytes list \<Rightarrow> window" where
  "flushed g ms = g\<lparr>pending := [], view := view g @ concat (map (\<lambda>m. m @ [NL]) (pending g @ ms))\<rparr>"

lemma hear_line:
  assumes "NUL \<notin> set d" "d \<noteq> []" "length d < BUF_SIZE" "\<not> starts ''[FILE]'' d" "chat_open g"
  shows "\<exists>g'. recv_msg (if b then [d] else []) f g = Inr g' \<and> idle g' = flushed g (if b then [d] else [])"
proof (cases b)
  case True
  have "recv_msg [d] f g = Inr (g\<lparr>pending := pending g @ [d]\<rparr>)"
    using assms by (simp add: recv_turn_def cstr_no_nul add_update_def sprintf_def Let_def)
  then show ?thesis using True assms(5) by (simp add: idle_eq flushed_def)
next
  case False
  then show ?thesis using assms(5) by (simp add: idle_eq flushed_def)
qed

lemma hear_file:
  assumes "is_token fn" "NUL \<notin> set fn" "length fn < 100" "chat_open g"
  shows "\<exists>g'. recv_msg (if b then [''[FILE] '' @ fn] else []) (\<lambda>_. True) g = Inr g'
    \<and> idle g' = (flushed g (if b then [saved_text @ ''recv_'' @ fn] else []))
        \<lparr>created := created g @ (if b then [''recv_'' @ fn] else [])\<rparr>"
proof (cases b)
  case True
  have "recv_turn (''[FILE] '' @ fn) (\<lambda>_. True) g = Inr (g\<lparr>created := created g @ [''recv_'' @ fn],
      pending := pending g @ [saved_text @ ''recv_'' @ fn]\<rparr>)"
    by (rule announced_file_is_empty [OF assms(1-3)]) simp
  then show ?thesis using True assms(4) by (simp add: idle_eq flushed_def)
next
  case False
  then show ?thesis using assms(4) by (cases g) (simp add: idle_eq flushed_def)
qed

text \<open>An action of which every window's part is known.\<close>

lemma act_eq:
  assumes "f (ws p) = Inr g" "run s (map (\<lambda>d. Read p (Data d)) (writes (ws p) g)) = Inr t"
    and "connected t = connected s" "distinct (connected s)"
    and "\<And>q. q \<in> set (connected s) \<Longrightarrow>
      \<exists>h. recv_msg (delivered_to s t q) (\<lambda>_. True) ((ws(p := g)) q) = Inr h \<and> idle h = W q"
  shows "\<exists>ws'. act p f (s, ws) = Inr (t, ws') \<and> (\<forall>q \<in> set (connected s). ws' q = W q)"
proof -
  from assms(5) obtain H where H: "\<forall>q \<in> set (connected s).
      recv_msg (delivered_to s t q) (\<lambda>_. True) ((ws(p := g)) q) = Inr (H q) \<and> idle (H q) = W q"
    by metis
  then have "deliver s t (connected t) (ws(p := g))
      = Inr (\<lambda>q. if q \<in> set (connected s) then idle (H q) else (ws(p := g)) q)"
    unfolding assms(3) by (intro deliver_eq [OF assms(4)]) simp
  then show ?thesis using assms(1,2) H by (simp add: act_def)
qed

text \<open>A callback that writes one message which is not a command.\<close>

lemma say_act:
  assumes wf: "server_wf s" and p: "threads s p = H_Chat"
    and f: "f (ws p) = Inr g" "writes (ws p) g = [d]"
    and d: "d \<noteq> []" "length d < BUF_SIZE" "\<not> starts ''/'' d" "spoken (cstr (name_of s p)) d = line"
    and W: "\<And>q. q \<in> set (connected s) \<Longrightarrow> \<exists>h. recv_msg (if q \<in> set (audience s p) then [line] else [])
      (\<lambda>_. True) ((ws(p := g)) q) = Inr h \<and> idle h = W q"
  shows "\<exists>t ws'. act p f (s, ws) = Inr (t, ws') \<and> (\<forall>q \<in> set (connected s). ws' q = W q)
    \<and> heap t = heap s \<and> connected t = connected s"
proof -
  obtain c where c: "p \<in> set (connected s)" "registry_ok s" using wf p by (rule chat_thread)
  obtain t where t: "on_message p d s = Inr t" "heap t = heap s" "connected t = connected s"
    "sent t = sent s @ map (\<lambda>q. (sock_of s q, line)) (audience s p)"
    using on_message_plain [OF wf p d(2,3)] d(4) by (auto simp: spoken_def)
  have e: "run s [Read p (Data d)] = Inr t"
    using t(1) p d(1,2) by (simp add: on_read_def)
  have "distinct (connected s)" using c(2) by (simp add: registry_ok_def)
  with act_eq [of f ws p g s t W] f e t(3) W arrives_broadcast [OF c(2) sock_of_frame [OF t(2)] _ t(4)]
  obtain ws' where "act p f (s, ws) = Inr (t, ws')" "\<forall>q \<in> set (connected s). ws' q = W q" by auto
  then show ?thesis using t(2,3) by blast
qed

text \<open>
  Property C4.  A message arrives: what the user of client \<open>p\<close> typed appears as
  \<open>[name] text\<close> in the window of every named client of \<open>p\<close>'s room, once and at the end,
  and in no other window; the entry is emptied and the server is left as it was but for what it
  wrote.  The text has at least one and at most 1001 bytes, none of them zero, does not begin with
  a slash (a command), and neither it nor the line with the name before it begins with
  \<^verbatim>\<open>[FILE]\<close> (an announcement); every window is open with nothing pending.
\<close>

theorem message_reaches_room:
  assumes wf: "server_wf s" and p: "threads s p = H_Chat" and ws: "listening s ws"
    and d: "entry (ws p) = d" "d \<noteq> []" "NUL \<notin> set d" "length d + NAME_SIZE + 3 \<le> BUF_SIZE" "\<not> starts ''/'' d"
    and line: "line = CHR ''['' # cstr (name_of s p) @ '']'' @ '' '' @ d"
    and nofile: "\<not> starts ''[FILE]'' d" "\<not> starts ''[FILE]'' line"
  shows "\<exists>t ws'. act p (\<lambda>g. Inr (on_send_clicked g)) (s, ws) = Inr (t, ws')
    \<and> (\<forall>q \<in> set (connected s). view (ws' q) = view (ws q) @ (if q \<in> set (audience s p) then line @ [NL] else []))
    \<and> entry (ws' p) = [] \<and> heap t = heap s \<and> connected t = connected s \<and> listening t ws'"
proof -
  obtain c where c: "p \<in> set (connected s)" using wf p by (rule chat_thread)
  let ?g = "on_send_clicked (ws p)"
  let ?line = "CHR ''['' # cstr (name_of s p) @ '']'' @ '' '' @ d"
  have g: "writes (ws p) ?g = [d]" "entry ?g = []" "view ?g = view (ws p)" "chat_open ?g = chat_open (ws p)"
    "pending ?g = pending (ws p)"
    using d(1,2) by (auto simp: on_send_clicked_def w_write_def writes_def)
  have len: "length d < BUF_SIZE" using d(4) by (simp add: NAME_SIZE_def BUF_SIZE_def)
  have sp: "spoken (cstr (name_of s p)) d = line"
    using nofile(1) cstr_no_nul [OF d(3)] line by (simp add: spoken_def)
  note n = name_length [OF wf c]
  have l: "NUL \<notin> set line" "line \<noteq> []" "length line < BUF_SIZE"
    using n d(3,4) unfolding line by auto
  let ?W = "\<lambda>q. flushed ((ws(p := ?g)) q) (if q \<in> set (audience s p) then [line] else [])"
  have ok: "chat_open ((ws(p := ?g)) q)" "pending ((ws(p := ?g)) q) = []" if "q \<in> set (connected s)" for q
    using ws that g(4,5) by (auto simp: listening_def)
  note hear = hear_line [OF l nofile(2) ok(1)]
  obtain t ws' where t: "act p (\<lambda>g. Inr (on_send_clicked g)) (s, ws) = Inr (t, ws')"
    "\<forall>q \<in> set (connected s). ws' q = ?W q" "heap t = heap s" "connected t = connected s"
    using say_act [where f = "\<lambda>g. Inr (on_send_clicked g)" and W = ?W and ws = ws, OF wf p refl g(1) d(2) len d(5) sp hear]
    by blast
  have "listening t ws'"
    using t(2) ok(1) by (simp add: listening_def t(4) flushed_def del: fun_upd_apply)
  moreover have "view (ws' q) = view (ws q) @ (if q \<in> set (audience s p) then line @ [NL] else [])"
    if "q \<in> set (connected s)" for q
    using t(2) that ok(2) [OF that] g(3) by (auto simp: flushed_def split: if_splits)
  moreover have "entry (ws' p) = []" using t(2) c g(2) by (simp add: flushed_def)
  ultimately show ?thesis using t(1,3,4) by blast
qed

text \<open>The windows of the two users, open, with something typed into each.\<close>

definition window_with :: "bytes \<Rightarrow> nat \<Rightarrow> window" where
  "window_with d = (\<lambda>_. blank_window\<lparr>chat_open := True, entry := d\<rparr>)"

lemma listening_window_with: "listening s (window_with d)"
  by (simp add: listening_def window_with_def blank_window_def)

theorem message_reaches_room_witness:
  "\<exists>t ws'. act 1 (\<lambda>g. Inr (on_send_clicked g)) (two_users, window_with ''hi'') = Inr (t, ws')
     \<and> view (ws' 1) = ''[user1] hi'' @ [NL] \<and> view (ws' 2) = ''[user1] hi'' @ [NL]"
proof -
  have v: "view (window_with ''hi'' q) = []" "entry (window_with ''hi'' q) = ''hi''" for q
    by (simp_all add: window_with_def blank_window_def)
  show ?thesis
    using message_reaches_room [OF two_users_wf two_users_state(2) listening_window_with v(2), of "''[user1] hi''"]
    by (auto simp: two_users_state audience_def v NAME_SIZE_def BUF_SIZE_def simp del: One_nat_def)
qed

text \<open>
  A file arrives nowhere: choosing a file of a name that is one word of less
  than 100 bytes makes every named client of the room, the sender included, create an empty
  file \<open>recv_\<close>name and report it as saved.
\<close>

lemma file_is_announced_only:
  assumes wf: "server_wf s" and p: "threads s p = H_Chat" and ws: "listening s ws"
    and fn: "is_token fn" "NUL \<notin> set fn" "length fn < 100"
  shows "\<exists>t ws'. act p (on_file_clicked (Some fn)) (s, ws) = Inr (t, ws')
    \<and> (\<forall>q \<in> set (connected s).
         created (ws' q) = created (ws q) @ (if q \<in> set (audience s p) then [''recv_'' @ fn] else [])
       \<and> view (ws' q) = view (ws q) @ (if q = p then sending_text @ fn @ [NL] else [])
           @ (if q \<in> set (audience s p) then saved_text @ ''recv_'' @ fn @ [NL] else []))"
proof -
  let ?d = "''[FILE] '' @ fn"
  let ?g = "(w_write (w_sock (ws p)) ?d (ws p))\<lparr>pending := pending (ws p) @ [sending_text @ fn]\<rparr>"
  have "length (sending_text @ fn) < BUF_SIZE" using fn(3) by (simp add: sending_text_def BUF_SIZE_def)
  then have "sprintf BUF_SIZE (sending_text @ fn) = Inr (sending_text @ fn)"
    by (simp only: sprintf_def if_True)
  moreover have "sprintf BUF_SIZE ?d = Inr ?d" using fn(3) by (simp add: sprintf_def BUF_SIZE_def)
  ultimately have g: "on_file_clicked (Some fn) (ws p) = Inr ?g"
    by (simp add: on_file_clicked_def add_update_def w_write_def)
  have w: "writes (ws p) ?g = [?d]" by (simp add: writes_def w_write_def)
  have d: "?d \<noteq> []" "length ?d < BUF_SIZE" "\<not> starts ''/'' ?d" "spoken (cstr (name_of s p)) ?d = ?d"
    using fn(3) by (simp_all add: BUF_SIZE_def spoken_def)
  let ?W = "\<lambda>q. (flushed ((ws(p := ?g)) q) (if q \<in> set (audience s p) then [saved_text @ ''recv_'' @ fn] else []))
    \<lparr>created := created ((ws(p := ?g)) q) @ (if q \<in> set (audience s p) then [''recv_'' @ fn] else [])\<rparr>"
  have ok: "chat_open ((ws(p := ?g)) q)" if "q \<in> set (connected s)" for q
    using ws that by (auto simp: listening_def w_write_def)
  note hear = hear_file [OF fn ok]
  obtain t ws' where t: "act p (on_file_clicked (Some fn)) (s, ws) = Inr (t, ws')"
    "\<forall>q \<in> set (connected s). ws' q = ?W q"
    using say_act [where f = "on_file_clicked (Some fn)" and W = ?W and ws = ws, OF wf p g w d hear] by blast
  have "created (ws' q) = created (ws q) @ (if q \<in> set (audience s p) then [''recv_'' @ fn] else [])
      \<and> view (ws' q) = view (ws q) @ (if q = p then sending_text @ fn @ [NL] else [])
           @ (if q \<in> set (audience s p) then saved_text @ ''recv_'' @ fn @ [NL] else [])"
    if "q \<in> set (connected s)" for q
    using t(2) that listening_at [OF ws that] by (cases "q = p") (simp_all add: flushed_def w_write_def)
  with t(1) show ?thesis by blast
qed

lemma file_is_announced_only_example:
  "\<exists>t ws'. act 1 (on_file_clicked (Some ''a.txt'')) (two_users, window_with []) = Inr (t, ws')
     \<and> created (ws' 1) = [''recv_a.txt''] \<and> created (ws' 2) = [''recv_a.txt'']"
proof -
  have "is_token ''a.txt''" by code_simp
  moreover have "created (window_with [] q) = []" for q by (simp add: window_with_def blank_window_def)
  ultimately show ?thesis
    using file_is_announced_only [OF two_users_wf two_users_state(2) listening_window_with, of "''a.txt''" "[]"]
    by (auto simp: two_users_state audience_def simp del: One_nat_def)
qed

text \<open>
  The two kinds of line are not kept apart: what a user with the name \<open>FILE\<close> says is, with
  the brackets the server adds, a file announcement.  Nobody is shown the text; every window
  of the room creates an empty file named after it.
\<close>

lemma user_named_file:
  assumes wf: "server_wf s" and p: "threads s p = H_Chat" and ws: "listening s ws"
    and name: "cstr (name_of s p) = ''FILE''"
    and d: "entry (ws p) = d" "is_token d" "NUL \<notin> set d" "length d < 100" "\<not> starts ''/'' d"
      "\<not> starts ''[FILE]'' d"
  shows "\<exists>t ws'. act p (\<lambda>g. Inr (on_send_clicked g)) (s, ws) = Inr (t, ws')
    \<and> (\<forall>q \<in> set (audience s p). created (ws' q) = created (ws q) @ [''recv_'' @ d]
         \<and> view (ws' q) = view (ws q) @ saved_text @ ''recv_'' @ d @ [NL])"
proof -
  let ?g = "on_send_clicked (ws p)"
  have ne: "d \<noteq> []" using d(2) by (auto simp: is_token_def)
  have g: "writes (ws p) ?g = [d]" "view ?g = view (ws p)" "chat_open ?g = chat_open (ws p)"
    "pending ?g = pending (ws p)" "created ?g = created (ws p)"
    using d(1) ne by (auto simp: on_send_clicked_def w_write_def writes_def)
  have len: "length d < BUF_SIZE" using d(4) by (simp add: BUF_SIZE_def)
  have sp: "spoken (cstr (name_of s p)) d = ''[FILE] '' @ d"
    using d(6) cstr_no_nul [OF d(3)] name by (simp add: spoken_def)
  let ?W = "\<lambda>q. (flushed ((ws(p := ?g)) q) (if q \<in> set (audience s p) then [saved_text @ ''recv_'' @ d] else []))
    \<lparr>created := created ((ws(p := ?g)) q) @ (if q \<in> set (audience s p) then [''recv_'' @ d] else [])\<rparr>"
  have ok: "chat_open ((ws(p := ?g)) q)" if "q \<in> set (connected s)" for q
    using ws that g(3) by (auto simp: listening_def)
  note hear = hear_file [OF d(2-4) ok]
  obtain t ws' where t: "act p (\<lambda>g. Inr (on_send_clicked g)) (s, ws) = Inr (t, ws')"
    "\<forall>q \<in> set (connected s). ws' q = ?W q"
    using say_act [where f = "\<lambda>g. Inr (on_send_clicked g)" and W = ?W and ws = ws,
        OF wf p refl g(1) ne len d(5) sp hear] by blast
  have "created (ws' q) = created (ws q) @ [''recv_'' @ d]
      \<and> view (ws' q) = view (ws q) @ saved_text @ ''recv_'' @ d @ [NL]" if "q \<in> set (audience s p)" for q
  proof -
    have q: "q \<in> set (connected s)" using that by (simp add: audience_def)
    with t(2) that listening_at [OF ws q] g(2,4,5) show ?thesis by (cases "q = p") (simp_all add: flushed_def)
  qed
  with t(1) show ?thesis by blast
qed

lemma user_named_file_example:
  assumes "threads s p = H_Chat" "server_wf s" "cstr (name_of s p) = ''FILE''"
  shows "\<exists>t ws'. act p (\<lambda>g. Inr (on_send_clicked g)) (s, window_with ''hello'') = Inr (t, ws')"
proof -
  have "is_token ''hello''" by code_simp
  moreover have "entry (window_with ''hello'' p) = ''hello''" by (simp add: window_with_def blank_window_def)
  ultimately show ?thesis
    using user_named_file [OF assms(2,1) listening_window_with assms(3), of "''hello''" "''hello''"] by auto
qed

subsection \<open>Changing rooms\<close>

lemma arrives_one:
  assumes "registry_ok s" "p \<in> set (connected s)" "q \<in> set (connected s)" "sock_of t = sock_of s"
    "sent t = sent s @ [(sock_of s p, d)]"
  shows "delivered_to s t q = (if q = p then [d] else [])"
proof -
  have "inj_on (sock_of s) (set (connected s))" using assms(1) by (simp add: registry_ok_def)
  then have "sock_of s p = sock_of s q \<longleftrightarrow> p = q" using assms(2,3) by (auto dest: inj_onD)
  then show ?thesis by (auto simp: delivered_to_def assms(4,5))
qed

lemma moved_head: "msg_moved_1 = CHR ''>'' # tl msg_moved_1"
  by code_simp

lemma moved_plain: "\<not> starts ''[FILE]'' (msg_moved_1 @ x)" "msg_moved_1 @ x \<noteq> []"
  by (subst moved_head, simp)+

text \<open>
  A room button works end to end: after the user of client \<open>p\<close> presses the
  button of room \<open>r\<close> the server has \<open>p\<close>, and nobody else, moved to room \<open>r\<close>, \<open>p\<close>'s window
  is labelled with that room and shows the server's confirmation, and no other window
  changes.
\<close>

lemma room_button_moves:
  assumes wf: "server_wf s" and p: "threads s p = H_Chat" and ws: "listening s ws"
    and r: "- (2 ^ 31) \<le> r" "r < 2 ^ 31"
  shows "\<exists>t ws'. act p (on_room_clicked r) (s, ws) = Inr (t, ws') \<and> room_of t p = r
    \<and> (\<forall>q. q \<noteq> p \<longrightarrow> room_of t q = room_of s q) \<and> connected t = connected s
    \<and> room_label (ws' p) = (if r = 0 then at_lobby else at_room_1 @ show_int r @ at_room_2)
    \<and> view (ws' p) = view (ws p) @ msg_moved_1 @ show_int r @ msg_moved_2 @ [NL]
    \<and> (\<forall>q \<in> set (connected s). q \<noteq> p \<longrightarrow> ws' q = ws q)"
proof -
  obtain c where c: "p \<in> set (connected s)" "registry_ok s" using wf p by (rule chat_thread)
  let ?cmd = "''/join '' @ show_int r"
  let ?reply = "msg_moved_1 @ show_int r @ msg_moved_2"
  let ?lbl = "if r = 0 then at_lobby else at_room_1 @ show_int r @ at_room_2"
  let ?g = "(w_write (w_sock (ws p)) ?cmd (ws p))\<lparr>room_label := ?lbl\<rparr>"
  have g: "on_room_clicked r (ws p) = Inr ?g" by (rule room_clicked_eq [OF r])
  have w: "writes (ws p) ?g = [?cmd]" by (simp add: writes_def w_write_def)
  obtain t where t: "exec s (Read p (Data ?cmd)) = Inr t" "room_of t p = r"
    "\<forall>q. q \<noteq> p \<longrightarrow> heap t q = heap s q" "connected t = connected s" "sent t = sent s @ [(sock_of s p, ?reply)]"
    using join_moves [OF wf p r] by blast
  have "same_registry s t"
    using t(1) p same_message [of s p ?cmd t] by (auto simp: on_read_def split: if_splits)
  then have so: "sock_of t = sock_of s" by (simp add: same_registry_def fun_eq_iff)
  have len: "length (show_int r) \<le> 11" using r by (rule length_show_int)
  have "NUL \<notin> set (show_int r)" using show_int_plain by blast
  then have l1: "NUL \<notin> set ?reply" using texts_no_nul by simp
  have l2: "length ?reply < BUF_SIZE"
    using len by (simp add: msg_moved_1_def msg_moved_2_def BUF_SIZE_def)
  note l = l1 moved_plain(2) l2 moved_plain(1)
  let ?W = "\<lambda>q. flushed ((ws(p := ?g)) q) (if q = p then [?reply] else [])"
  have ok: "chat_open ((ws(p := ?g)) q)" if "q \<in> set (connected s)" for q
    using ws that by (auto simp: listening_def w_write_def)
  have "\<exists>h. recv_msg (delivered_to s t q) (\<lambda>_. True) ((ws(p := ?g)) q) = Inr h \<and> idle h = ?W q"
    if "q \<in> set (connected s)" for q
    unfolding arrives_one [OF c(2,1) that so t(5)] by (rule hear_line [OF l ok [OF that]])
  moreover have "distinct (connected s)" using c(2) by (simp add: registry_ok_def)
  moreover have "run s (map (\<lambda>d. Read p (Data d)) (writes (ws p) ?g)) = Inr t" using t(1) w by simp
  ultimately obtain ws' where ws': "act p (on_room_clicked r) (s, ws) = Inr (t, ws')"
    "\<forall>q \<in> set (connected s). ws' q = ?W q"
    using act_eq [of "on_room_clicked r" ws p ?g s t ?W] g t(4) by blast
  have "room_of t q = room_of s q" if "q \<noteq> p" for q using t(3) that by (simp add: room_of_def)
  moreover have "ws' q = ws q" if "q \<in> set (connected s)" "q \<noteq> p" for q
    using ws'(2) that listening_at [OF ws that(1)] by (cases "ws q") (simp add: flushed_def)
  moreover have "room_label (ws' p) = ?lbl" "view (ws' p) = view (ws p) @ msg_moved_1 @ show_int r @ msg_moved_2 @ [NL]"
    using ws'(2) c(1) listening_at [OF ws c(1)] by (simp_all add: flushed_def w_write_def)
  ultimately show ?thesis using ws'(1) t(2,4) by blast
qed

lemma room_button_moves_example:
  "\<exists>t ws'. act 2 (on_room_clicked 3) (two_users, window_with []) = Inr (t, ws') \<and> room_of t 2 = 3 \<and> room_of t 1 = 0"
proof -
  have "room_of two_users 1 = 0" "(1 :: nat) \<noteq> 2" by (simp_all add: two_users_state del: One_nat_def)
  then show ?thesis
    using room_button_moves [OF two_users_wf two_users_state(3) listening_window_with, of 3 "[]"] by fastforce
qed

subsection \<open>Streams have no boundaries\<close>

lemma starts_before_slash:
  "CHR ''/'' \<notin> set w \<Longrightarrow> starts w (d @ CHR ''/'' # r) = starts w d"
proof (induction w d rule: starts.induct)
  case (2 p ps)
  then show ?case by auto
qed auto

text \<open>
  Property C32.  Writes that arrive together are one message: a text and the \<^verbatim>\<open>/join\<close> that
  follows it, read one by one, show the text in the room and then move the client, who alone is
  told the number of the new room; delivered by one \<^verbatim>\<open>read\<close> the two are broadcast as one text,
  request included, to the named clients of the room, and the client stays where it is.  The
  text is shorter than 1000 bytes, has no zero byte and is neither a command nor a file
  announcement.
\<close>

theorem joined_writes_misread:
  assumes "server_wf s" and "threads s p = H_Chat" and "d \<noteq> []" and "\<not> starts ''/'' d" and "\<not> starts ''[FILE]'' d"
    and "NUL \<notin> set d" and "length d < 1000" and "- (2 ^ 31) \<le> r" and "r < 2 ^ 31"
  shows "(\<exists>t. run s [Read p (Data d), Read p (Data (''/join '' @ show_int r))] = Inr t \<and> room_of t p = r
      \<and> sent t = sent s @ map (\<lambda>q. (sock_of s q, CHR ''['' # cstr (name_of s p) @ '']'' @ '' '' @ d)) (audience s p)
          @ [(sock_of s p, msg_moved_1 @ show_int r @ msg_moved_2)])
    \<and> (\<exists>t. run s [Read p (Data (d @ ''/join '' @ show_int r))] = Inr t \<and> heap t = heap s
      \<and> sent t = sent s @ map (\<lambda>q. (sock_of s q,
          CHR ''['' # cstr (name_of s p) @ '']'' @ '' '' @ d @ ''/join '' @ show_int r)) (audience s p))"
proof
  have len: "length d < BUF_SIZE" using assms(7) by (simp add: BUF_SIZE_def)
  obtain u where u: "exec s (Read p (Data d)) = Inr u" "threads u = threads s" "heap u = heap s"
    "sent u = sent s @ map (\<lambda>q. (sock_of s q, CHR ''['' # cstr (name_of s p) @ '']'' @ '' '' @ d)) (audience s p)"
    using on_message_plain [OF assms(1,2) len assms(4)] assms(2,3,5) len cstr_no_nul [OF assms(6)]
    by (auto simp: on_read_def simp del: starts.simps)
  have "server_wf u" by (rule exec_wf [OF assms(1) _ u(1)]) (simp add: tidy_def orderly_def)
  with join_moves [of u p r] u(1,2) assms(2,8,9) obtain t where
    "run s [Read p (Data d), Read p (Data (''/join '' @ show_int r))] = Inr t" "room_of t p = r"
    "sent t = sent u @ [(sock_of u p, msg_moved_1 @ show_int r @ msg_moved_2)]"
    by (auto simp del: exec.simps)
  with u(4) sock_of_frame [OF u(3)]
  show "\<exists>t. run s [Read p (Data d), Read p (Data (''/join '' @ show_int r))] = Inr t \<and> room_of t p = r
      \<and> sent t = sent s @ map (\<lambda>q. (sock_of s q, CHR ''['' # cstr (name_of s p) @ '']'' @ '' '' @ d)) (audience s p)
          @ [(sock_of s p, msg_moved_1 @ show_int r @ msg_moved_2)]"
    by (intro exI [of _ t]) (simp del: run.simps)
  let ?d = "d @ ''/join '' @ show_int r"
  have l: "length ?d < BUF_SIZE"
    using assms(7) length_show_int [OF assms(8,9)] by (simp add: BUF_SIZE_def)
  obtain e x where d: "d = e # x" using assms(3) by (cases d) auto
  have "\<not> starts ''/'' ?d" using assms(4) by (simp add: d)
  moreover have "\<not> starts ''[FILE]'' ?d"
    using assms(5) starts_before_slash [of "''[FILE]''" d "''join '' @ show_int r"] by (simp del: starts.simps)
  moreover have "cstr ?d = ?d"
    using assms(6) show_int_plain [of r] by (intro cstr_no_nul) auto
  moreover have "?d \<noteq> []" using assms(3) by simp
  ultimately show "\<exists>t. run s [Read p (Data ?d)] = Inr t \<and> heap t = heap s
      \<and> sent t = sent s @ map (\<lambda>q. (sock_of s q,
          CHR ''['' # cstr (name_of s p) @ '']'' @ '' '' @ ?d)) (audience s p)"
    using on_message_plain [OF assms(1,2) l] assms(2) l by (auto simp: on_read_def simp del: starts.simps)
qed

theorem joined_writes_misread_witness:
  "\<exists>t. run two_users [Read 1 (Data (''hi'' @ ''/join '' @ show_int 2))] = Inr t \<and> heap t = heap two_users
     \<and> sent t = sent two_users @ [(4, ''[user1] hi/join '' @ show_int 2), (5, ''[user1] hi/join '' @ show_int 2)]"
  using joined_writes_misread [OF two_users_wf two_users_state(2), of "''hi''" 2]
  by (auto simp: audience_def two_users_state simp del: run.simps One_nat_def)

text \<open>The same at the login: the welcome that the server writes right after \<open>OK\<close> is lost when
  the client's one \<^verbatim>\<open>read\<close> delivers both; the window is the same as without it.\<close>

lemma welcome_lost:
  "on_login_clicked uid pw conn (Some (''OK'' @ rest)) g = on_login_clicked uid pw conn (Some ''OK'') g"
  by (simp add: on_login_clicked_def Let_def split: option.splits)

end
