(* ===== verification/Widgets.thy ===== *)
theory Widgets
  imports C_Prelude
begin

section \<open>Trees of widgets\<close>

text \<open>
  What the GTK programs build before they enter the main loop: a window with its tree of
  widgets, over the type of the callbacks that \<^verbatim>\<open>g_signal_connect\<close> connects (with the pointer
  that is handed over, where it matters).  Borders, positions on the screen, alignment and the
  cursor are left out.  GTK's part is that the activation of a widget calls the callback connected
  to it.
\<close>

datatype 'a widget =
    Button bytes 'a
  | Label bytes
  | Text_Entry bytes bool "'a option" \<comment> \<open>placeholder, whether the text is visible, on activation\<close>
  | Display bytes \<comment> \<open>an entry that cannot be edited, with its text\<close>
  | Text_View
  | Scrolled "'a widget"
  | HBox nat "('a widget \<times> bool \<times> nat) list" \<comment> \<open>spacing; each child, whether it fills the space, its padding\<close>
  | VBox nat "('a widget \<times> bool \<times> nat) list"
  | Grid "('a widget \<times> nat \<times> nat \<times> nat \<times> nat) list" \<comment> \<open>each child with its column, row, width and height\<close>
  | Window bytes "nat \<times> nat" "'a widget" "'a option" \<comment> \<open>title, size, contents, on destruction\<close>

text \<open>The buttons of a tree, with what they call.\<close>

fun buttons_of :: "'a widget \<Rightarrow> (bytes \<times> 'a) list" where
  "buttons_of (Button t a) = [(t, a)]"
| "buttons_of (Label t) = []"
| "buttons_of (Text_Entry t v a) = []"
| "buttons_of (Display t) = []"
| "buttons_of Text_View = []"
| "buttons_of (Scrolled w) = buttons_of w"
| "buttons_of (HBox n ws) = concat (map (\<lambda>(w, fill, pad). buttons_of w) ws)"
| "buttons_of (VBox n ws) = concat (map (\<lambda>(w, fill, pad). buttons_of w) ws)"
| "buttons_of (Grid ws) = concat (map (\<lambda>(w, col, row, width, height). buttons_of w) ws)"
| "buttons_of (Window t wh w a) = buttons_of w"

text \<open>The cells of a grid that its children cover.\<close>

definition grid_cells :: "('a widget \<times> nat \<times> nat \<times> nat \<times> nat) list \<Rightarrow> (nat \<times> nat) list" where
  "grid_cells ws = concat (map (\<lambda>(w, col, row, width, height).
     List.product [col..<col + width] [row..<row + height]) ws)"

end
