(* ===== verification/Chat_Widgets.thy ===== *)
theory Chat_Widgets
  imports Chat_System Widgets
begin

section \<open>The messenger's widgets\<close>

text \<open>
  The construction of the windows of \<^verbatim>\<open>project2/gui_client.c\<close> as trees of \<^verbatim>\<open>Widgets\<close>,
  with the callbacks connected to them, the sizes of the windows, the spacing of the boxes and the
  packing of their children, and the start of the program.
\<close>

subsection \<open>Texts\<close>

definition ui_signup :: bytes where
  "ui_signup = map char_of [237, 154, 140, 236, 155, 144, 234, 176, 128, 236, 158, 133 :: nat]"

definition ui_new_id :: bytes where
  "ui_new_id = map char_of [236, 131, 136, 32, 236, 149, 132, 236, 157, 180, 235, 148, 148 :: nat]"

definition ui_new_pw :: bytes where
  "ui_new_pw = map char_of [236, 131, 136, 32, 235, 185, 132, 235, 176, 128, 235, 178, 136, 237, 152, 184 :: nat]"

definition ui_create :: bytes where
  "ui_create = map char_of [234, 179, 132, 236, 160, 149, 32, 236, 131, 157, 236, 132, 177 :: nat]"

definition ui_channels :: bytes where
  "ui_channels = map char_of [236, 177, 132, 235, 132, 144, 32, 235, 170, 169, 235, 161, 157 :: nat]"

definition ui_lobby :: bytes where
  "ui_lobby = map char_of [235, 161, 156, 235, 185, 132 :: nat]"

definition ui_room :: bytes where
  "ui_room = map char_of [235, 178, 136, 32, 235, 176, 169 :: nat]"

definition ui_write :: bytes where
  "ui_write = map char_of [235, 169, 148, 236, 139, 156, 236, 167, 128, 32, 236, 158, 133, 235, 160, 165, 46, 46,
     46 :: nat]"

definition ui_send :: bytes where
  "ui_send = map char_of [236, 160, 132, 236, 134, 161 :: nat]"

definition ui_file :: bytes where
  "ui_file = map char_of [237, 140, 140, 236, 157, 188 :: nat]"

definition ui_login :: bytes where
  "ui_login = map char_of [235, 161, 156, 234, 183, 184, 236, 157, 184 :: nat]"

definition ui_ask :: bytes where
  "ui_ask = map char_of [236, 149, 132, 236, 157, 180, 235, 148, 148, 236, 153, 128, 32, 235, 185, 132, 235,
     176, 128, 235, 178, 136, 237, 152, 184, 235, 165, 188, 32, 236, 158, 133, 235, 160, 165,
     237, 149, 152, 236, 132, 184, 236, 154, 148 :: nat]"

definition ui_id :: bytes where
  "ui_id = map char_of [236, 149, 132, 236, 157, 180, 235, 148, 148 :: nat]"

definition ui_pw :: bytes where
  "ui_pw = map char_of [235, 185, 132, 235, 176, 128, 235, 178, 136, 237, 152, 184 :: nat]"

definition ui_usage_1 :: bytes where
  "ui_usage_1 = map char_of [236, 130, 172, 236, 154, 169, 235, 178, 149, 58, 32 :: nat]"

definition ui_usage_2 :: bytes where
  "ui_usage_2 = map char_of [32, 60, 73, 80, 62, 32, 60, 80, 79, 82, 84, 62, 10 :: nat]"

subsection \<open>Trees\<close>

text \<open>The callbacks, with the pointer that \<^verbatim>\<open>g_signal_connect\<close> hands over where it matters.\<close>

datatype gui_action = Quit | Login | Sign_Up | Confirm | Room int | Send | Choose_File

definition room_text :: "nat \<Rightarrow> bytes" where
  "room_text i = show_nat i @ ui_room"

text \<open>\<^verbatim>\<open>main\<close>: the login window.\<close>

definition login_tree :: "gui_action widget" where
  "login_tree = Window ui_login (250, 250)
     (VBox 10 [(Label ui_ask, False, 0), (Text_Entry ui_id True None, False, 0), (Text_Entry ui_pw False None, False, 0),
        (Button ui_login Login, False, 5), (Button ui_signup Sign_Up, False, 5)])
     (Some Quit)"

text \<open>\<^verbatim>\<open>on_signup_btn_clicked\<close>: the dialog, modal over the login window; its content area is
  a box that packs what is added as GTK does by default.\<close>

definition signup_tree :: "gui_action widget" where
  "signup_tree = Window ui_signup (250, 200)
     (VBox 0 [(Text_Entry ui_new_id True None, False, 0), (Text_Entry ui_new_pw False None, False, 0),
        (Button ui_create Confirm, False, 0)])
     None"

text \<open>The loop over the rooms, with its label in an array of 20 bytes.\<close>

fun room_buttons :: "nat list \<Rightarrow> (gui_action widget \<times> bool \<times> nat) list cres" where
  "room_buttons [] = Inr []"
| "room_buttons (i # is) =
     cbind (sprintf 20 (room_text i)) (\<lambda>buf.
     cbind (room_buttons is) (\<lambda>bs. Inr ((Button buf (Room (int i)), False, 0) # bs)))"

definition chat_tree :: "bytes \<Rightarrow> gui_action widget cres" where
  "chat_tree name =
     cbind (sprintf 50 (title_text @ name)) (\<lambda>title.
     cbind (room_buttons [1..<11]) (\<lambda>rooms.
     Inr (Window title (600, 500)
       (HBox 5
         [(VBox 5 ((Label ui_channels, False, 10) # (Button ui_lobby (Room 0), False, 0) # rooms), False, 0),
          (VBox 5 [(Label at_lobby, False, 5), (Scrolled Text_View, True, 0),
            (HBox 5 [(Text_Entry ui_write True (Some Send), True, 0), (Button ui_send Send, False, 0),
               (Button ui_file Choose_File, False, 0)], False, 5)], True, 0)])
       (Some Quit))))"

text \<open>What a button does.\<close>

record gui_inputs =
  in_id :: bytes
  in_pw :: bytes
  in_conn :: "int option" \<comment> \<open>\<^verbatim>\<open>connect_to_server\<close>\<close>
  in_reply :: "bytes option"
  in_file :: "bytes option"

fun on_action :: "gui_action \<Rightarrow> gui_inputs \<Rightarrow> window \<Rightarrow> window cres" where
  "on_action Quit x g = Inr g"
| "on_action Login x g = on_login_clicked (in_id x) (in_pw x) (in_conn x) (in_reply x) g"
| "on_action Sign_Up x g = Inr (g\<lparr>signup_open := True\<rparr>)"
| "on_action Confirm x g = on_signup_confirm (in_id x) (in_pw x) (in_conn x) (in_reply x) g"
| "on_action (Room r) x g = on_room_clicked r g"
| "on_action Send x g = Inr (on_send_clicked g)"
| "on_action Choose_File x g = on_file_clicked (in_file x) g"

text \<open>\<^verbatim>\<open>main\<close>: what it prints and the exit code, or \<^verbatim>\<open>ip\<close>, \<^verbatim>\<open>port\<close> and the first window.\<close>

definition client_main :: "bytes list \<Rightarrow> bytes \<Rightarrow> ((bytes \<times> int) + (bytes \<times> int \<times> gui_action widget)) cres" where
  "client_main argv ip =
     (if length argv \<noteq> 3 then Inr (Inl (ui_usage_1 @ hd argv @ ui_usage_2, 1))
      else
        cbind (store_cstr ip (argv ! 1)) (\<lambda>ip.
        cbind (atoi (argv ! 2)) (\<lambda>port.
        Inr (Inr (ip, port, login_tree)))))"

subsection \<open>The buttons\<close>

lemma room_buttons_eq:
  "\<forall>i \<in> set is. i < 100 \<Longrightarrow> room_buttons is = Inr (map (\<lambda>i. (Button (room_text i) (Room (int i)), False, 0)) is)"
proof (induction "is")
  case (Cons i "is")
  have "length (room_text i) < 20" using Cons.prems length_show_nat [of i 1] by (simp add: room_text_def ui_room_def)
  with Cons show ?case by (simp add: sprintf_def)
qed simp

lemma chat_buttons:
  assumes "length name < NAME_SIZE"
  obtains w where "chat_tree name = Inr w"
    "buttons_of w = (ui_lobby, Room 0) # map (\<lambda>i. (room_text i, Room (int i))) [1..<11] @ [(ui_send, Send), (ui_file, Choose_File)]"
proof -
  let ?rooms = "map (\<lambda>i. (Button (room_text i) (Room (int i)), False, 0)) [1..<11]"
  have rooms: "room_buttons [1..<11] = Inr ?rooms" by (rule room_buttons_eq) simp
  have "length (title_text @ name) < 50" using assms by (simp add: title_text_def NAME_SIZE_def)
  then have title: "sprintf 50 (title_text @ name) = Inr (title_text @ name)" by (simp only: sprintf_def if_True)
  let ?w = "Window (title_text @ name) (600, 500)
       (HBox 5
         [(VBox 5 ((Label ui_channels, False, 10) # (Button ui_lobby (Room 0), False, 0) # ?rooms), False, 0),
          (VBox 5 [(Label at_lobby, False, 5), (Scrolled Text_View, True, 0),
            (HBox 5 [(Text_Entry ui_write True (Some Send), True, 0), (Button ui_send Send, False, 0),
               (Button ui_file Choose_File, False, 0)], False, 5)], True, 0)])
       (Some Quit)"
  have flat: "concat (map (\<lambda>(w, fill, pad). buttons_of w) (map (\<lambda>i. (Button (room_text i) (Room (int i)), False, 0)) is))
      = map (\<lambda>i. (room_text i, Room (int i))) is" for "is"
    by (induction "is") simp_all
  have "chat_tree name = Inr ?w" unfolding chat_tree_def title rooms by simp
  moreover have "buttons_of ?w = (ui_lobby, Room 0) # map (\<lambda>i. (room_text i, Room (int i))) [1..<11]
      @ [(ui_send, Send), (ui_file, Choose_File)]"
    using flat [of "[1..<11]"] by (simp del: upt.simps)
  ultimately show ?thesis by (rule that)
qed

text \<open>
  Property C29.  The room buttons: the chat window has one for the lobby and one for each of
  the rooms 1 to 10, and pressing one has the server move the user, and nobody else, to exactly
  the room on its label, which the window then shows above the server's confirmation.
\<close>

theorem room_buttons_join:
  assumes "length name < NAME_SIZE" and "server_wf s" and "threads s p = H_Chat" and "listening s ws" and "r \<le> 10"
  shows "\<exists>w t ws'. chat_tree name = Inr w
    \<and> ((if r = 0 then ui_lobby else room_text r), Room (int r)) \<in> set (buttons_of w)
    \<and> act p (on_action (Room (int r)) x) (s, ws) = Inr (t, ws')
    \<and> room_of t p = int r \<and> (\<forall>q. q \<noteq> p \<longrightarrow> room_of t q = room_of s q) \<and> connected t = connected s
    \<and> room_label (ws' p) = (if r = 0 then at_lobby else at_room_1 @ show_nat r @ at_room_2)
    \<and> view (ws' p) = view (ws p) @ msg_moved_1 @ show_nat r @ msg_moved_2 @ [NL]
    \<and> (\<forall>q \<in> set (connected s). q \<noteq> p \<longrightarrow> ws' q = ws q)"
proof -
  obtain w where w: "chat_tree name = Inr w"
    "buttons_of w = (ui_lobby, Room 0) # map (\<lambda>i. (room_text i, Room (int i))) [1..<11] @ [(ui_send, Send), (ui_file, Choose_File)]"
    using assms(1) by (rule chat_buttons)
  have mem: "((if r = 0 then ui_lobby else room_text r), Room (int r)) \<in> set (buttons_of w)"
    unfolding w(2) using assms(5) by (cases "r = 0") (simp_all del: upt.simps)
  have int: "show_int (int r) = show_nat r" by (simp add: show_int_def)
  have a: "on_action (Room (int r)) x = on_room_clicked (int r)" by (simp add: fun_eq_iff)
  have "- (2 ^ 31) \<le> int r" "int r < 2 ^ 31" using assms(5) by simp_all
  from room_button_moves [OF assms(2-4) this] obtain t ws' where
    t: "act p (on_room_clicked (int r)) (s, ws) = Inr (t, ws')" "room_of t p = int r"
    "\<forall>q. q \<noteq> p \<longrightarrow> room_of t q = room_of s q" "connected t = connected s"
    "room_label (ws' p) = (if r = 0 then at_lobby else at_room_1 @ show_nat r @ at_room_2)"
    "view (ws' p) = view (ws p) @ msg_moved_1 @ show_nat r @ msg_moved_2 @ [NL]"
    "\<forall>q \<in> set (connected s). q \<noteq> p \<longrightarrow> ws' q = ws q"
    by (auto simp only: int of_nat_eq_0_iff)
  with w(1) mem a show ?thesis by (intro exI [of _ w] exI [of _ t] exI [of _ ws'] conjI) simp_all
qed

theorem room_buttons_join_witness:
  "\<exists>t ws'. act 1 (on_action (Room 3) \<lparr>in_id = [], in_pw = [], in_conn = None, in_reply = None, in_file = None\<rparr>)
       (two_users, window_with []) = Inr (t, ws')
     \<and> room_of t 1 = 3 \<and> room_of t 2 = 0 \<and> room_label (ws' 1) = at_room_1 @ ''3'' @ at_room_2"
proof -
  let ?x = "\<lparr>in_id = [], in_pw = [], in_conn = None, in_reply = None, in_file = None\<rparr>"
  have three: "show_nat 3 = ''3''" by code_simp
  have "length ''user1'' < NAME_SIZE" by (simp add: NAME_SIZE_def)
  from room_buttons_join [OF this two_users_wf two_users_state(2) listening_window_with, of 3 ?x "[]"]
  obtain t ws' where "act 1 (on_action (Room 3) ?x) (two_users, window_with []) = Inr (t, ws')" "room_of t 1 = 3"
    "\<forall>q. q \<noteq> 1 \<longrightarrow> room_of t q = room_of two_users q" "room_label (ws' 1) = at_room_1 @ ''3'' @ at_room_2"
    by (auto simp: three)
  moreover have "(2 :: nat) \<noteq> 1" by simp
  ultimately show ?thesis using two_users_state(7) by fastforce
qed

end
