(* ===== verification/Select_Server.thy ===== *)
theory Select_Server
  imports C_Prelude
begin

section \<open>The select chat: server and client\<close>

text \<open>
  \<^verbatim>\<open>lab3/6/chat_server.c\<close> and \<^verbatim>\<open>lab3/6/chat_client.c\<close>: a server of one thread that waits in
  \<^verbatim>\<open>select\<close> for the listening socket and its clients, and a client that waits for the server
  and the keyboard.  What arrives is a parameter of each pass of the loop: which descriptors
  \<^verbatim>\<open>select\<close> reports, and what \<^verbatim>\<open>accept\<close> or \<^verbatim>\<open>read\<close> gives on each.  The writes to the
  sockets are recorded in order in \<open>out\<close>, the console in \<open>console\<close>.
\<close>

definition FD_SETSIZE :: int where "FD_SETSIZE = 1024"
definition SEL_BUF :: nat where "SEL_BUF = 1024"

datatype arrival =
    Conn int \<comment> \<open>\<^verbatim>\<open>accept\<close> returned this descriptor, -1 if it failed\<close>
  | Bytes bytes \<comment> \<open>\<^verbatim>\<open>read\<close> returned these bytes, none at the end of the stream\<close>
  | Read_Failed \<comment> \<open>\<^verbatim>\<open>read\<close> returned -1\<close>

subsection \<open>The server\<close>

record select_server =
  serv_sock :: int
  reads :: "int set"
  fd_max :: int
  sel_buf :: bytes
  out :: "(int \<times> bytes) list"
  console :: "bytes list"
  closed :: "int list"

definition select_init :: "int \<Rightarrow> bytes \<Rightarrow> select_server" where
  "select_init sk buf = \<lparr>serv_sock = sk, reads = {sk}, fd_max = sk, sel_buf = buf, out = [],
     console = [], closed = []\<rparr>"

text \<open>\<^verbatim>\<open>FD_SET\<close> on a descriptor outside the set's range writes outside the set.\<close>

definition fd_set :: "int \<Rightarrow> int set \<Rightarrow> int set cres" where
  "fd_set fd fds = (if 0 \<le> fd \<and> fd < FD_SETSIZE then Inr (insert fd fds) else Inl Out_Of_Bounds)"

text \<open>The Korean texts of the console, in UTF-8.\<close>

definition txt_joined :: bytes where
  "txt_joined = map char_of [236, 131, 136, 235, 161, 156, 236, 154, 180, 32, 237, 129, 180, 235, 157, 188,
     236, 157, 180, 236, 150, 184, 237, 138, 184, 32, 236, 151, 176, 234, 178, 176, 235, 144,
     168, 58, 32, 73, 68, 32 :: nat]"

definition txt_left :: bytes where
  "txt_left = map char_of [237, 129, 180, 235, 157, 188, 236, 157, 180, 236, 150, 184, 237, 138, 184, 32,
     236, 151, 176, 234, 178, 176, 32, 236, 162, 133, 235, 163, 140, 58, 32, 73, 68, 32 :: nat]"

definition on_connect :: "int \<Rightarrow> select_server \<Rightarrow> select_server cres" where
  "on_connect clnt_sock s =
     cbind (fd_set clnt_sock (reads s)) (\<lambda>fds.
       Inr (s\<lparr>reads := fds,
              fd_max := (if fd_max s < clnt_sock then clnt_sock else fd_max s),
              console := console s @ [txt_joined @ show_int clnt_sock @ [NL]]\<rparr>))"

text \<open>The loop over \<open>j\<close>: to whom a message of \<open>i\<close> is written.\<close>

definition relay_to :: "int \<Rightarrow> select_server \<Rightarrow> int list" where
  "relay_to i s = filter (\<lambda>j. j \<in> reads s \<and> j \<noteq> serv_sock s \<and> j \<noteq> i) [0..fd_max s]"

definition on_data :: "int \<Rightarrow> bytes \<Rightarrow> select_server \<Rightarrow> select_server cres" where
  "on_data i d s =
     cbind (set_byte (fill (sel_buf s) d) (int (length d)) NUL) (\<lambda>buf.
     cbind (read_cstr buf) (\<lambda>text.
     cbind (store_cstr (replicate (SEL_BUF + 30) NUL) (''[Client '' @ show_int i @ '']: '' @ text)) (\<lambda>m.
       Inr (s\<lparr>sel_buf := buf, console := console s @ [cstr m],
              out := out s @ map (\<lambda>j. (j, cstr m)) (relay_to i s)\<rparr>))))"

definition on_close :: "int \<Rightarrow> select_server \<Rightarrow> select_server" where
  "on_close i s = s\<lparr>reads := reads s - {i}, closed := closed s @ [i],
     console := console s @ [txt_left @ show_int i @ [NL]]\<rparr>"

text \<open>A descriptor that \<^verbatim>\<open>select\<close> reported.  Only \<^verbatim>\<open>accept\<close> is called on the listening
  socket and only \<^verbatim>\<open>read\<close> on the others; a failed \<^verbatim>\<open>read\<close> writes \<^verbatim>\<open>buf[-1]\<close>.\<close>

definition serve_fd :: "int \<Rightarrow> arrival \<Rightarrow> select_server \<Rightarrow> select_server cres" where
  "serve_fd i a s =
     (if i = serv_sock s then (case a of Conn c \<Rightarrow> on_connect c s | _ \<Rightarrow> Inr s)
      else (case a of
          Bytes d \<Rightarrow> if d = [] then Inr (on_close i s) else on_data i d s
        | Read_Failed \<Rightarrow> cbind (set_byte (sel_buf s) (-1) NUL) (\<lambda>b. Inr s)
        | Conn c \<Rightarrow> Inr s))"

text \<open>The loop over \<open>i\<close>: its bound \<^verbatim>\<open>fd_max + 1\<close> is read anew at every turn.\<close>

function scan_fds :: "int \<Rightarrow> int set \<Rightarrow> (int \<Rightarrow> arrival) \<Rightarrow> select_server \<Rightarrow> select_server cres" where
  "scan_fds i cpy_reads env s =
     (if fd_max s + 1 \<le> i then Inr s
      else if FD_SETSIZE \<le> i then Inl Out_Of_Bounds
      else if i \<in> cpy_reads then
        (case serve_fd i (env i) s of
           Inl e \<Rightarrow> Inl e
         | Inr t \<Rightarrow> scan_fds (i + 1) cpy_reads env t)
      else scan_fds (i + 1) cpy_reads env s)"
  by pat_completeness auto
termination
  by (relation "measure (\<lambda>(i, c, env, s). nat (FD_SETSIZE - i))") auto

declare scan_fds.simps [simp del]

text \<open>One turn of \<^verbatim>\<open>while (1)\<close>: \<^verbatim>\<open>select\<close> fails, times out, or reports descriptors.\<close>

datatype wake = Select_Failed | Timed_Out | Ready "int set" "int \<Rightarrow> arrival"

fun select_loop :: "wake list \<Rightarrow> select_server \<Rightarrow> select_server cres" where
  "select_loop [] s = Inr s"
| "select_loop (Select_Failed # ws) s = Inr (s\<lparr>closed := closed s @ [serv_sock s]\<rparr>)"
| "select_loop (Timed_Out # ws) s = select_loop ws s"
| "select_loop (Ready fds env # ws) s =
     cbind (scan_fds 0 (fds \<inter> reads s) env s) (\<lambda>t. select_loop ws t)"

subsection \<open>The server's invariant\<close>

definition select_wf :: "select_server \<Rightarrow> bool" where
  "select_wf s \<longleftrightarrow> 0 \<le> serv_sock s \<and> serv_sock s \<in> reads s
     \<and> (\<forall>fd \<in> reads s. 0 \<le> fd \<and> fd \<le> fd_max s) \<and> fd_max s < FD_SETSIZE
     \<and> length (sel_buf s) = SEL_BUF"

text \<open>What the environment may deliver on a descriptor without a fault: \<^verbatim>\<open>accept\<close> succeeds
  below \<open>FD_SETSIZE\<close>, \<^verbatim>\<open>read\<close> succeeds with fewer bytes than the buffer has.\<close>

definition benign :: "arrival \<Rightarrow> bool" where
  "benign a = (case a of Conn c \<Rightarrow> 0 \<le> c \<and> c < FD_SETSIZE | Bytes d \<Rightarrow> length d < SEL_BUF
     | Read_Failed \<Rightarrow> False)"

definition client_text :: "int \<Rightarrow> bytes \<Rightarrow> bytes" where
  "client_text i d = ''[Client '' @ show_int i @ '']: '' @ cstr d"

lemma client_text_no_nul: "NUL \<notin> set (client_text i d)"
  using show_int_plain [of i] by (auto simp: client_text_def)

lemma cstr_append_nul: "cstr (d @ NUL # r) = cstr d"
  by (induction d) auto

lemma on_data_eq:
  assumes "select_wf s" "length d < SEL_BUF" "0 \<le> i" "i < FD_SETSIZE"
  shows "on_data i d s = Inr (s\<lparr>sel_buf := d @ NUL # drop (Suc (length d)) (sel_buf s),
     console := console s @ [client_text i d], out := out s @ map (\<lambda>j. (j, client_text i d)) (relay_to i s)\<rparr>)"
proof -
  let ?b = "d @ NUL # drop (Suc (length d)) (sel_buf s)"
  have b: "set_byte (fill (sel_buf s) d) (int (length d)) NUL = Inr ?b"
    using assms(1,2) by (intro fill_terminate) (simp add: select_wf_def)
  have t: "read_cstr ?b = Inr (cstr d)"
    by (simp add: read_cstr_def terminated_def cstr_append_nul)
  have "length (show_int i) \<le> 11"
    using assms(3,4) by (intro length_show_int) (simp_all add: FD_SETSIZE_def)
  moreover have "length (cstr d) < SEL_BUF" using length_cstr_le [of d] assms(2) by linarith
  ultimately have "length (client_text i d) < SEL_BUF + 30"
    by (simp add: client_text_def)
  then obtain m where m: "store_cstr (replicate (SEL_BUF + 30) NUL) (client_text i d) = Inr m"
    by (simp add: store_cstr_def)
  have "cstr m = client_text i d"
    by (rule cstr_store_cstr [OF m client_text_no_nul])
  with b t m show ?thesis by (simp add: on_data_def client_text_def)
qed


lemma on_connect_wf:
  assumes "select_wf s" "0 \<le> c" "c < FD_SETSIZE"
  shows "\<exists>t. on_connect c s = Inr t \<and> select_wf t \<and> serv_sock t = serv_sock s \<and> fd_max s \<le> fd_max t"
  using assms by (auto simp: on_connect_def fd_set_def select_wf_def)

lemma on_data_wf:
  assumes "select_wf s" "length d < SEL_BUF" "0 \<le> i" "i < FD_SETSIZE"
  shows "\<exists>t. on_data i d s = Inr t \<and> select_wf t \<and> serv_sock t = serv_sock s \<and> fd_max s \<le> fd_max t"
  using on_data_eq [OF assms] assms by (auto simp: select_wf_def)

lemma on_close_wf:
  "select_wf s \<Longrightarrow> i \<noteq> serv_sock s \<Longrightarrow>
   select_wf (on_close i s) \<and> serv_sock (on_close i s) = serv_sock s \<and> fd_max s \<le> fd_max (on_close i s)"
  by (auto simp: on_close_def select_wf_def)

lemma serve_fd_wf:
  assumes "select_wf s" "benign a" "0 \<le> i" "i < FD_SETSIZE"
  shows "\<exists>t. serve_fd i a s = Inr t \<and> select_wf t \<and> serv_sock t = serv_sock s \<and> fd_max s \<le> fd_max t"
  using assms on_connect_wf [OF assms(1)] on_data_wf [OF assms(1) _ assms(3,4)] on_close_wf [OF assms(1)]
  by (auto simp: serve_fd_def benign_def split: arrival.splits)

lemma scan_fds_wf:
  assumes "select_wf s" "\<forall>k \<in> c. benign (env k)" "0 \<le> i"
  shows "\<exists>t. scan_fds i c env s = Inr t \<and> select_wf t \<and> serv_sock t = serv_sock s"
  using assms
proof (induction i c env s rule: scan_fds.induct)
  case (1 i c env s)
  show ?case
  proof (cases "fd_max s + 1 \<le> i")
    case True
    with "1.prems" show ?thesis by (simp add: scan_fds.simps [of i])
  next
    case False
    then have i: "\<not> FD_SETSIZE \<le> i" using "1.prems"(1) by (auto simp: select_wf_def)
    show ?thesis
    proof (cases "i \<in> c")
      case True
      then obtain t where t: "serve_fd i (env i) s = Inr t" "select_wf t" "serv_sock t = serv_sock s"
        using serve_fd_wf [OF "1.prems"(1), of "env i" i] "1.prems" i by auto
      then have "scan_fds i c env s = scan_fds (i + 1) c env t"
        using False i True by (simp add: scan_fds.simps [of i])
      moreover have "0 \<le> i + 1" using "1.prems"(3) by simp
      ultimately show ?thesis
        using "1.IH"(1) [OF False i True t(1) t(2) "1.prems"(2)] t(3) by simp
    next
      case no: False
      then have "scan_fds i c env s = scan_fds (i + 1) c env s"
        using False i by (simp add: scan_fds.simps [of i])
      moreover have "0 \<le> i + 1" using "1.prems"(3) by simp
      ultimately show ?thesis
        using "1.IH"(2) [OF False i no "1.prems"(1,2)] by simp
    qed
  qed
qed

definition benign_wake :: "wake \<Rightarrow> bool" where
  "benign_wake w = (case w of Ready fds env \<Rightarrow> (\<forall>k \<in> fds. benign (env k)) | _ \<Rightarrow> True)"

lemma select_loop_wf:
  "select_wf s \<Longrightarrow> \<forall>w \<in> set ws. benign_wake w \<Longrightarrow>
   \<exists>t. select_loop ws s = Inr t \<and> select_wf t \<and> serv_sock t = serv_sock s"
proof (induction ws s rule: select_loop.induct)
  case (4 fds env ws s)
  then obtain t where t: "scan_fds 0 (fds \<inter> reads s) env s = Inr t" "select_wf t" "serv_sock t = serv_sock s"
    using scan_fds_wf [of s "fds \<inter> reads s" env 0] by (auto simp: benign_wake_def)
  have "\<forall>w \<in> set ws. benign_wake w" using "4.prems"(2) by simp
  then obtain u where "select_loop ws t = Inr u" "select_wf u" "serv_sock u = serv_sock t"
    using "4.IH" [OF t(2)] by blast
  with t show ?case by simp
qed (auto simp: select_wf_def)

lemma select_init_wf: "0 \<le> sk \<Longrightarrow> sk < FD_SETSIZE \<Longrightarrow> length buf = SEL_BUF \<Longrightarrow> select_wf (select_init sk buf)"
  by (simp add: select_wf_def select_init_def)

subsection \<open>Properties of the server\<close>

text \<open>
  Property C13.  While \<^verbatim>\<open>accept\<close> succeeds below \<^verbatim>\<open>FD_SETSIZE\<close> and \<^verbatim>\<open>read\<close> delivers fewer
  bytes than the buffer has, no pass of the server's loop, in any number and order, faults:
  every watched descriptor stays between 0 and \<^verbatim>\<open>fd_max\<close>, which stays in the range of an
  \<^verbatim>\<open>fd_set\<close>, and the listening socket stays watched.
\<close>

theorem select_loop_safe:
  assumes "0 \<le> sk" and "sk < FD_SETSIZE" and "length buf = SEL_BUF" and "\<forall>w \<in> set ws. benign_wake w"
  shows "\<exists>t. select_loop ws (select_init sk buf) = Inr t \<and> select_wf t"
  using select_loop_wf [OF select_init_wf [OF assms(1-3)] assms(4)] by auto

definition chat_pass :: "wake list" where
  "chat_pass = [Ready {3} (\<lambda>_. Conn 4), Ready {3} (\<lambda>_. Conn 5), Timed_Out, Ready {4} (\<lambda>_. Bytes ''hi''),
     Ready {5} (\<lambda>_. Bytes [])]"

theorem select_loop_safe_witness:
  "\<exists>t. select_loop chat_pass (select_init 3 (replicate SEL_BUF NUL)) = Inr t \<and> select_wf t"
proof -
  have "\<forall>w \<in> set chat_pass. benign_wake w"
    by (simp add: chat_pass_def benign_wake_def benign_def FD_SETSIZE_def SEL_BUF_def)
  then show ?thesis
    using select_loop_safe [of 3 "replicate SEL_BUF NUL" chat_pass] by (simp add: FD_SETSIZE_def)
qed

text \<open>What a pass in which only data arrives writes: for each reporting client, in the order
  of the descriptors, its message to every other client.\<close>

definition relayed :: "int \<Rightarrow> int set \<Rightarrow> (int \<Rightarrow> bytes) \<Rightarrow> select_server \<Rightarrow> (int \<times> bytes) list" where
  "relayed i c d s = concat (map (\<lambda>k. map (\<lambda>j. (j, client_text k (d k))) (relay_to k s))
     (filter (\<lambda>k. k \<in> c) [i..fd_max s]))"

lemma scan_fds_data:
  assumes "select_wf s" "\<forall>k \<in> c. k \<noteq> serv_sock s \<and> d k \<noteq> [] \<and> length (d k) < SEL_BUF" "0 \<le> i"
  shows "\<exists>t. scan_fds i c (\<lambda>k. Bytes (d k)) s = Inr t \<and> reads t = reads s \<and> fd_max t = fd_max s
    \<and> out t = out s @ relayed i c d s"
  using assms
proof (induction i c "\<lambda>k. Bytes (d k)" s rule: scan_fds.induct)
  case (1 i c s)
  show ?case
  proof (cases "fd_max s + 1 \<le> i")
    case True
    then show ?thesis by (simp add: scan_fds.simps [of i] relayed_def)
  next
    case False
    then have i: "\<not> FD_SETSIZE \<le> i" using "1.prems"(1) by (auto simp: select_wf_def)
    have cons: "[i..fd_max s] = i # [i + 1..fd_max s]" using False by (simp add: upto.simps [of i])
    show ?thesis
    proof (cases "i \<in> c")
      case True
      let ?t = "s\<lparr>sel_buf := d i @ NUL # drop (Suc (length (d i))) (sel_buf s),
        console := console s @ [client_text i (d i)],
        out := out s @ map (\<lambda>j. (j, client_text i (d i))) (relay_to i s)\<rparr>"
      have t: "serve_fd i (Bytes (d i)) s = Inr ?t"
        using on_data_eq [OF "1.prems"(1), of "d i" i] True "1.prems"(2,3) i by (simp add: serve_fd_def)
      then have "scan_fds i c (\<lambda>k. Bytes (d k)) s = scan_fds (i + 1) c (\<lambda>k. Bytes (d k)) ?t"
        using False i True by (simp add: scan_fds.simps [of i])
      moreover have "select_wf ?t" using "1.prems" True by (auto simp: select_wf_def)
      moreover have "relay_to k ?t = relay_to k s" for k by (simp add: relay_to_def)
      ultimately show ?thesis
        using "1.hyps"(1) [OF False i True t] "1.prems" True cons
        by (simp add: relayed_def)
    next
      case no: False
      then have "scan_fds i c (\<lambda>k. Bytes (d k)) s = scan_fds (i + 1) c (\<lambda>k. Bytes (d k)) s"
        using False i by (simp add: scan_fds.simps [of i])
      then show ?thesis
        using "1.hyps"(2) [OF False i no] "1.prems" no cons by (simp add: relayed_def)
    qed
  qed
qed

text \<open>
  Property C12.  The relay: in a pass in which clients (not the listening socket) deliver
  data that fits, each message is written, prefixed with its sender's number, exactly once to
  every other watched client, never back to the sender or to the listening socket, in the
  order of the descriptors, after everything written before; no connection is lost.
\<close>

theorem relay_pass:
  assumes "select_wf s" and "fds \<subseteq> reads s - {serv_sock s}"
    and "\<forall>k \<in> fds. d k \<noteq> [] \<and> length (d k) < SEL_BUF"
  shows "\<exists>t. select_loop [Ready fds (\<lambda>k. Bytes (d k))] s = Inr t \<and> reads t = reads s
    \<and> out t = out s @ relayed 0 fds d s
    \<and> (\<forall>k \<in> fds. set (relay_to k s) = reads s - {serv_sock s, k} \<and> distinct (relay_to k s))"
proof -
  have "fds \<inter> reads s = fds" using assms(2) by blast
  moreover have "\<forall>k \<in> fds. k \<noteq> serv_sock s \<and> d k \<noteq> [] \<and> length (d k) < SEL_BUF"
    using assms(2,3) by blast
  moreover have "set (relay_to k s) = reads s - {serv_sock s, k} \<and> distinct (relay_to k s)" for k
    using assms(1) by (auto simp: relay_to_def select_wf_def)
  ultimately show ?thesis using scan_fds_data [OF assms(1), of fds d 0] by auto
qed


definition three_clients :: select_server where
  "three_clients = (select_init 3 (replicate SEL_BUF NUL))\<lparr>reads := {3, 4, 5, 6}, fd_max := 6\<rparr>"

lemma three_clients_wf: "select_wf three_clients"
  by (simp add: three_clients_def select_init_def select_wf_def FD_SETSIZE_def)

theorem relay_pass_witness:
  "\<exists>t. select_loop [Ready {5} (\<lambda>k. Bytes ''hi'')] three_clients = Inr t
     \<and> out t = [(4, client_text 5 ''hi''), (6, client_text 5 ''hi'')]"
  using relay_pass [OF three_clients_wf, of "{5}" "\<lambda>k. ''hi''"]
  by (auto simp: three_clients_def select_init_def SEL_BUF_def relayed_def relay_to_def upto.simps
      simp del: select_loop.simps)

text \<open>
  What faults: data on a client's descriptor is handled without an access out
  of bounds exactly when it is shorter than the buffer (\<^verbatim>\<open>read\<close> asks for all 1024 bytes, so
  a full one has its terminator written past the array), a failed \<^verbatim>\<open>read\<close> never is, and a
  connection exactly when its descriptor fits an \<^verbatim>\<open>fd_set\<close>.
\<close>

lemma serve_fd_faults:
  assumes "select_wf s" and "i \<in> reads s" and "i \<noteq> serv_sock s" and "length d \<le> SEL_BUF"
  shows "(c_ok (serve_fd i (Bytes d) s) \<longleftrightarrow> length d < SEL_BUF)
    \<and> serve_fd i Read_Failed s = Inl Out_Of_Bounds
    \<and> (c_ok (serve_fd (serv_sock s) (Conn c) s) \<longleftrightarrow> 0 \<le> c \<and> c < FD_SETSIZE)"
proof (intro conjI)
  have i: "0 \<le> i" "i < FD_SETSIZE" using assms(1,2) by (auto simp: select_wf_def)
  show "c_ok (serve_fd i (Bytes d) s) \<longleftrightarrow> length d < SEL_BUF"
  proof (cases "length d < SEL_BUF")
    case True
    with serve_fd_wf [OF assms(1) _ i, of "Bytes d"] show ?thesis
      by (auto simp: benign_def c_ok_iff)
  next
    case False
    then have "length d = length (sel_buf s)" "d \<noteq> []"
      using assms(1,4) by (auto simp: select_wf_def SEL_BUF_def)
    with False assms(3) fill_terminate_overrun [of d "sel_buf s"] show ?thesis
      by (simp add: serve_fd_def on_data_def)
  qed
  show "serve_fd i Read_Failed s = Inl Out_Of_Bounds"
    using assms(3) by (simp add: serve_fd_def set_byte_def)
  show "c_ok (serve_fd (serv_sock s) (Conn c) s) \<longleftrightarrow> 0 \<le> c \<and> c < FD_SETSIZE"
    by (auto simp: serve_fd_def on_connect_def fd_set_def)
qed

lemma serve_fd_faults_example:
  "\<not> c_ok (serve_fd 4 (Bytes (replicate SEL_BUF (CHR ''a''))) three_clients)"
  using serve_fd_faults [OF three_clients_wf, of 4 "replicate SEL_BUF (CHR ''a'')"]
  by (simp add: three_clients_def select_init_def)

subsection \<open>The client\<close>

record chat_client =
  cl_buf :: bytes \<comment> \<open>\<^verbatim>\<open>char buf[BUF_SIZE]\<close>\<close>
  stdin :: bytes \<comment> \<open>what the keyboard will still deliver\<close>
  shown :: "bytes list"
  cl_sent :: "bytes list" \<comment> \<open>what was written to the server\<close>
  running :: bool

text \<open>\<^verbatim>\<open>FD_ISSET(sock)\<close>: the server sent something, or closed.\<close>

definition from_server :: "arrival \<Rightarrow> chat_client \<Rightarrow> chat_client cres" where
  "from_server a s = (case a of
      Bytes d \<Rightarrow>
        if d = [] then Inr (s\<lparr>running := False\<rparr>)
        else cbind (set_byte (fill (cl_buf s) d) (int (length d)) NUL) (\<lambda>buf.
             cbind (read_cstr buf) (\<lambda>text. Inr (s\<lparr>cl_buf := buf, shown := shown s @ [text]\<rparr>)))
    | _ \<Rightarrow> cbind (set_byte (cl_buf s) (-1) NUL) (\<lambda>buf. Inr s))"

text \<open>\<^verbatim>\<open>FD_ISSET(0)\<close>: the escape sequence erases the line that the terminal echoed.\<close>

definition from_keyboard :: "chat_client \<Rightarrow> chat_client" where
  "from_keyboard s =
     (let line = fgets_chunk SEL_BUF (stdin s);
          s' = s\<lparr>stdin := fgets_rest SEL_BUF (stdin s), cl_buf := fill (cl_buf s) (line @ [NUL])\<rparr>;
          text = cstr (cl_buf s') in
      if line = [] then s
      else if text = [CHR ''q'', NL] \<or> text = [CHR ''Q'', NL] then s'\<lparr>running := False\<rparr>
      else s'\<lparr>shown := shown s @ [[CHR 0x1B] @ ''[1A'' @ [CHR 0x1B] @ ''[2K'', ''[Me] > '' @ text],
              cl_sent := cl_sent s @ [text]\<rparr>)"

text \<open>One turn: \<open>sv\<close> is what the server's socket delivered, if \<^verbatim>\<open>select\<close> reported it, and
  \<open>kb\<close> whether the keyboard was reported.  \<^verbatim>\<open>read\<close> asks for one byte less than the buffer.\<close>

definition client_turn :: "arrival option \<Rightarrow> bool \<Rightarrow> chat_client \<Rightarrow> chat_client cres" where
  "client_turn sv kb s =
     (if \<not> running s then Inr s
      else cbind (case sv of None \<Rightarrow> Inr s | Some a \<Rightarrow> from_server a s) (\<lambda>t.
        Inr (if running t \<and> kb then from_keyboard t else t)))"

fun client_turns :: "(arrival option \<times> bool) list \<Rightarrow> chat_client \<Rightarrow> chat_client cres" where
  "client_turns [] s = Inr s"
| "client_turns ((sv, kb) # ts) s = cbind (client_turn sv kb s) (client_turns ts)"

text \<open>A line the client forwards: it ends with its only newline, fits the buffer, and is
  neither of the two quit commands.\<close>

definition chat_line :: "bytes \<Rightarrow> bool" where
  "chat_line l \<longleftrightarrow> NL \<notin> set l \<and> NUL \<notin> set l \<and> Suc (length l) < SEL_BUF \<and> l \<noteq> ''q'' \<and> l \<noteq> ''Q''"

lemma from_keyboard_line:
  assumes "NL \<notin> set l" "NUL \<notin> set l" "Suc (length l) < SEL_BUF" "stdin s = l @ NL # r"
  shows "fgets_chunk SEL_BUF (stdin s) = l @ [NL]" "fgets_rest SEL_BUF (stdin s) = r"
    "cstr (fill b (fgets_chunk SEL_BUF (stdin s) @ [NUL])) = l @ [NL]"
proof -
  show c: "fgets_chunk SEL_BUF (stdin s) = l @ [NL]"
    unfolding assms(4) by (rule fgets_chunk_line [OF assms(1,3)])
  then show "fgets_rest SEL_BUF (stdin s) = r" by (simp add: fgets_rest_def assms(4))
  have "NUL \<notin> set (l @ [NL])" using assms(2) by simp
  then have "cstr ((l @ [NL]) @ NUL # x) = l @ [NL]" for x by (rule cstr_terminator)
  then show "cstr (fill b (fgets_chunk SEL_BUF (stdin s) @ [NUL])) = l @ [NL]"
    unfolding c by (simp add: fill_def)
qed

lemma keyboard_turns:
  assumes "\<forall>l \<in> set ls. chat_line l" "stdin s = concat (map (\<lambda>l. l @ [NL]) ls) @ r" "running s"
  shows "\<exists>t. client_turns (replicate (length ls) (None, True)) s = Inr t
    \<and> cl_sent t = cl_sent s @ map (\<lambda>l. l @ [NL]) ls \<and> stdin t = r \<and> running t"
  using assms
proof (induction ls arbitrary: s)
  case (Cons l ls)
  then have l: "NL \<notin> set l" "NUL \<notin> set l" "Suc (length l) < SEL_BUF" "l \<noteq> ''q''" "l \<noteq> ''Q''"
    by (simp_all add: chat_line_def)
  have st: "stdin s = l @ NL # concat (map (\<lambda>l. l @ [NL]) ls) @ r" using Cons.prems(2) by simp
  note k = from_keyboard_line [OF l(1-3) st]
  let ?t = "from_keyboard s"
  have q: "l @ [NL] \<noteq> [CHR ''q'', NL]" "l @ [NL] \<noteq> [CHR ''Q'', NL]"
    using l(4,5) by (auto simp: append_eq_Cons_conv)
  have t: "cl_sent ?t = cl_sent s @ [l @ [NL]]" "stdin ?t = concat (map (\<lambda>l. l @ [NL]) ls) @ r" "running ?t"
    using k q Cons.prems(3) by (simp_all add: from_keyboard_def Let_def)
  have "client_turn None True s = Inr ?t"
    using Cons.prems(3) by (simp add: client_turn_def)
  with Cons.IH [OF _ t(2,3)] Cons.prems(1) t(1) show ?case by auto
qed simp

text \<open>
  The client forwards what is typed: from lines that fit its buffer it writes
  to the server exactly those lines, in order, one per turn, and a line \<^verbatim>\<open>q\<close> ends it without
  being sent; whatever is typed after it is not read.
\<close>

lemma client_forwards:
  assumes "\<forall>l \<in> set ls. chat_line l" and "running s"
    and "stdin s = concat (map (\<lambda>l. l @ [NL]) ls) @ [CHR ''q'', NL] @ r"
  shows "\<exists>t. client_turns (replicate (length ls) (None, True) @ (None, True) # ts) s = Inr t
    \<and> cl_sent t = cl_sent s @ map (\<lambda>l. l @ [NL]) ls \<and> stdin t = r \<and> \<not> running t"
proof -
  obtain t where t: "client_turns (replicate (length ls) (None, True)) s = Inr t"
    "cl_sent t = cl_sent s @ map (\<lambda>l. l @ [NL]) ls" "stdin t = [CHR ''q'', NL] @ r" "running t"
    using keyboard_turns [OF assms(1,3,2)] by blast
  have app: "client_turns (xs @ ys) u = cbind (client_turns xs u) (client_turns ys)" for xs ys u
  proof (induction xs arbitrary: u)
    case (Cons x xs)
    then show ?case by (cases x; cases "client_turn (fst x) (snd x) u") auto
  qed simp
  have stop: "client_turns ts u = Inr u" if "\<not> running u" for u
    using that by (induction ts) (auto simp: client_turn_def)
  have st: "stdin t = ''q'' @ NL # r" using t(3) by simp
  note k = from_keyboard_line [OF _ _ _ st]
  let ?u = "from_keyboard t"
  have u: "cl_sent ?u = cl_sent t" "stdin ?u = r" "\<not> running ?u"
    using k by (simp_all add: from_keyboard_def Let_def SEL_BUF_def)
  have "client_turn None True t = Inr ?u" using t(4) by (simp add: client_turn_def)
  then show ?thesis using app t stop [OF u(3)] u by simp
qed

lemma client_forwards_example:
  "\<exists>t. client_turns [(None, True), (None, True)]
      \<lparr>cl_buf = replicate SEL_BUF NUL, stdin = [CHR ''h'', CHR ''i'', NL, CHR ''q'', NL],
       shown = [], cl_sent = [], running = True\<rparr> = Inr t \<and> cl_sent t = [[CHR ''h'', CHR ''i'', NL]]"
  using client_forwards [of "[''hi'']" "\<lparr>cl_buf = replicate SEL_BUF NUL,
      stdin = [CHR ''h'', CHR ''i'', NL, CHR ''q'', NL], shown = [], cl_sent = [], running = True\<rparr>" "[]" "[]"]
  by (auto simp: chat_line_def SEL_BUF_def simp del: client_turns.simps)

end
