(* ===== verification/File_Store.thy ===== *)
theory File_Store
  imports C_Prelude
begin

section \<open>The file system under the shell\<close>

text \<open>
  What the commands of \<^verbatim>\<open>project1/commands.c\<close> use of POSIX: names, hard and symbolic links,
  directories, path resolution, and the calls \<^verbatim>\<open>open\<close>, \<^verbatim>\<open>unlink\<close>, \<^verbatim>\<open>rename\<close>, \<^verbatim>\<open>link\<close>,
  \<^verbatim>\<open>symlink\<close>, \<^verbatim>\<open>mkdir\<close>, \<^verbatim>\<open>rmdir\<close>, \<^verbatim>\<open>chdir\<close>, \<^verbatim>\<open>getcwd\<close>, \<^verbatim>\<open>access\<close>, \<^verbatim>\<open>readdir\<close>,
  \<^verbatim>\<open>lstat\<close> by their documented meaning.  A name is the path of its components from the
  root, bound to an inode number; directories have one name, files and symbolic links any
  number.  The caller is a user whom no permission stops and the disk does not fill up; a
  slash at the end of a path is ignored.
\<close>

subsection \<open>State\<close>

type_synonym path = "bytes list"

datatype kind = K_Dir | K_File bytes | K_Link bytes

record inode =
  i_kind :: kind
  i_mode :: nat \<comment> \<open>the permission bits\<close>
  i_uid :: nat
  i_gid :: nat
  i_mtime :: nat

record fs =
  names :: "(path \<times> nat) list"
  inodes :: "nat \<Rightarrow> inode option"
  next_ino :: nat
  cwd :: path
  umask :: nat
  user :: "nat \<times> nat" \<comment> \<open>the caller's user and group\<close>
  now :: nat

datatype errno = ENOENT | EEXIST | ENOTDIR | EISDIR | ENOTEMPTY | ELOOP | EINVAL | EBUSY | EPERM | EFAULT | ERANGE | EAGAIN | EMFILE

subsection \<open>The table of names\<close>

definition lookup :: "(path \<times> nat) list \<Rightarrow> path \<Rightarrow> nat option" where
  "lookup t p = map_of t p"

definition bind_name :: "path \<Rightarrow> nat \<Rightarrow> (path \<times> nat) list \<Rightarrow> (path \<times> nat) list" where
  "bind_name p n t = t @ [(p, n)]"

definition unbind_name :: "path \<Rightarrow> (path \<times> nat) list \<Rightarrow> (path \<times> nat) list" where
  "unbind_name p t = filter (\<lambda>(q, n). q \<noteq> p) t"

definition moved :: "path \<Rightarrow> path \<Rightarrow> path \<Rightarrow> path" where
  "moved old new p = (if take (length old) p = old then new @ drop (length old) p else p)"

definition move_names :: "path \<Rightarrow> path \<Rightarrow> (path \<times> nat) list \<Rightarrow> (path \<times> nat) list" where
  "move_names old new t = map (\<lambda>(q, n). (moved old new q, n)) (unbind_name new t)"

text \<open>What the calls rely on: a table of names is a finite map.\<close>

locale name_table =
  fixes look :: "'t \<Rightarrow> path \<Rightarrow> nat option" and bnd :: "path \<Rightarrow> nat \<Rightarrow> 't \<Rightarrow> 't"
    and unb :: "path \<Rightarrow> 't \<Rightarrow> 't"
  assumes look_bind: "look t p = None \<Longrightarrow> look (bnd p n t) = (look t)(p \<mapsto> n)"
    and look_unbind: "look (unb p t) = (look t)(p := None)"
begin

lemma unbind_bind: "look t p = None \<Longrightarrow> look (unb p (bnd p n t)) = look t"
  by (simp add: look_bind look_unbind fun_upd_idem)

lemma bind_unbind: "look t p = Some n \<Longrightarrow> look (bnd p n (unb p t)) = look t"
  by (subst look_bind) (simp_all add: look_unbind fun_upd_idem)

end

lemma map_of_filter_key: "map_of (filter (\<lambda>(q, n). q \<noteq> p) t) = (map_of t)(p := None)"
  by (induction t) (auto simp: fun_eq_iff)

lemma map_of_append_new: "map_of t p = None \<Longrightarrow> map_of (t @ [(p, n)]) = (map_of t)(p \<mapsto> n)"
  by (auto simp: fun_eq_iff map_add_def split: option.splits)

interpretation table: name_table lookup bind_name unbind_name
  by unfold_locales
     (auto simp: lookup_def [abs_def] bind_name_def unbind_name_def map_of_filter_key map_of_append_new
       fun_eq_iff simp del: map_of_append)

subsection \<open>Path resolution\<close>

definition inode_at :: "fs \<Rightarrow> path \<Rightarrow> inode option" where
  "inode_at f p = (case lookup (names f) p of None \<Rightarrow> None | Some n \<Rightarrow> inodes f n)"

definition kind_at :: "fs \<Rightarrow> path \<Rightarrow> kind option" where
  "kind_at f p = map_option i_kind (inode_at f p)"

text \<open>The components of a path: what stands between the slashes, if anything.\<close>

fun components :: "bytes \<Rightarrow> bytes \<Rightarrow> bytes list" where
  "components w [] = (if w = [] then [] else [w])"
| "components w (c # s) =
     (if c = CHR ''/'' then (if w = [] then components [] s else w # components [] s)
      else components (w @ [c]) s)"

text \<open>Walking the components from a directory.  \<open>n\<close> bounds the symbolic links that are
  followed (Linux gives up after 40); \<open>follow\<close> says whether the last component is
  followed.  The last component need not exist.\<close>

function walk :: "fs \<Rightarrow> nat \<Rightarrow> bool \<Rightarrow> path \<Rightarrow> bytes list \<Rightarrow> errno + path" where
  "walk f n follow cur [] = Inr cur"
| "walk f n follow cur (c # cs) =
     (if c = ''.'' then walk f n follow cur cs
      else if c = ''..'' then walk f n follow (butlast cur) cs
      else case kind_at f (cur @ [c]) of
          None \<Rightarrow> if cs = [] then Inr (cur @ [c]) else Inl ENOENT
        | Some K_Dir \<Rightarrow> walk f n follow (cur @ [c]) cs
        | Some (K_File d) \<Rightarrow> if cs = [] then Inr (cur @ [c]) else Inl ENOTDIR
        | Some (K_Link t) \<Rightarrow>
            if cs = [] \<and> \<not> follow then Inr (cur @ [c])
            else (case n of
                0 \<Rightarrow> Inl ELOOP
              | Suc m \<Rightarrow> walk f m follow (if starts ''/'' t then [] else cur) (components [] t @ cs)))"
  by pat_completeness auto
termination
  by (relation "measures [\<lambda>(f, n, follow, cur, cs). n, \<lambda>(f, n, follow, cur, cs). length cs]") auto

declare walk.simps(2) [simp del]

definition max_links :: nat where "max_links = 40"

definition resolve :: "bool \<Rightarrow> bytes \<Rightarrow> fs \<Rightarrow> errno + path" where
  "resolve follow s f =
     (if s = [] then Inl ENOENT
      else if starts ''/'' s then walk f max_links follow [] (components [] s)
      else if kind_at f (cwd f) = Some K_Dir then walk f max_links follow (cwd f) (components [] s)
      else Inl ENOENT)"

text \<open>The last component of a path names the directory itself or its parent.\<close>

definition ends_in_dots :: "bytes \<Rightarrow> bool" where
  "ends_in_dots s = (let cs = components [] s in cs = [] \<or> last cs = ''.'' \<or> last cs = ''..'')"

subsection \<open>The calls\<close>

text \<open>An existing object: its path and inode number.\<close>

definition find :: "bool \<Rightarrow> bytes \<Rightarrow> fs \<Rightarrow> errno + (path \<times> nat)" where
  "find follow s f = (case resolve follow s f of
      Inl e \<Rightarrow> Inl e
    | Inr p \<Rightarrow> (case lookup (names f) p of None \<Rightarrow> Inl ENOENT | Some n \<Rightarrow> Inr (p, n)))"

definition new_inode :: "path \<Rightarrow> kind \<Rightarrow> nat \<Rightarrow> fs \<Rightarrow> fs" where
  "new_inode p k mode f = f\<lparr>names := bind_name p (next_ino f) (names f),
     inodes := (inodes f)(next_ino f \<mapsto> \<lparr>i_kind = k, i_mode = mode, i_uid = fst (user f),
       i_gid = snd (user f), i_mtime = now f\<rparr>),
     next_ino := next_ino f + 1\<rparr>"

definition masked :: "nat \<Rightarrow> fs \<Rightarrow> nat" where
  "masked mode f = foldl (\<lambda>m b. if bit (umask f) b then unset_bit b m else m) mode [0..<9]"

definition content :: "fs \<Rightarrow> nat \<Rightarrow> bytes option" where
  "content f n = (case inodes f n of Some i \<Rightarrow> (case i_kind i of K_File d \<Rightarrow> Some d | _ \<Rightarrow> None) | None \<Rightarrow> None)"

definition set_content :: "nat \<Rightarrow> bytes \<Rightarrow> fs \<Rightarrow> fs" where
  "set_content n d f = (case inodes f n of
      None \<Rightarrow> f
    | Some i \<Rightarrow> f\<lparr>inodes := (inodes f)(n \<mapsto> i\<lparr>i_kind := K_File d, i_mtime := now f\<rparr>)\<rparr>)"

text \<open>\<^verbatim>\<open>open(s, O_RDONLY)\<close>: the inode; a directory can be opened, reading it then fails.\<close>

definition sys_open_read :: "bytes \<Rightarrow> fs \<Rightarrow> errno + nat" where
  "sys_open_read s f = (case find True s f of Inl e \<Rightarrow> Inl e | Inr (p, n) \<Rightarrow> Inr n)"

text \<open>\<^verbatim>\<open>open(s, O_WRONLY | O_CREAT | O_TRUNC, mode)\<close>.\<close>

definition sys_open_write :: "bytes \<Rightarrow> nat \<Rightarrow> fs \<Rightarrow> errno + (nat \<times> fs)" where
  "sys_open_write s mode f = (case resolve True s f of
      Inl e \<Rightarrow> Inl e
    | Inr p \<Rightarrow> (case lookup (names f) p of
          None \<Rightarrow> Inr (next_ino f, new_inode p (K_File []) (masked mode f) f)
        | Some n \<Rightarrow> if content f n = None then Inl EISDIR else Inr (n, set_content n [] f)))"

definition sys_access :: "bytes \<Rightarrow> fs \<Rightarrow> bool" where
  "sys_access s f = (case find True s f of Inl e \<Rightarrow> False | Inr pn \<Rightarrow> True)"

definition sys_unlink :: "bytes \<Rightarrow> fs \<Rightarrow> errno + fs" where
  "sys_unlink s f = (case find False s f of
      Inl e \<Rightarrow> Inl e
    | Inr (p, n) \<Rightarrow> if kind_at f p = Some K_Dir then Inl EISDIR
        else Inr (f\<lparr>names := unbind_name p (names f)\<rparr>))"

definition sys_link :: "bytes \<Rightarrow> bytes \<Rightarrow> fs \<Rightarrow> errno + fs" where
  "sys_link old new f = (case find False old f of
      Inl e \<Rightarrow> Inl e
    | Inr (p, n) \<Rightarrow> (case resolve False new f of
          Inl e \<Rightarrow> Inl e
        | Inr q \<Rightarrow> if lookup (names f) q \<noteq> None then Inl EEXIST
            else if kind_at f p = Some K_Dir then Inl EPERM
            else Inr (f\<lparr>names := bind_name q n (names f)\<rparr>)))"

definition sys_symlink :: "bytes \<Rightarrow> bytes \<Rightarrow> fs \<Rightarrow> errno + fs" where
  "sys_symlink target new f =
     (if target = [] then Inl ENOENT
      else case resolve False new f of
          Inl e \<Rightarrow> Inl e
        | Inr q \<Rightarrow> if lookup (names f) q \<noteq> None then Inl EEXIST
            else Inr (new_inode q (K_Link target) 511 f))"

definition sys_mkdir :: "bytes \<Rightarrow> nat \<Rightarrow> fs \<Rightarrow> errno + fs" where
  "sys_mkdir s mode f = (case resolve False s f of
      Inl e \<Rightarrow> Inl e
    | Inr q \<Rightarrow> if lookup (names f) q \<noteq> None then Inl EEXIST
        else Inr (new_inode q K_Dir (masked mode f) f))"

text \<open>The names directly below a directory, in the order of the table.\<close>

definition children :: "path \<Rightarrow> fs \<Rightarrow> bytes list" where
  "children d f = map (\<lambda>(p, n). last p) (filter (\<lambda>(p, n). p \<noteq> [] \<and> butlast p = d) (names f))"

definition sys_rmdir :: "bytes \<Rightarrow> fs \<Rightarrow> errno + fs" where
  "sys_rmdir s f = (case find False s f of
      Inl e \<Rightarrow> Inl e
    | Inr (p, n) \<Rightarrow>
        if kind_at f p \<noteq> Some K_Dir then Inl ENOTDIR
        else if p = [] then Inl EBUSY
        else if last (components [] s) = ''.'' then Inl EINVAL
        else if children p f \<noteq> [] then Inl ENOTEMPTY
        else Inr (f\<lparr>names := unbind_name p (names f)\<rparr>))"

text \<open>\<^verbatim>\<open>rename\<close>: two names of one inode are left as they are; an existing target is replaced
  if it is no directory, or an empty one and the source is a directory too; a directory
  cannot be moved below itself.  The working directory stays the same directory.\<close>

definition sys_rename :: "bytes \<Rightarrow> bytes \<Rightarrow> fs \<Rightarrow> errno + fs" where
  "sys_rename old new f = (case find False old f of
      Inl e \<Rightarrow> Inl e
    | Inr (p, n) \<Rightarrow> (case resolve False new f of
          Inl e \<Rightarrow> Inl e
        | Inr q \<Rightarrow>
            if ends_in_dots old \<or> ends_in_dots new then Inl EBUSY
            else if take (length p) q = p \<and> p \<noteq> q then Inl EINVAL
            else if lookup (names f) q = Some n then Inr f
            else case kind_at f q of
                Some K_Dir \<Rightarrow>
                  if kind_at f p \<noteq> Some K_Dir then Inl EISDIR
                  else if children q f \<noteq> [] then Inl ENOTEMPTY
                  else Inr (f\<lparr>names := move_names p q (names f), cwd := moved p q (cwd f)\<rparr>)
              | Some k \<Rightarrow>
                  if kind_at f p = Some K_Dir then Inl ENOTDIR
                  else Inr (f\<lparr>names := move_names p q (names f), cwd := moved p q (cwd f)\<rparr>)
              | None \<Rightarrow> Inr (f\<lparr>names := move_names p q (names f), cwd := moved p q (cwd f)\<rparr>)))"

definition sys_chdir :: "bytes option \<Rightarrow> fs \<Rightarrow> errno + fs" where
  "sys_chdir so f = (case so of
      None \<Rightarrow> Inl EFAULT
    | Some s \<Rightarrow> (case find True s f of
          Inl e \<Rightarrow> Inl e
        | Inr (p, n) \<Rightarrow> if kind_at f p = Some K_Dir then Inr (f\<lparr>cwd := p\<rparr>) else Inl ENOTDIR))"

definition path_text :: "path \<Rightarrow> bytes" where
  "path_text p = (if p = [] then ''/'' else concat (map (\<lambda>c. CHR ''/'' # c) p))"

text \<open>\<^verbatim>\<open>getcwd\<close> into an array of \<open>n\<close> bytes.\<close>

definition sys_getcwd :: "nat \<Rightarrow> fs \<Rightarrow> errno + bytes" where
  "sys_getcwd n f =
     (if kind_at f (cwd f) \<noteq> Some K_Dir then Inl ENOENT
      else if length (path_text (cwd f)) < n then Inr (path_text (cwd f))
      else Inl ERANGE)"

definition sys_readdir :: "bytes \<Rightarrow> fs \<Rightarrow> errno + bytes list" where
  "sys_readdir s f = (case find True s f of
      Inl e \<Rightarrow> Inl e
    | Inr (p, n) \<Rightarrow> if kind_at f p = Some K_Dir then Inr (''.'' # ''..'' # children p f) else Inl ENOTDIR)"

definition link_count :: "path \<Rightarrow> nat \<Rightarrow> fs \<Rightarrow> nat" where
  "link_count p n f =
     (if kind_at f p = Some K_Dir
      then 2 + length (filter (\<lambda>(q, m). q \<noteq> [] \<and> butlast q = p \<and> kind_at f q = Some K_Dir) (names f))
      else length (filter (\<lambda>(q, m). m = n) (names f)))"

definition sys_lstat :: "bytes \<Rightarrow> fs \<Rightarrow> (inode \<times> nat) option" where
  "sys_lstat s f = (case find False s f of
      Inl e \<Rightarrow> None
    | Inr (p, n) \<Rightarrow> map_option (\<lambda>i. (i, link_count p n f)) (inodes f n))"


subsection \<open>The invariant\<close>

text \<open>A component of a path, and a name in a directory: a component that is not a dot entry.\<close>

definition component_ok :: "bytes \<Rightarrow> bool" where
  "component_ok c \<longleftrightarrow> c \<noteq> [] \<and> CHR ''/'' \<notin> set c"

definition name_ok :: "bytes \<Rightarrow> bool" where
  "name_ok c \<longleftrightarrow> component_ok c \<and> c \<noteq> ''.'' \<and> c \<noteq> ''..''"

text \<open>Well formed: names are bound once, to inodes that exist; the root is a directory; every
  other name stands in a directory; a directory has one name.\<close>

definition fs_wf :: "fs \<Rightarrow> bool" where
  "fs_wf f \<longleftrightarrow>
     distinct (map fst (names f)) \<and> kind_at f [] = Some K_Dir \<and>
     (\<forall>p n. lookup (names f) p = Some n \<longrightarrow> n < next_ino f \<and> inodes f n \<noteq> None) \<and>
     (\<forall>p. p \<noteq> [] \<longrightarrow> lookup (names f) p \<noteq> None \<longrightarrow> kind_at f (butlast p) = Some K_Dir \<and> name_ok (last p)) \<and>
     (\<forall>p q n. lookup (names f) p = Some n \<longrightarrow> lookup (names f) q = Some n \<longrightarrow>
        kind_at f p = Some K_Dir \<longrightarrow> p = q)"

lemma fs_wf_distinct: "fs_wf f \<Longrightarrow> distinct (map fst (names f))"
  by (simp add: fs_wf_def)

lemma fs_wf_root: "fs_wf f \<Longrightarrow> kind_at f [] = Some K_Dir"
  by (simp add: fs_wf_def)

lemma fs_wf_inode: "fs_wf f \<Longrightarrow> lookup (names f) p = Some n \<Longrightarrow> n < next_ino f \<and> inodes f n \<noteq> None"
  unfolding fs_wf_def by blast

lemma fs_wf_parent:
  "fs_wf f \<Longrightarrow> p \<noteq> [] \<Longrightarrow> lookup (names f) p \<noteq> None \<Longrightarrow> kind_at f (butlast p) = Some K_Dir \<and> name_ok (last p)"
  unfolding fs_wf_def by blast

lemma fs_wf_dir_name:
  "fs_wf f \<Longrightarrow> lookup (names f) p = Some n \<Longrightarrow> lookup (names f) q = Some n \<Longrightarrow> kind_at f p = Some K_Dir \<Longrightarrow> p = q"
  unfolding fs_wf_def by blast

lemma kind_at_Some: "kind_at f p = Some k \<longleftrightarrow> (\<exists>n i. lookup (names f) p = Some n \<and> inodes f n = Some i \<and> i_kind i = k)"
  by (auto simp: kind_at_def inode_at_def split: option.splits)

lemma kind_at_None: "fs_wf f \<Longrightarrow> kind_at f p = None \<longleftrightarrow> lookup (names f) p = None"
  using fs_wf_inode [of f p] by (auto simp: kind_at_def inode_at_def split: option.splits)

lemma kind_at_lookup: "kind_at f p = Some k \<Longrightarrow> lookup (names f) p \<noteq> None"
  by (auto simp: kind_at_Some)

lemma lookup_names: "lookup t p \<noteq> None \<longleftrightarrow> p \<in> fst ` set t"
  by (simp add: lookup_def map_of_eq_None_iff)

lemma lookup_member: "distinct (map fst t) \<Longrightarrow> (p, n) \<in> set t \<longleftrightarrow> lookup t p = Some n"
  by (simp add: lookup_def)

text \<open>Where a resolved path can point: at something, or at a free name in a directory.\<close>

definition place_ok :: "fs \<Rightarrow> path \<Rightarrow> bool" where
  "place_ok f p \<longleftrightarrow> lookup (names f) p \<noteq> None \<or> (p \<noteq> [] \<and> kind_at f (butlast p) = Some K_Dir \<and> name_ok (last p))"

lemma components_ok:
  "CHR ''/'' \<notin> set w \<Longrightarrow> \<forall>c \<in> set (components w s). component_ok c"
proof (induction w s rule: components.induct)
  case (1 w)
  then show ?case by (simp add: component_ok_def)
next
  case (2 w c s)
  show ?case
  proof (cases "c = CHR ''/''")
    case True
    with 2 show ?thesis by (cases "w = []") (simp_all add: component_ok_def)
  next
    case False
    with 2 show ?thesis by simp
  qed
qed

lemma walk_place:
  assumes "fs_wf f"
  shows "kind_at f cur = Some K_Dir \<Longrightarrow> \<forall>c \<in> set cs. component_ok c \<Longrightarrow> walk f n follow cur cs = Inr p \<Longrightarrow> place_ok f p"
  using assms
proof (induction f n follow cur cs rule: walk.induct)
  case (1 f n follow cur)
  then show ?case using kind_at_lookup by (simp add: place_ok_def)
next
  case (2 f n follow cur c cs)
  note w = walk.simps(2) [of f n follow cur c cs]
  have parent: "kind_at f (butlast cur) = Some K_Dir"
    using fs_wf_parent [OF "2.prems"(4), of cur] kind_at_lookup [OF "2.prems"(1)] fs_wf_root [OF "2.prems"(4)]
    by (cases "cur = []") auto
  have new: "p = cur @ [c] \<Longrightarrow> c \<noteq> ''.'' \<Longrightarrow> c \<noteq> ''..'' \<Longrightarrow> place_ok f p"
    using "2.prems"(1,2) by (simp add: place_ok_def name_ok_def)
  have links: "\<forall>c \<in> set (components [] t @ cs). component_ok c"
    "kind_at f (if starts ''/'' t then [] else cur) = Some K_Dir" for t
    using components_ok [of "[]" t] "2.prems"(1,2) fs_wf_root [OF "2.prems"(4)] by auto
  consider (Dots) "c = ''.'' \<or> c = ''..''"
    | (Last) "c \<noteq> ''.''" "c \<noteq> ''..''" "\<forall>k. kind_at f (cur @ [c]) = Some k \<longrightarrow> (\<exists>d. k = K_File d)"
    | (Dir) "c \<noteq> ''.''" "c \<noteq> ''..''" "kind_at f (cur @ [c]) = Some K_Dir"
    | (Link) t where "c \<noteq> ''.''" "c \<noteq> ''..''" "kind_at f (cur @ [c]) = Some (K_Link t)"
    by (metis kind.exhaust)
  then show ?case
  proof cases
    case Dots
    then show ?thesis using "2.IH"(1,2) "2.prems" w parent by auto
  next
    case Last
    then show ?thesis using w new "2.prems"(3) by (auto split: option.splits if_splits)
  next
    case Dir
    then show ?thesis using "2.IH"(3) [OF Dir refl] "2.prems" w by simp
  next
    case Link
    show ?thesis
    proof (cases "cs = [] \<and> \<not> follow")
      case True
      then show ?thesis using w new Link "2.prems"(3) by simp
    next
      case no: False
      then obtain m where m: "n = Suc m" "walk f m follow (if starts ''/'' t then [] else cur) (components [] t @ cs) = Inr p"
        using w Link "2.prems"(3) by (cases n) auto
      show ?thesis
        by (rule "2.IH"(4) [OF Link refl no m(1) links(2,1) m(2) "2.prems"(4)])
    qed
  qed
qed

lemma resolve_place: "fs_wf f \<Longrightarrow> resolve follow s f = Inr p \<Longrightarrow> place_ok f p"
  using walk_place [of f _ "components [] s"] components_ok [of "[]" s] fs_wf_root [of f]
  by (auto simp: resolve_def split: if_splits)

lemma find_lookup: "find follow s f = Inr (p, n) \<Longrightarrow> lookup (names f) p = Some n"
  by (auto simp: find_def split: sum.splits option.splits)

text \<open>The names directly below a directory.\<close>

lemma children_set:
  assumes "fs_wf f"
  shows "set (children d f) = {e. lookup (names f) (d @ [e]) \<noteq> None}"
proof (rule set_eqI)
  fix e
  have mem: "(p, n) \<in> set (names f) \<longleftrightarrow> lookup (names f) p = Some n" for p n
    by (rule lookup_member [OF fs_wf_distinct [OF assms]])
  have "e \<in> set (children d f) \<longleftrightarrow> (\<exists>p n. (p, n) \<in> set (names f) \<and> p \<noteq> [] \<and> butlast p = d \<and> last p = e)"
    by (auto simp: children_def image_iff)
  also have "\<dots> \<longleftrightarrow> (\<exists>n. (d @ [e], n) \<in> set (names f))"
    by (metis append_butlast_last_id butlast_snoc last_snoc snoc_eq_iff_butlast)
  finally show "e \<in> set (children d f) \<longleftrightarrow> e \<in> {e. lookup (names f) (d @ [e]) \<noteq> None}"
    by (simp add: mem)
qed

lemma children_distinct:
  assumes "fs_wf f"
  shows "distinct (children d f)"
proof -
  have "distinct (map fst (filter (\<lambda>(p, n). p \<noteq> [] \<and> butlast p = d) (names f)))"
    using fs_wf_distinct [OF assms] by (rule distinct_map_filter)
  moreover have "inj_on last {p. p \<noteq> [] \<and> butlast p = d}"
    by (rule inj_onI) (metis (mono_tags, lifting) append_butlast_last_id mem_Collect_eq)
  moreover have "children d f = map last (map fst (filter (\<lambda>(p, n). p \<noteq> [] \<and> butlast p = d) (names f)))"
    by (simp add: children_def case_prod_beta)
  moreover have "set (map fst (filter (\<lambda>(p, n). p \<noteq> [] \<and> butlast p = d) (names f))) \<subseteq> {p. p \<noteq> [] \<and> butlast p = d}"
    by auto
  ultimately show ?thesis
    by (simp only: distinct_map) (blast intro: inj_on_subset)
qed

end
