(* ===== verification/File_Invariant.thy ===== *)
theory File_Invariant
  imports File_Store
begin

section \<open>The file system's calls keep it well formed\<close>

text \<open>
  Every call of \<^verbatim>\<open>File_Store\<close> that changes the file system keeps its invariant: names bound
  once, to inodes that exist, in directories, directories with one name.  The table of names
  is used through the laws of the locale \<open>name_table\<close>, except by \<^verbatim>\<open>rename\<close>, which moves a
  whole subtree of names.
\<close>

lemma lookup_bind: "lookup t p = None \<Longrightarrow> lookup (bind_name p n t) = (lookup t)(p \<mapsto> n)"
  by (rule table.look_bind)

lemma lookup_unbind: "lookup (unbind_name p t) = (lookup t)(p := None)"
  by (rule table.look_unbind)

lemma distinct_bind: "distinct (map fst t) \<Longrightarrow> lookup t p = None \<Longrightarrow> distinct (map fst (bind_name p n t))"
  using lookup_names [of t p] by (auto simp: bind_name_def)

lemma distinct_unbind: "distinct (map fst t) \<Longrightarrow> distinct (map fst (unbind_name p t))"
  unfolding unbind_name_def by (rule distinct_map_filter)

lemma place_new:
  "place_ok f p \<Longrightarrow> lookup (names f) p = None \<Longrightarrow> p \<noteq> [] \<and> kind_at f (butlast p) = Some K_Dir \<and> name_ok (last p)"
  by (simp add: place_ok_def)

subsection \<open>New objects and contents\<close>

lemma new_inode_kind:
  assumes "fs_wf f" "lookup (names f) p = None"
  shows "kind_at (new_inode p k m f) = (kind_at f)(p \<mapsto> k)"
proof
  fix q
  have "lookup (names f) q \<noteq> Some (next_ino f)" using fs_wf_inode [OF assms(1), of q] by force
  then show "kind_at (new_inode p k m f) q = ((kind_at f)(p \<mapsto> k)) q"
    using assms(2) by (auto simp: kind_at_def inode_at_def new_inode_def lookup_bind split: option.splits)
qed

lemma new_inode_wf:
  assumes wf: "fs_wf f" and free: "lookup (names f) p = None" and place: "place_ok f p"
  shows "fs_wf (new_inode p k m f)"
proof -
  let ?g = "new_inode p k m f"
  note kind = new_inode_kind [OF wf free, of k m]
  note new = place_new [OF place free]
  have look: "lookup (names ?g) = (lookup (names f))(p \<mapsto> next_ino f)"
    by (simp add: new_inode_def lookup_bind free)
  have ino: "inodes ?g n \<noteq> None" if "n = next_ino f \<or> inodes f n \<noteq> None" for n
    using that by (auto simp: new_inode_def)
  have old: "kind_at f q = Some K_Dir \<Longrightarrow> q \<noteq> p" for q
    using kind_at_lookup [of f q] free by auto
  show ?thesis
    unfolding fs_wf_def
  proof (intro conjI allI impI)
    show "distinct (map fst (names ?g))"
      using distinct_bind [OF fs_wf_distinct [OF wf] free] by (simp add: new_inode_def)
    show "kind_at ?g [] = Some K_Dir" using kind new fs_wf_root [OF wf] by auto
  next
    fix q n assume q: "lookup (names ?g) q = Some n"
    have "n = next_ino f \<or> (n < next_ino f \<and> inodes f n \<noteq> None)"
      using q [unfolded look] fs_wf_inode [OF wf, of q n] by (auto split: if_splits)
    then show "n < next_ino ?g" "inodes ?g n \<noteq> None"
      using ino [of n] by (auto simp: new_inode_def)
  next
    fix q assume q: "q \<noteq> []" "lookup (names ?g) q \<noteq> None"
    have "kind_at f (butlast q) = Some K_Dir \<and> name_ok (last q)"
      using q fs_wf_parent [OF wf, of q] new by (auto simp: look split: if_splits)
    then show "kind_at ?g (butlast q) = Some K_Dir" "name_ok (last q)"
      using kind old by auto
  next
    fix q r n assume q: "lookup (names ?g) q = Some n" and r: "lookup (names ?g) r = Some n"
      and d: "kind_at ?g q = Some K_Dir"
    have fresh: "lookup (names f) x \<noteq> Some (next_ino f)" for x
      using fs_wf_inode [OF wf, of x] by force
    then show "q = r"
      using q r d fs_wf_dir_name [OF wf, of q n r] by (auto simp: look kind split: if_splits)
  qed
qed

lemma set_content_kind:
  assumes "content f n \<noteq> None"
  shows "kind_at (set_content n d f) p
    = (if lookup (names f) p = Some n then Some (K_File d) else kind_at f p)"
  using assms
  by (auto simp: kind_at_def inode_at_def set_content_def content_def split: option.splits)

lemma content_kind:
  "lookup (names f) p = Some n \<Longrightarrow> kind_at f p = Some (K_File d) \<longleftrightarrow> content f n = Some d"
  by (auto simp: kind_at_def inode_at_def content_def split: option.splits kind.splits)

lemma set_content_wf:
  assumes wf: "fs_wf f" and reg: "content f n \<noteq> None"
  shows "fs_wf (set_content n d f)"
proof -
  let ?g = "set_content n d f"
  obtain i where i: "inodes f n = Some i" using reg by (auto simp: content_def split: option.splits)
  have g: "names ?g = names f" "next_ino ?g = next_ino f" "inodes ?g m = None \<longleftrightarrow> inodes f m = None" for m
    using i by (simp_all add: set_content_def)
  have "kind_at f p \<noteq> Some K_Dir" if "lookup (names f) p = Some n" for p
    using that reg by (auto simp: kind_at_def inode_at_def content_def)
  then have dir: "kind_at ?g p = Some K_Dir \<longleftrightarrow> kind_at f p = Some K_Dir" for p
    using set_content_kind [OF reg, of d p] by auto
  show ?thesis
    using wf unfolding fs_wf_def dir g by blast
qed

subsection \<open>Links and removals\<close>

lemma names_update_kind:
  "kind_at (f\<lparr>names := t\<rparr>) p = (case lookup t p of None \<Rightarrow> None | Some n \<Rightarrow> map_option i_kind (inodes f n))"
  by (simp add: kind_at_def inode_at_def split: option.splits)

lemma kind_at_eq: "kind_at f p = (case lookup (names f) p of None \<Rightarrow> None | Some n \<Rightarrow> map_option i_kind (inodes f n))"
  by (simp add: kind_at_def inode_at_def split: option.splits)

lemma bind_wf:
  assumes wf: "fs_wf f" and free: "lookup (names f) q = None" and place: "place_ok f q"
    and p: "lookup (names f) p = Some n" "kind_at f p \<noteq> Some K_Dir"
  shows "fs_wf (f\<lparr>names := bind_name q n (names f)\<rparr>)"
proof -
  let ?g = "f\<lparr>names := bind_name q n (names f)\<rparr>"
  note new = place_new [OF place free]
  have look: "lookup (names ?g) = (lookup (names f))(q \<mapsto> n)"
    by (simp add: lookup_bind free)
  have kind: "kind_at ?g r = (if r = q then kind_at f p else kind_at f r)" for r
    using p(1) by (simp add: kind_at_eq lookup_bind free split: option.splits)
  have dirs: "kind_at ?g r = Some K_Dir \<longleftrightarrow> kind_at f r = Some K_Dir" for r
    using kind p(2) kind_at_lookup [of f q] free by auto
  have other: "kind_at f r \<noteq> Some K_Dir" if "lookup (names f) r = Some n" for r
    using that p by (simp add: kind_at_eq)
  show ?thesis
    unfolding fs_wf_def dirs
  proof (intro conjI allI impI)
    show "distinct (map fst (names ?g))"
      using distinct_bind [OF fs_wf_distinct [OF wf] free] by simp
    show "kind_at f [] = Some K_Dir" using fs_wf_root [OF wf] .
  next
    fix r m assume "lookup (names ?g) r = Some m"
    then have "lookup (names f) r = Some m \<or> m = n" by (auto simp: lookup_bind free split: if_splits)
    then show "m < next_ino ?g" "inodes ?g m \<noteq> None"
      using fs_wf_inode [OF wf, of r m] fs_wf_inode [OF wf p(1)] by auto
  next
    fix r assume r: "r \<noteq> []" "lookup (names ?g) r \<noteq> None"
    then show "kind_at f (butlast r) = Some K_Dir" "name_ok (last r)"
      using fs_wf_parent [OF wf, of r] new by (auto simp: lookup_bind free split: if_splits)
  next
    fix r r' m assume "lookup (names ?g) r = Some m" "lookup (names ?g) r' = Some m" "kind_at f r = Some K_Dir"
    moreover from this have "r \<noteq> q" using kind_at_lookup [of f r] free by auto
    ultimately show "r = r'"
      using fs_wf_dir_name [OF wf, of r m r'] other [of r] by (auto simp: lookup_bind free split: if_splits)
  qed
qed

text \<open>Removing a name below which nothing stands.\<close>

lemma unbind_wf:
  assumes wf: "fs_wf f" and p: "p \<noteq> []"
    and leaf: "\<forall>q. q \<noteq> [] \<longrightarrow> lookup (names f) q \<noteq> None \<longrightarrow> butlast q \<noteq> p"
  shows "fs_wf (f\<lparr>names := unbind_name p (names f)\<rparr>)"
proof -
  let ?g = "f\<lparr>names := unbind_name p (names f)\<rparr>"
  have look: "lookup (names ?g) = (lookup (names f))(p := None)" by (simp add: lookup_unbind)
  have kind: "kind_at ?g r = (if r = p then None else kind_at f r)" for r
    by (simp add: kind_at_eq lookup_unbind split: option.splits)
  show ?thesis
    unfolding fs_wf_def
  proof (intro conjI allI impI)
    show "distinct (map fst (names ?g))"
      using distinct_unbind [OF fs_wf_distinct [OF wf]] by simp
    show "kind_at ?g [] = Some K_Dir" using fs_wf_root [OF wf] p kind by simp
  next
    fix r m assume "lookup (names ?g) r = Some m"
    then have "lookup (names f) r = Some m" by (simp add: lookup_unbind split: if_splits)
    then show "m < next_ino ?g" "inodes ?g m \<noteq> None" using fs_wf_inode [OF wf, of r m] by auto
  next
    fix r assume r: "r \<noteq> []" "lookup (names ?g) r \<noteq> None"
    then have "lookup (names f) r \<noteq> None" by (simp add: lookup_unbind split: if_splits)
    with r(1) show "kind_at ?g (butlast r) = Some K_Dir" "name_ok (last r)"
      using fs_wf_parent [OF wf, of r] leaf kind by auto
  next
    fix r r' m assume "lookup (names ?g) r = Some m" "lookup (names ?g) r' = Some m" "kind_at ?g r = Some K_Dir"
    then show "r = r'"
      using fs_wf_dir_name [OF wf, of r m r'] by (auto simp: lookup_unbind kind split: if_splits)
  qed
qed

lemma children_member:
  assumes "fs_wf f"
  shows "children d f = [] \<longleftrightarrow> (\<forall>q. q \<noteq> [] \<longrightarrow> lookup (names f) q \<noteq> None \<longrightarrow> butlast q \<noteq> d)"
proof -
  have "children d f = [] \<longleftrightarrow> (\<forall>(q, n) \<in> set (names f). \<not> (q \<noteq> [] \<and> butlast q = d))"
    by (auto simp: children_def filter_empty_conv)
  also have "\<dots> \<longleftrightarrow> (\<forall>q n. lookup (names f) q = Some n \<longrightarrow> \<not> (q \<noteq> [] \<and> butlast q = d))"
    using lookup_member [OF fs_wf_distinct [OF assms]] by (auto; blast)
  finally show ?thesis by auto
qed

lemma leaf_not_dir:
  assumes "fs_wf f" "kind_at f p \<noteq> Some K_Dir"
  shows "\<forall>q. q \<noteq> [] \<longrightarrow> lookup (names f) q \<noteq> None \<longrightarrow> butlast q \<noteq> p"
  using fs_wf_parent [OF assms(1)] assms(2) by auto


subsection \<open>Renaming a subtree\<close>

text \<open>What stands below a name that has nothing directly below it: nothing.\<close>

lemma nothing_below:
  assumes wf: "fs_wf f" and leaf: "\<forall>q. q \<noteq> [] \<longrightarrow> lookup (names f) q \<noteq> None \<longrightarrow> butlast q \<noteq> d"
  shows "x \<noteq> [] \<Longrightarrow> lookup (names f) (d @ x) = None"
proof (induction x rule: rev_induct)
  case (snoc c x)
  show ?case
  proof (rule ccontr)
    assume "lookup (names f) (d @ x @ [c]) \<noteq> None"
    then have l: "lookup (names f) ((d @ x) @ [c]) \<noteq> None" by simp
    then have "kind_at f (d @ x) = Some K_Dir" using fs_wf_parent [OF wf _ l] by (simp add: butlast_append)
    then have "x = []" using snoc.IH kind_at_lookup [of f "d @ x"] by auto
    with l leaf show False by (metis append_Nil2 butlast_snoc snoc_eq_iff_butlast)
  qed
qed simp

lemma moved_under [simp]: "moved p q (p @ x) = q @ x"
  by (simp add: moved_def)

lemma moved_other: "take (length p) r \<noteq> p \<Longrightarrow> moved p q r = r"
  by (simp add: moved_def)

lemma take_eq_iff: "take (length p) r = p \<longleftrightarrow> (\<exists>x. r = p @ x)"
  by (metis append_eq_conv_conj append_take_drop_id)

lemma moved_inj:
  assumes "moved p q r = moved p q r'" "\<forall>x. r \<noteq> q @ x" "\<forall>x. r' \<noteq> q @ x"
  shows "r = r'"
  using assms unfolding moved_def take_eq_iff [symmetric]
  by (auto simp: take_eq_iff split: if_splits)

lemma map_of_moved:
  assumes "\<forall>r \<in> insert s (fst ` set t). \<forall>x. r \<noteq> q @ x"
  shows "map_of (map (\<lambda>(r, n). (moved p q r, n)) t) (moved p q s) = map_of t s"
  using assms
proof (induction t)
  case (Cons e t)
  obtain r n where e: "e = (r, n)" by (cases e)
  have "moved p q r = moved p q s \<longleftrightarrow> r = s"
    using moved_inj [of p q r s] Cons.prems e by auto
  then show ?case using Cons e by auto
qed simp

text \<open>The names after a move, for a source and a target neither of which is below the other,
  and nothing below the target.\<close>

lemma lookup_moved:
  assumes "\<forall>x. x \<noteq> [] \<longrightarrow> lookup t (q @ x) = None" "\<forall>x. s \<noteq> q @ x"
  shows "lookup (move_names p q t) (moved p q s) = lookup t s"
proof -
  let ?u = "unbind_name q t"
  have "lookup ?u (q @ x) = None" for x
    using assms(1) by (cases x) (simp_all add: lookup_unbind)
  then have "\<forall>r \<in> insert s (fst ` set ?u). \<forall>x. r \<noteq> q @ x"
    using assms(2) lookup_names [of ?u] by blast
  then have "lookup (move_names p q t) (moved p q s) = lookup ?u s"
    unfolding move_names_def lookup_def by (rule map_of_moved)
  also have "\<dots> = lookup t s"
    using assms(2) [rule_format, of "[]"] by (simp add: lookup_unbind)
  finally show ?thesis .
qed

lemma lookup_moved_key:
  assumes "lookup (move_names p q t) r = Some n" "\<forall>x. x \<noteq> [] \<longrightarrow> lookup t (q @ x) = None"
  obtains s where "r = moved p q s" "lookup t s = Some n" "\<forall>x. s \<noteq> q @ x"
proof -
  let ?u = "unbind_name q t"
  have "r \<in> fst ` set (move_names p q t)" using assms(1) lookup_names [of "move_names p q t" r] by simp
  then obtain s m where s: "(s, m) \<in> set ?u" "r = moved p q s"
    by (auto simp: move_names_def)
  then have "lookup ?u s \<noteq> None" using lookup_names [of ?u s] by force
  then have ls: "s \<noteq> q" "lookup t s \<noteq> None" by (auto simp: lookup_unbind split: if_splits)
  then have sq: "\<forall>x. s \<noteq> q @ x" using assms(2) by (metis append_Nil2)
  have "lookup t s = Some n" using lookup_moved [OF assms(2) sq, of p] assms(1) s(2) by simp
  with s(2) sq show ?thesis by (rule_tac that)
qed

lemma distinct_moved:
  assumes "distinct (map fst t)" "\<forall>x. x \<noteq> [] \<longrightarrow> lookup t (q @ x) = None"
  shows "distinct (map fst (move_names p q t))"
proof -
  let ?u = "unbind_name q t"
  have none: "lookup ?u (q @ x) = None" for x
    using assms(2) by (cases x) (simp_all add: lookup_unbind)
  have "inj_on (moved p q) (set (map fst ?u))"
  proof (rule inj_onI)
    fix r r' assume "r \<in> set (map fst ?u)" "r' \<in> set (map fst ?u)" and eq: "moved p q r = moved p q r'"
    then have "lookup ?u r \<noteq> None" "lookup ?u r' \<noteq> None" using lookup_names by simp_all
    then have "\<forall>x. r \<noteq> q @ x" "\<forall>x. r' \<noteq> q @ x" using none by auto
    with eq show "r = r'" by (rule moved_inj)
  qed
  moreover have "distinct (map fst ?u)" using assms(1) by (rule distinct_unbind)
  moreover have "map fst (move_names p q t) = map (moved p q) (map fst ?u)"
    by (simp add: move_names_def case_prod_beta)
  ultimately show ?thesis by (simp only: distinct_map)
qed


lemma kind_at_moved:
  assumes "\<forall>x. x \<noteq> [] \<longrightarrow> lookup (names f) (q @ x) = None" and "\<forall>x. s \<noteq> q @ x"
  shows "kind_at (f\<lparr>names := move_names p q (names f), cwd := c\<rparr>) (moved p q s) = kind_at f s"
  using lookup_moved [OF assms, of p] by (simp add: kind_at_eq split: option.splits)

text \<open>Every name that is there after the move lies in a directory.\<close>

lemma moved_parent:
  assumes wf: "fs_wf f" and place: "place_ok f q" and sep: "take (length p) q \<noteq> p" and q: "q \<noteq> []"
    and below: "\<forall>x. x \<noteq> [] \<longrightarrow> lookup (names f) (q @ x) = None"
    and s: "r = moved p q s" "lookup (names f) s = Some n" "\<forall>x. s \<noteq> q @ x" and r: "r \<noteq> []"
  shows "kind_at (f\<lparr>names := move_names p q (names f), cwd := c\<rparr>) (butlast r) = Some K_Dir \<and> name_ok (last r)"
proof -
  note key = kind_at_moved [OF below]
  have short: "\<forall>x. butlast s \<noteq> q @ x" if "s \<noteq> []"
    using that s(3) by (metis append_assoc append_butlast_last_id)
  show ?thesis
  proof (cases "take (length p) s = p")
    case True
    then obtain x where x: "s = p @ x" by (auto simp: take_eq_iff)
    show ?thesis
    proof (cases "x = []")
      case True
      then have "r = q" using s(1) x moved_under [of p q "[]"] by simp
      moreover have "moved p q (butlast q) = butlast q"
        using sep by (intro moved_other) (metis append_assoc append_butlast_last_id q take_eq_iff)
      moreover have "\<forall>x. butlast q \<noteq> q @ x"
        using q by (metis append_butlast_last_id append_eq_append_conv append_assoc not_Cons_self2 same_append_eq self_append_conv append_is_Nil_conv)
      moreover have "kind_at f (butlast q) = Some K_Dir" "name_ok (last q)"
        using place q fs_wf_parent [OF wf q] by (auto simp: place_ok_def)
      ultimately show ?thesis using key [of "butlast q" c p] by simp
    next
      case False
      then have s0: "s \<noteq> []" "butlast s = p @ butlast x" "last s = last x" using x by (simp_all add: butlast_append)
      have "butlast r = moved p q (butlast s)" "last r = last s"
        using False x s(1) s0 by (simp_all add: butlast_append)
      then show ?thesis using key [OF short [OF s0(1)], of c p] fs_wf_parent [OF wf s0(1)] s(2) by simp
    qed
  next
    case False
    then have rs: "r = s" using s(1) moved_other by simp
    have "moved p q (butlast s) = butlast s"
      using False r rs by (intro moved_other) (metis append_assoc append_butlast_last_id take_eq_iff)
    then show ?thesis using key [OF short, of c p] fs_wf_parent [OF wf r] s(2) r rs by simp
  qed
qed

lemma move_wf:
  assumes wf: "fs_wf f" and p: "lookup (names f) p \<noteq> None" and place: "place_ok f q"
    and sep: "take (length p) q \<noteq> p" and leaf: "\<forall>r. r \<noteq> [] \<longrightarrow> lookup (names f) r \<noteq> None \<longrightarrow> butlast r \<noteq> q"
    and q: "q \<noteq> []"
  shows "fs_wf (f\<lparr>names := move_names p q (names f), cwd := c\<rparr>)"
proof -
  let ?t = "names f" let ?g = "f\<lparr>names := move_names p q ?t, cwd := c\<rparr>"
  have below: "\<forall>x. x \<noteq> [] \<longrightarrow> lookup ?t (q @ x) = None" using nothing_below [OF wf leaf] by blast
  note key = kind_at_moved [OF below]
  show ?thesis
    unfolding fs_wf_def
  proof (intro conjI allI impI)
    show "distinct (map fst (names ?g))"
      using distinct_moved [OF fs_wf_distinct [OF wf] below] by simp
    have "p \<noteq> []" using sep by auto
    then have "moved p q [] = []" by (intro moved_other) simp
    then show "kind_at ?g [] = Some K_Dir" using key [of "[]" c p] q fs_wf_root [OF wf] by simp
  next
    fix r n assume "lookup (names ?g) r = Some n"
    then obtain s where "lookup ?t s = Some n" using lookup_moved_key [OF _ below, of p r n] by auto
    then show "n < next_ino ?g" "inodes ?g n \<noteq> None" using fs_wf_inode [OF wf] by auto
  next
    fix r assume r: "r \<noteq> []" "lookup (names ?g) r \<noteq> None"
    then obtain n where "lookup (move_names p q ?t) r = Some n" by auto
    then obtain s where "r = moved p q s" "lookup ?t s = Some n" "\<forall>x. s \<noteq> q @ x"
      using below by (rule lookup_moved_key)
    from moved_parent [OF wf place sep q below this r(1)]
    show "kind_at ?g (butlast r) = Some K_Dir" "name_ok (last r)" by simp_all
  next
    fix r r' n assume r: "lookup (names ?g) r = Some n" and r': "lookup (names ?g) r' = Some n"
      and d: "kind_at ?g r = Some K_Dir"
    obtain s where s: "r = moved p q s" "lookup ?t s = Some n" "\<forall>x. s \<noteq> q @ x"
      using lookup_moved_key [OF _ below, of p r n] r by auto
    obtain s' where s': "r' = moved p q s'" "lookup ?t s' = Some n"
      using lookup_moved_key [OF _ below, of p r' n] r' by auto
    have "kind_at f s = Some K_Dir" using d key [OF s(3), of c p] s(1) by simp
    with fs_wf_dir_name [OF wf s(2) s'(2)] s s' show "r = r'" by simp
  qed
qed


subsection \<open>Every call\<close>

lemma cwd_wf [simp]: "fs_wf (f\<lparr>cwd := c\<rparr>) = fs_wf f"
proof -
  have "kind_at (f\<lparr>cwd := c\<rparr>) p = kind_at f p" for p by (simp add: kind_at_eq split: option.splits)
  then show ?thesis by (simp add: fs_wf_def)
qed

lemma open_write_wf:
  assumes "fs_wf f" "sys_open_write s m f = Inr (n, g)"
  shows "fs_wf g \<and> content g n = Some []"
proof -
  obtain p where p: "resolve True s f = Inr p" using assms(2) by (auto simp: sys_open_write_def split: sum.splits)
  note place = resolve_place [OF assms(1) p]
  show ?thesis
  proof (cases "lookup (names f) p")
    case None
    with assms p new_inode_wf [OF assms(1) None place] show ?thesis
      by (auto simp: sys_open_write_def content_def new_inode_def)
  next
    case (Some k)
    with assms(2) p have c: "content f n \<noteq> None" "g = set_content n [] f"
      by (auto simp: sys_open_write_def split: if_splits)
    then show ?thesis
      using set_content_wf [OF assms(1) c(1)] by (auto simp: set_content_def content_def split: option.splits)
  qed
qed

lemma unlink_wf: "fs_wf f \<Longrightarrow> sys_unlink s f = Inr g \<Longrightarrow> fs_wf g"
proof -
  assume wf: "fs_wf f" and u: "sys_unlink s f = Inr g"
  then obtain p n where pn: "find False s f = Inr (p, n)" "kind_at f p \<noteq> Some K_Dir"
    "g = f\<lparr>names := unbind_name p (names f)\<rparr>"
    by (auto simp: sys_unlink_def split: sum.splits if_splits)
  moreover have "p \<noteq> []" using pn(2) fs_wf_root [OF wf] by auto
  ultimately show ?thesis using unbind_wf [OF wf _ leaf_not_dir [OF wf pn(2)]] by simp
qed

lemma link_wf: "fs_wf f \<Longrightarrow> sys_link old new f = Inr g \<Longrightarrow> fs_wf g"
  by (auto simp: sys_link_def split: sum.splits if_splits
      intro!: bind_wf dest: find_lookup elim: resolve_place)

lemma symlink_wf: "fs_wf f \<Longrightarrow> sys_symlink t new f = Inr g \<Longrightarrow> fs_wf g"
  by (auto simp: sys_symlink_def split: sum.splits if_splits intro!: new_inode_wf elim: resolve_place)

lemma mkdir_wf: "fs_wf f \<Longrightarrow> sys_mkdir s m f = Inr g \<Longrightarrow> fs_wf g"
  by (auto simp: sys_mkdir_def split: sum.splits if_splits intro!: new_inode_wf elim: resolve_place)

lemma rmdir_wf: "fs_wf f \<Longrightarrow> sys_rmdir s f = Inr g \<Longrightarrow> fs_wf g"
proof -
  assume wf: "fs_wf f" and r: "sys_rmdir s f = Inr g"
  then obtain p where p: "p \<noteq> []" "children p f = []" "g = f\<lparr>names := unbind_name p (names f)\<rparr>"
    by (auto simp: sys_rmdir_def split: sum.splits if_splits)
  then have "\<forall>q. q \<noteq> [] \<longrightarrow> lookup (names f) q \<noteq> None \<longrightarrow> butlast q \<noteq> p"
    using children_member [OF wf, of p] by blast
  with unbind_wf [OF wf p(1)] p(3) show ?thesis by simp
qed

lemma chdir_wf: "fs_wf f \<Longrightarrow> sys_chdir so f = Inr g \<Longrightarrow> fs_wf g"
  by (auto simp: sys_chdir_def split: sum.splits option.splits if_splits)

lemma rename_moves:
  assumes wf: "fs_wf f" and r: "sys_rename old new f = Inr g"
  obtains (same) p n q where "find False old f = Inr (p, n)" "resolve False new f = Inr q"
      "lookup (names f) q = Some n" "g = f"
  | (move) p n q where "find False old f = Inr (p, n)" "resolve False new f = Inr q"
      "g = f\<lparr>names := move_names p q (names f), cwd := moved p q (cwd f)\<rparr>" "lookup (names f) q \<noteq> Some n"
      "take (length p) q \<noteq> p" "\<forall>r. r \<noteq> [] \<longrightarrow> lookup (names f) r \<noteq> None \<longrightarrow> butlast r \<noteq> q" "q \<noteq> []"
proof -
  obtain p n where p: "find False old f = Inr (p, n)" using r by (auto simp: sys_rename_def split: sum.splits)
  obtain q where q: "resolve False new f = Inr q"
    using r p by (auto simp: sys_rename_def split: sum.splits)
  have ln: "lookup (names f) p = Some n" using p by (rule find_lookup)
  show ?thesis
  proof (cases "lookup (names f) q = Some n")
    case True
    with r p q have "g = f" by (auto simp: sys_rename_def split: if_splits)
    then show ?thesis using that(1) p q True by blast
  next
    case False
    then have "p \<noteq> q" using ln by auto
    with r p q False have sep: "take (length p) q \<noteq> p" by (auto simp: sys_rename_def split: if_splits)
    then have p0: "p \<noteq> []" by auto
    have g: "g = f\<lparr>names := move_names p q (names f), cwd := moved p q (cwd f)\<rparr>"
      and empty: "kind_at f q = Some K_Dir \<Longrightarrow> children q f = []"
      using r p q False by (auto simp: sys_rename_def split: if_splits option.splits kind.splits)
    have leaf: "\<forall>r. r \<noteq> [] \<longrightarrow> lookup (names f) r \<noteq> None \<longrightarrow> butlast r \<noteq> q"
      using empty children_member [OF wf, of q] leaf_not_dir [OF wf, of q] by blast
    have "q \<noteq> []"
    proof
      assume "q = []"
      with nothing_below [OF wf leaf, of p] p0 ln show False by simp
    qed
    with p q g False sep leaf show ?thesis by (intro that(2))
  qed
qed

lemma rename_wf:
  assumes wf: "fs_wf f" and r: "sys_rename old new f = Inr g"
  shows "fs_wf g"
  using wf r
proof (cases rule: rename_moves)
  case (same p n q)
  with wf show ?thesis by simp
next
  case (move p n q)
  then show ?thesis
    using move_wf [OF wf, of p q] resolve_place [OF wf move(2)] find_lookup [OF move(1)] by simp
qed

lemmas calls_wf = open_write_wf unlink_wf link_wf symlink_wf mkdir_wf rmdir_wf chdir_wf rename_wf

end
