(* ===== verification/Commands.thy ===== *)
theory Commands
  imports File_Invariant
begin

section \<open>The shell's built-in commands\<close>

text \<open>
  \<^verbatim>\<open>project1/commands.c\<close>, one definition per command over the file system of \<open>File_Store\<close>.
  The state has the file system, what the terminal will still deliver (\<open>sin\<close>), what was
  printed (\<open>sout\<close>) and the messages of \<^verbatim>\<open>perror\<close> with their errors (\<open>serr\<close>).  The user
  and group databases, the formatted modification time and \<^verbatim>\<open>HOME\<close> are the record \<open>world\<close>,
  a parameter.  An argument vector is the list of its strings, the command's name first.
\<close>

record shell =
  files :: fs
  sin :: bytes
  sout :: bytes
  serr :: "(bytes \<times> errno) list"

record world =
  home :: "bytes option"
  pw_name :: "nat \<Rightarrow> bytes option"
  gr_name :: "nat \<Rightarrow> bytes option"
  time_text :: "nat \<Rightarrow> bytes"

definition say :: "bytes \<Rightarrow> shell \<Rightarrow> shell" where
  "say t s = s\<lparr>sout := sout s @ t\<rparr>"

definition perror :: "bytes \<Rightarrow> errno \<Rightarrow> shell \<Rightarrow> shell" where
  "perror t e s = s\<lparr>serr := serr s @ [(t, e)]\<rparr>"

text \<open>A call of the file system whose failure is reported and whose success is \<open>ok\<close>.\<close>

definition call :: "errno + fs \<Rightarrow> bytes \<Rightarrow> bytes \<Rightarrow> shell \<Rightarrow> shell" where
  "call r msg ok s = (case r of Inl e \<Rightarrow> perror msg e s | Inr f \<Rightarrow> say ok (s\<lparr>files := f\<rparr>))"

subsection \<open>confirm\_action\<close>

text \<open>The first character answers; then the input is skipped up to the next newline.\<close>

definition skip_line :: "bytes \<Rightarrow> bytes" where
  "skip_line r = tl (dropWhile (\<lambda>c. c \<noteq> NL) r)"

definition confirm_action :: "bytes \<Rightarrow> bytes \<Rightarrow> shell \<Rightarrow> bool \<times> shell" where
  "confirm_action msg filename s =
     (let s' = say (msg @ [SP, CHR 0x27] @ filename @ [CHR 0x27] @ ''? (y/n): '') s in
      case sin s' of
        [] \<Rightarrow> (False, s')
      | ans # r \<Rightarrow> (ans = CHR ''y'' \<or> ans = CHR ''Y'', s'\<lparr>sin := skip_line r\<rparr>))"

text \<open>\<^verbatim>\<open>if (flag) { if (!confirm_action(...)) return; }\<close>: whether to go on.\<close>

definition asked :: "bool \<Rightarrow> bytes \<Rightarrow> bytes \<Rightarrow> shell \<Rightarrow> bool \<times> shell" where
  "asked flag msg filename s = (if flag then confirm_action msg filename s else (True, s))"

subsection \<open>pwd, cd, mkdir, rmdir\<close>

definition cmd_pwd :: "bytes list \<Rightarrow> shell \<Rightarrow> shell" where
  "cmd_pwd argv s = (case sys_getcwd 1024 (files s) of
      Inr p \<Rightarrow> say (p @ [NL]) s
    | Inl e \<Rightarrow> perror ''pwd error'' e s)"

definition cmd_cd :: "world \<Rightarrow> bytes list \<Rightarrow> shell \<Rightarrow> shell" where
  "cmd_cd w argv s =
     call (sys_chdir (if 1 < length argv then Some (argv ! 1) else home w) (files s)) ''cd error'' [] s"

definition cmd_mkdir :: "bytes list \<Rightarrow> shell \<Rightarrow> shell" where
  "cmd_mkdir argv s =
     (if length argv < 2 then say (''usage: mkdir dirname'' @ [NL]) s
      else call (sys_mkdir (argv ! 1) 493 (files s)) ''mkdir failed'' [] s)"

definition cmd_rmdir :: "bytes list \<Rightarrow> shell \<Rightarrow> shell" where
  "cmd_rmdir argv s =
     (if length argv < 2 then say (''usage: rmdir dirname'' @ [NL]) s
      else call (sys_rmdir (argv ! 1) (files s)) ''rmdir failed'' [] s)"

subsection \<open>ln, cp, mv, rm: the arguments\<close>

text \<open>The loops over the arguments: a flag anywhere, then the operands in order, further
  ones ignored; \<^verbatim>\<open>rm\<close> and \<^verbatim>\<open>cat\<close> take the last operand.\<close>

fun two_operands :: "bytes \<Rightarrow> bytes list \<Rightarrow> bool \<times> bytes option \<times> bytes option
    \<Rightarrow> bool \<times> bytes option \<times> bytes option" where
  "two_operands opt [] r = r"
| "two_operands opt (a # as) (fl, x, y) =
     two_operands opt as
       (if a = opt then (True, x, y)
        else if x = None then (fl, Some a, y)
        else if y = None then (fl, x, Some a)
        else (fl, x, y))"

fun last_operand :: "bytes \<Rightarrow> bytes list \<Rightarrow> bool \<times> bytes option \<Rightarrow> bool \<times> bytes option" where
  "last_operand opt [] r = r"
| "last_operand opt (a # as) (fl, x) =
     last_operand opt as (if a = opt then (True, x) else (fl, Some a))"

definition cmd_ln :: "bytes list \<Rightarrow> shell \<Rightarrow> shell" where
  "cmd_ln argv s = (case two_operands ''-s'' (tl argv) (False, None, None) of
      (s_flag, Some target, Some linkname) \<Rightarrow>
        if s_flag then
          call (sys_symlink target linkname (files s)) ''symlink failed''
            (''Symbolic link created: '' @ linkname @ '' -> '' @ target @ [NL]) s
        else
          call (sys_link target linkname (files s)) ''link failed''
            (''Hard link created: '' @ linkname @ '' -> '' @ target @ [NL]) s
    | _ \<Rightarrow> say (''usage: ln [-s] target linkname'' @ [NL]) s)"

subsection \<open>cp\<close>

text \<open>\<^verbatim>\<open>write\<close> at a position of a file.\<close>

definition pwrite :: "bytes \<Rightarrow> nat \<Rightarrow> bytes \<Rightarrow> bytes" where
  "pwrite d off chunk = take off (d @ replicate (off - length d) NUL) @ chunk @ drop (off + length chunk) d"

lemma pwrite_length: "length (pwrite d off chunk) = max (length d) (off + length chunk)"
  by (auto simp: pwrite_def)

definition size_of :: "nat \<Rightarrow> fs \<Rightarrow> nat" where
  "size_of n f = (case content f n of Some d \<Rightarrow> length d | None \<Rightarrow> 0)"

text \<open>\<^verbatim>\<open>read\<close> of up to \<open>k\<close> bytes.\<close>

definition next_chunk :: "nat \<Rightarrow> nat \<Rightarrow> nat \<Rightarrow> fs \<Rightarrow> bytes" where
  "next_chunk k n off f = (case content f n of Some d \<Rightarrow> take k (drop off d) | None \<Rightarrow> [])"

definition write_chunk :: "nat \<Rightarrow> nat \<Rightarrow> bytes \<Rightarrow> fs \<Rightarrow> fs" where
  "write_chunk n off chunk f = (case content f n of Some d \<Rightarrow> set_content n (pwrite d off chunk) f | None \<Rightarrow> f)"

lemma content_set_content: "content f n \<noteq> None \<Longrightarrow> content (set_content n d f) = (content f)(n := Some d)"
  by (auto simp: content_def set_content_def fun_eq_iff split: option.splits)

lemma content_write_chunk:
  "content f n = Some d \<Longrightarrow> content (write_chunk n off chunk f) = (content f)(n := Some (pwrite d off chunk))"
  by (simp add: write_chunk_def content_set_content)

lemma chunk_fits: "next_chunk k n off f \<noteq> [] \<Longrightarrow> off + length (next_chunk k n off f) \<le> size_of n f"
  by (auto simp: next_chunk_def size_of_def split: option.splits)

lemma write_chunk_size:
  "size_of n (write_chunk m off (next_chunk k n off f) f) - off \<le> size_of n f - off"
proof (cases "content f m")
  case None
  then show ?thesis by (simp add: write_chunk_def)
next
  case (Some d)
  show ?thesis
    using chunk_fits [of k n off f] Some
    by (cases "next_chunk k n off f = []"; cases "n = m")
       (auto simp: size_of_def content_write_chunk [OF Some] pwrite_length)
qed

text \<open>After a chunk is copied there is less to read.\<close>

lemma copy_measure:
  assumes "next_chunk k sfd off f \<noteq> []"
  shows "size_of sfd (write_chunk dfd off (next_chunk k sfd off f) f) - (off + length (next_chunk k sfd off f))
    < size_of sfd f - off"
proof -
  let ?c = "next_chunk k sfd off f"
  have "0 < length ?c" "off + length ?c \<le> size_of sfd f"
    "size_of sfd (write_chunk dfd off ?c f) - off \<le> size_of sfd f - off"
    using assms chunk_fits [of k sfd off f] write_chunk_size [of sfd dfd off k f] by simp_all
  then show ?thesis by linarith
qed

text \<open>The copying loop, with a buffer of \<open>k\<close> bytes: both descriptors stand at the same offset.\<close>

function cp_loop :: "nat \<Rightarrow> nat \<Rightarrow> nat \<Rightarrow> nat \<Rightarrow> fs \<Rightarrow> fs" where
  "cp_loop k sfd dfd off f =
     (let chunk = next_chunk k sfd off f in
      if chunk = [] then f
      else cp_loop k sfd dfd (off + length chunk) (write_chunk dfd off chunk f))"
  by pat_completeness auto
termination
  by (relation "measure (\<lambda>(k, sfd, dfd, off, f). size_of sfd f - off)") (simp_all add: copy_measure)

declare cp_loop.simps [simp del]

definition cmd_cp :: "bytes list \<Rightarrow> shell \<Rightarrow> shell" where
  "cmd_cp argv s = (case two_operands ''-i'' (tl argv) (False, None, None) of
      (i_flag, Some src, Some dest) \<Rightarrow>
        (let (go, s) = asked (i_flag \<and> sys_access dest (files s)) ''overwrite'' dest s in
         if \<not> go then s
         else case sys_open_read src (files s) of
             Inl e \<Rightarrow> perror ''src open error'' e s
           | Inr sfd \<Rightarrow> (case sys_open_write dest 420 (files s) of
                 Inl e \<Rightarrow> perror ''dest open error'' e s
               | Inr (dfd, f) \<Rightarrow> s\<lparr>files := cp_loop 4096 sfd dfd 0 f\<rparr>))
    | _ \<Rightarrow> say (''usage: cp [-i] src dest'' @ [NL]) s)"

subsection \<open>rm, mv\<close>

definition cmd_rm :: "bytes list \<Rightarrow> shell \<Rightarrow> shell" where
  "cmd_rm argv s = (case last_operand ''-i'' (tl argv) (False, None) of
      (i_flag, None) \<Rightarrow> say (''usage: rm [-i] file'' @ [NL]) s
    | (i_flag, Some file) \<Rightarrow>
        (let (go, s) = asked i_flag ''remove'' file s in
         if \<not> go then s else call (sys_unlink file (files s)) ''rm failed'' [] s))"

definition cmd_mv :: "bytes list \<Rightarrow> shell \<Rightarrow> shell" where
  "cmd_mv argv s = (case two_operands ''-i'' (tl argv) (False, None, None) of
      (i_flag, Some src, Some dest) \<Rightarrow>
        (let (go, s) = asked (i_flag \<and> sys_access dest (files s)) ''overwrite'' dest s in
         if \<not> go then s else call (sys_rename src dest (files s)) ''mv failed'' [] s)
    | _ \<Rightarrow> say (''usage: mv [-i] src dest'' @ [NL]) s)"

subsection \<open>cat and grep\<close>

text \<open>What \<^verbatim>\<open>fopen(file, "r")\<close> and \<^verbatim>\<open>fgets\<close> deliver: a directory opens and reads as
  nothing.\<close>

definition open_text :: "bytes \<Rightarrow> fs \<Rightarrow> errno + bytes" where
  "open_text file f = (case sys_open_read file f of
      Inl e \<Rightarrow> Inl e
    | Inr n \<Rightarrow> Inr (case content f n of Some d \<Rightarrow> d | None \<Rightarrow> []))"

definition pad :: "nat \<Rightarrow> bytes \<Rightarrow> bytes" where
  "pad n t = replicate (n - length t) SP @ t"

function cat_loop :: "bool \<Rightarrow> nat \<Rightarrow> bytes \<Rightarrow> bytes" where
  "cat_loop n_flag line_num fp =
     (if fp = [] then []
      else (if n_flag then pad 6 (show_nat line_num) @ [SP, SP] else []) @ cstr (fgets_chunk 1024 fp)
           @ cat_loop n_flag (if n_flag then line_num + 1 else line_num) (fgets_rest 1024 fp))"
  by pat_completeness auto
termination
  by (relation "measure (\<lambda>(n, k, fp). length fp)") (auto intro: fgets_rest_shorter)

declare cat_loop.simps [simp del]

definition cmd_cat :: "bytes list \<Rightarrow> shell \<Rightarrow> shell" where
  "cmd_cat argv s = (case last_operand ''-n'' (tl argv) (False, None) of
      (n_flag, None) \<Rightarrow> say (''usage: cat [-n] file'' @ [NL]) s
    | (n_flag, Some file) \<Rightarrow> (case open_text file (files s) of
          Inl e \<Rightarrow> perror ''cat file open error'' e s
        | Inr fp \<Rightarrow> say (cat_loop n_flag 1 fp) s))"

fun grep_args :: "bytes list \<Rightarrow> bool \<times> bool \<times> bytes option \<times> bytes option
    \<Rightarrow> bool \<times> bool \<times> bytes option \<times> bytes option" where
  "grep_args [] r = r"
| "grep_args (a # as) (n, i, p, f) =
     grep_args as
       (if a = ''-n'' then (True, i, p, f)
        else if a = ''-i'' then (n, True, p, f)
        else if p = None then (n, i, Some a, f)
        else if f = None then (n, i, p, Some a)
        else (n, i, p, f))"

definition lower :: "char \<Rightarrow> char" where
  "lower c = (if (65 :: nat) \<le> of_char c \<and> (of_char c :: nat) \<le> 90 then char_of ((of_char c :: nat) + 32) else c)"

definition strcasestr :: "bytes \<Rightarrow> bytes \<Rightarrow> nat option" where
  "strcasestr s p = strstr (map lower s) (map lower p)"

definition matches :: "bool \<Rightarrow> bytes \<Rightarrow> bytes \<Rightarrow> bool" where
  "matches i_flag pattern line = ((if i_flag then strcasestr line pattern else strstr line pattern) \<noteq> None)"

function grep_loop :: "bool \<Rightarrow> bool \<Rightarrow> bytes \<Rightarrow> nat \<Rightarrow> bytes \<Rightarrow> bytes" where
  "grep_loop n_flag i_flag pattern line_num fp =
     (if fp = [] then []
      else let line = cstr (fgets_chunk 1024 fp); line_num = line_num + 1 in
        (if matches i_flag pattern line
         then (if n_flag then show_nat line_num @ '': '' else []) @ line else [])
        @ grep_loop n_flag i_flag pattern line_num (fgets_rest 1024 fp))"
  by pat_completeness auto
termination
  by (relation "measure (\<lambda>(n, i, p, k, fp). length fp)") (auto intro: fgets_rest_shorter)

declare grep_loop.simps [simp del]

definition cmd_grep :: "bytes list \<Rightarrow> shell \<Rightarrow> shell" where
  "cmd_grep argv s = (case grep_args (tl argv) (False, False, None, None) of
      (n_flag, i_flag, Some pattern, Some file) \<Rightarrow> (case open_text file (files s) of
          Inl e \<Rightarrow> perror ''grep file open error'' e s
        | Inr fp \<Rightarrow> say (grep_loop n_flag i_flag pattern 0 fp) s)
    | _ \<Rightarrow> say (''usage: grep [-n] [-i] pattern file'' @ [NL]) s)"

subsection \<open>ls\<close>

text \<open>The loop over the arguments: any argument that starts with a dash sets the flags whose
  letter occurs in it, any other is the path.\<close>

fun ls_args :: "bytes list \<Rightarrow> bool \<times> bool \<times> bytes \<Rightarrow> bool \<times> bool \<times> bytes" where
  "ls_args [] r = r"
| "ls_args (x # xs) (a, l, path) =
     ls_args xs
       (if starts ''-'' x then (a \<or> strstr x ''a'' \<noteq> None, l \<or> strstr x ''l'' \<noteq> None, path)
        else (a, l, x))"

definition mode_text :: "inode \<Rightarrow> bytes" where
  "mode_text i =
     (case i_kind i of K_Dir \<Rightarrow> ''d'' | K_Link t \<Rightarrow> ''l'' | K_File d \<Rightarrow> ''-'')
     @ map (\<lambda>(c, b). if bit (i_mode i) b then c else CHR ''-'')
         [(CHR ''r'', 8), (CHR ''w'', 7), (CHR ''x'', 6), (CHR ''r'', 5), (CHR ''w'', 4), (CHR ''x'', 3),
          (CHR ''r'', 2), (CHR ''w'', 1), (CHR ''x'', 0 :: nat)]"

text \<open>\<^verbatim>\<open>st_size\<close>: of a directory the 4096 bytes that Linux file systems report.\<close>

definition st_size :: "inode \<Rightarrow> nat" where
  "st_size i = (case i_kind i of K_Dir \<Rightarrow> 4096 | K_Link t \<Rightarrow> length t | K_File d \<Rightarrow> length d)"

definition unknown_if :: "bytes option \<Rightarrow> bytes" where
  "unknown_if nm = (case nm of Some n \<Rightarrow> n | None \<Rightarrow> ''unknown'')"

text \<open>One line of \<^verbatim>\<open>ls -l\<close>; \<^verbatim>\<open>fullpath\<close> and \<^verbatim>\<open>link_target\<close> are arrays of 1024 bytes.\<close>

definition long_line :: "world \<Rightarrow> bytes \<Rightarrow> bytes \<Rightarrow> fs \<Rightarrow> bytes cres" where
  "long_line w path entry f =
     cbind (store_cstr (replicate 1024 NUL) (path @ ''/'' @ entry)) (\<lambda>fullpath.
     case sys_lstat (cstr fullpath) f of
       None \<Rightarrow> Inr []
     | Some (i, nlink) \<Rightarrow> Inr
         (mode_text i @ [SP] @ show_nat nlink @ [SP] @ unknown_if (pw_name w (i_uid i)) @ [SP]
          @ unknown_if (gr_name w (i_gid i)) @ [SP] @ pad 5 (show_nat (st_size i)) @ [SP]
          @ time_text w (i_mtime i) @ [SP] @ entry
          @ (case i_kind i of K_Link t \<Rightarrow> '' -> '' @ take 1023 t | _ \<Rightarrow> []) @ [NL]))"

fun ls_loop :: "world \<Rightarrow> bool \<Rightarrow> bool \<Rightarrow> bytes \<Rightarrow> bytes list \<Rightarrow> fs \<Rightarrow> bytes cres" where
  "ls_loop w a l path [] f = Inr []"
| "ls_loop w a l path (e # es) f =
     (if \<not> a \<and> starts ''.'' e then ls_loop w a l path es f
      else cbind (if l then long_line w path e f else Inr (e @ [SP, SP])) (\<lambda>t.
           cbind (ls_loop w a l path es f) (\<lambda>r. Inr (t @ r))))"

definition cmd_ls :: "world \<Rightarrow> bytes list \<Rightarrow> shell \<Rightarrow> shell cres" where
  "cmd_ls w argv s =
     (let (a, l, path) = ls_args (tl argv) (False, False, ''.'') in
      case sys_readdir path (files s) of
        Inl e \<Rightarrow> Inr (perror ''ls error'' e s)
      | Inr es \<Rightarrow> cbind (ls_loop w a l path es (files s)) (\<lambda>t.
          Inr (say (t @ (if l then [] else [NL])) s)))"

end
