(* ===== verification/File_Paths.thy ===== *)
theory File_Paths
  imports File_Invariant
begin

section \<open>How paths resolve after a change\<close>

text \<open>
  A path that resolves to a free place resolves to the same place once something stands
  there, and a change of file contents changes no resolution.  These facts let a property
  speak of two calls in a row with the same path.
\<close>

definition same_shape :: "kind option \<Rightarrow> kind option \<Rightarrow> bool" where
  "same_shape k l \<longleftrightarrow> k = l \<or> (\<exists>d e. k = Some (K_File d) \<and> l = Some (K_File e))"

lemma same_shape_refl [simp]: "same_shape k k"
  by (simp add: same_shape_def)

lemma walk_same_shape:
  assumes "\<forall>p. same_shape (kind_at f p) (kind_at g p)"
  shows "walk g n follow cur cs = walk f n follow cur cs"
  using assms
proof (induction f n follow cur cs rule: walk.induct)
  case (2 f n follow cur c cs)
  note w = walk.simps(2) [of f n follow cur c cs] walk.simps(2) [of g n follow cur c cs]
  have s: "same_shape (kind_at f (cur @ [c])) (kind_at g (cur @ [c]))" using "2.prems" by blast
  consider "c = ''.'' \<or> c = ''..''" | "c \<noteq> ''.''" "c \<noteq> ''..''" by blast
  then show ?case
  proof cases
    case 1
    then show ?thesis using w "2.IH"(1,2) "2.prems" by auto
  next
    case 2
    note IH = "2.IH"(3,4) [OF 2]
    show ?thesis
    proof (cases "kind_at f (cur @ [c])")
      case None
      then show ?thesis using w 2 s by (simp add: same_shape_def)
    next
      case (Some k)
      with s have "kind_at g (cur @ [c]) = Some k \<or> (\<exists>d e. k = K_File d \<and> kind_at g (cur @ [c]) = Some (K_File e))"
        by (auto simp: same_shape_def)
      with Some show ?thesis
        using w 2 IH [OF Some] "2.prems" by (cases k; cases n) auto
    qed
  qed
qed simp

lemma resolve_same_shape:
  assumes "\<forall>p. same_shape (kind_at f p) (kind_at g p)" "cwd g = cwd f"
  shows "resolve follow s g = resolve follow s f"
proof -
  have "kind_at g (cwd f) = Some K_Dir \<longleftrightarrow> kind_at f (cwd f) = Some K_Dir"
    using assms(1) [rule_format, of "cwd f"] by (auto simp: same_shape_def)
  then show ?thesis
    using walk_same_shape [OF assms(1)] assms(2) by (simp add: resolve_def)
qed

text \<open>Something new at the place a path resolved to.\<close>

definition stops_at :: "bool \<Rightarrow> kind option \<Rightarrow> bool" where
  "stops_at follow k = (case k of
      None \<Rightarrow> False | Some K_Dir \<Rightarrow> True | Some (K_File d) \<Rightarrow> True | Some (K_Link t) \<Rightarrow> \<not> follow)"

lemma walk_new_name:
  assumes "kind_at f q = None" "\<forall>p. p \<noteq> q \<longrightarrow> kind_at g p = kind_at f p" "stops_at follow (kind_at g q)"
    and "walk f n follow cur cs = Inr q"
  shows "walk g n follow cur cs = Inr q"
  using assms
proof (induction f n follow cur cs rule: walk.induct)
  case (2 f n follow cur c cs)
  note w = walk.simps(2) [of f n follow cur c cs] walk.simps(2) [of g n follow cur c cs]
  note res = "2.prems"(4) [unfolded w(1)]
  consider (Dots) "c = ''.'' \<or> c = ''..''"
    | (New) "c \<noteq> ''.''" "c \<noteq> ''..''" "cur @ [c] = q"
    | (Stop) "c \<noteq> ''.''" "c \<noteq> ''..''" "cur @ [c] \<noteq> q" "\<forall>k. kind_at f (cur @ [c]) = Some k \<longrightarrow> (\<exists>d. k = K_File d)"
    | (Dir) "c \<noteq> ''.''" "c \<noteq> ''..''" "cur @ [c] \<noteq> q" "kind_at f (cur @ [c]) = Some K_Dir"
    | (Link) t where "c \<noteq> ''.''" "c \<noteq> ''..''" "cur @ [c] \<noteq> q" "kind_at f (cur @ [c]) = Some (K_Link t)"
    by (metis kind.exhaust)
  then show ?case
  proof cases
    case Dots
    then show ?thesis using w(2) res "2.IH"(1,2) "2.prems"(1-3) by auto
  next
    case New
    then have cs: "cs = []" using res "2.prems"(1) by (simp split: if_splits)
    obtain k where "kind_at g q = Some k" using "2.prems"(3) by (cases "kind_at g q") (simp_all add: stops_at_def)
    then show ?thesis
      using w(2) New cs "2.prems"(3) by (cases k) (simp_all add: stops_at_def)
  next
    case Stop
    then show ?thesis using res by (auto split: option.splits if_splits)
  next
    case Dir
    then have "walk f n follow (cur @ [c]) cs = Inr q" using res by simp
    from "2.IH"(3) [OF Dir(1,2,4) refl "2.prems"(1-3) this] show ?thesis
      using w(2) Dir "2.prems"(2) by simp
  next
    case Link
    have stop: "\<not> (cs = [] \<and> \<not> follow)"
      using res Link by (cases follow) auto
    then obtain m where m: "n = Suc m" "walk f m follow (if starts ''/'' t then [] else cur) (components [] t @ cs) = Inr q"
      using res Link by (cases n) auto
    from "2.IH"(4) [OF Link(1,2,4) refl stop m(1) "2.prems"(1-3) m(2)] show ?thesis
      using w(2) Link stop m(1) "2.prems"(2) by auto
  qed
qed simp

lemma resolve_new_name:
  assumes "kind_at f q = None" "\<forall>p. p \<noteq> q \<longrightarrow> kind_at g p = kind_at f p" "stops_at follow (kind_at g q)"
    and "resolve follow s f = Inr q" "cwd g = cwd f"
  shows "resolve follow s g = Inr q"
proof -
  have "kind_at f (cwd f) = Some K_Dir \<Longrightarrow> kind_at g (cwd f) = Some K_Dir"
    using assms(1,2) by (metis option.distinct(1))
  then show ?thesis
    using assms(4,5) walk_new_name [OF assms(1-3)] by (auto simp: resolve_def split: if_splits)
qed

text \<open>A path that resolves to a free place, without following its last component, does not
  end in a dot.\<close>

lemma walk_free_last:
  assumes "fs_wf f" "kind_at f cur = Some K_Dir" "walk f n False cur cs = Inr q" "kind_at f q = None"
  shows "cs \<noteq> [] \<and> last cs \<noteq> ''.'' \<and> last cs \<noteq> ''..''"
  using assms
proof (induction f n "False" cur cs rule: walk.induct)
  case (1 f n cur)
  then show ?case by simp
next
  case (2 f n cur c cs)
  note w = walk.simps(2) [of f n False cur c cs]
  have parent: "kind_at f (butlast cur) = Some K_Dir"
    using fs_wf_parent [OF "2.prems"(1), of cur] kind_at_lookup [OF "2.prems"(2)] fs_wf_root [OF "2.prems"(1)]
    by (cases "cur = []") auto
  consider "c = ''.'' \<or> c = ''..''" | "cs = []" "c \<noteq> ''.''" "c \<noteq> ''..''" | "cs \<noteq> []" "c \<noteq> ''.''" "c \<noteq> ''..''"
    by blast
  then show ?case
  proof cases
    case 1
    with w parent "2.prems" "2.hyps"(1,2) have "cs \<noteq> [] \<and> last cs \<noteq> ''.'' \<and> last cs \<noteq> ''..''" by auto
    then show ?thesis by simp
  next
    case 2
    then show ?thesis by simp
  next
    case 3
    obtain k where k: "kind_at f (cur @ [c]) = Some k"
      using w 3 "2.prems"(3) by (cases "kind_at f (cur @ [c])") auto
    show ?thesis
    proof (cases k)
      case K_Dir
      with k 3 w "2.prems" "2.hyps"(3) show ?thesis by auto
    next
      case (K_File d)
      with k 3 w "2.prems" show ?thesis by auto
    next
      case (K_Link t)
      with k 3 w "2.prems"(3) obtain m where m: "n = Suc m"
        "walk f m False (if starts ''/'' t then [] else cur) (components [] t @ cs) = Inr q"
        by (cases n) auto
      have "kind_at f (if starts ''/'' t then [] else cur) = Some K_Dir"
        using "2.prems"(2) fs_wf_root [OF "2.prems"(1)] by simp
      with "2.hyps"(4) [OF 3(2,3) k K_Link _ m(1)] "2.prems"(1,4) m(2) 3(1) show ?thesis by simp
    qed
  qed
qed

lemma resolve_free_last:
  assumes "fs_wf f" "resolve False s f = Inr q" "kind_at f q = None"
  shows "\<not> ends_in_dots s"
  using assms walk_free_last [OF assms(1) _ _ assms(3), of _ _ "components [] s"] fs_wf_root [OF assms(1)]
  by (auto simp: resolve_def ends_in_dots_def Let_def split: if_splits)

text \<open>The two forms used below: an inode is created, or a name bound, at a free place.\<close>

lemma resolve_new_inode:
  assumes "fs_wf f" "resolve follow s f = Inr q" "lookup (names f) q = None" "stops_at follow (Some k)"
  shows "resolve follow s (new_inode q k m f) = Inr q"
proof (rule resolve_new_name [OF _ _ _ assms(2)])
  show "kind_at f q = None" using kind_at_None [OF assms(1)] assms(3) by simp
qed (simp_all add: new_inode_kind [OF assms(1,3)] assms(4), simp add: new_inode_def)

lemma find_new_inode:
  assumes "fs_wf f" "resolve follow s f = Inr q" "lookup (names f) q = None" "stops_at follow (Some k)"
  shows "find follow s (new_inode q k m f) = Inr (q, next_ino f)"
  using resolve_new_inode [OF assms] assms(3) by (simp add: find_def new_inode_def lookup_bind)

lemma find_set_content:
  assumes "content f n \<noteq> None"
  shows "find follow s (set_content n d f) = find follow s f"
proof -
  have "\<forall>p. same_shape (kind_at f p) (kind_at (set_content n d f) p)"
  proof
    fix p
    show "same_shape (kind_at f p) (kind_at (set_content n d f) p)"
    proof (cases "lookup (names f) p = Some n")
      case True
      then have "\<exists>e. kind_at f p = Some (K_File e)"
        using assms content_kind [OF True] by auto
      with True set_content_kind [OF assms, of d p] show ?thesis by (auto simp: same_shape_def)
    next
      case False
      with set_content_kind [OF assms, of d p] show ?thesis by simp
    qed
  qed
  moreover have "cwd (set_content n d f) = cwd f" "names (set_content n d f) = names f"
    by (auto simp: set_content_def split: option.splits)
  ultimately show ?thesis
    using resolve_same_shape [of f "set_content n d f" follow s] unfolding find_def by (simp split: sum.split)
qed

end
