(* ===== verification/Command_Laws.thy ===== *)
theory Command_Laws
  imports Commands File_Paths
begin

section \<open>What the built-in commands do\<close>

text \<open>
  The properties of \<^verbatim>\<open>project1/commands.c\<close>, proved of the definitions of \<open>Commands\<close>: every
  command keeps the file system well formed; \<^verbatim>\<open>cp\<close>, \<^verbatim>\<open>mv\<close>, \<^verbatim>\<open>ln\<close>, \<^verbatim>\<open>rm\<close>, \<^verbatim>\<open>mkdir\<close> and
  \<^verbatim>\<open>rmdir\<close> have the effect their names promise and no other; \<^verbatim>\<open>cat\<close> prints a text whole
  and \<^verbatim>\<open>grep\<close> exactly its matching lines.
\<close>

subsection \<open>Well-formedness\<close>

lemma shell_frame [simp]:
  "files (say t s) = files s" "files (perror t e s) = files s" "sin (say t s) = sin s"
  "sin (perror t e s) = sin s" "sout (perror t e s) = sout s" "serr (say t s) = serr s"
  "sout (say t s) = sout s @ t" "serr (perror t e s) = serr s @ [(t, e)]"
  by (simp_all add: say_def perror_def)

lemma asked_files: "asked fl m n s = (go, u) \<Longrightarrow> files u = files s"
  by (auto simp: asked_def confirm_action_def Let_def split: list.splits if_splits)

lemma call_files:
  "files (call r msg ok s) = (case r of Inl e \<Rightarrow> files s | Inr f \<Rightarrow> f)"
  by (simp add: call_def split: sum.split)

lemma write_chunk_wf: "fs_wf f \<Longrightarrow> fs_wf (write_chunk n off c f)"
  by (simp add: write_chunk_def set_content_wf split: option.split)

lemma cp_loop_wf: "fs_wf f \<Longrightarrow> fs_wf (cp_loop k sfd dfd off f)"
proof (induction k sfd dfd off f rule: cp_loop.induct)
  case (1 k sfd dfd off f)
  then show ?case
    using write_chunk_wf by (simp add: cp_loop.simps [of k sfd dfd off f] Let_def)
qed

lemma cmd_cp_wf: "fs_wf (files s) \<Longrightarrow> fs_wf (files (cmd_cp argv s))"
  by (auto simp: cmd_cp_def split: prod.splits option.splits sum.splits
      dest!: asked_files dest: open_write_wf intro!: cp_loop_wf)

lemma cmd_mv_wf: "fs_wf (files s) \<Longrightarrow> fs_wf (files (cmd_mv argv s))"
  by (auto simp: cmd_mv_def call_files split: prod.splits option.splits sum.splits
      dest!: asked_files dest: rename_wf)

lemma cmd_rm_wf: "fs_wf (files s) \<Longrightarrow> fs_wf (files (cmd_rm argv s))"
  by (auto simp: cmd_rm_def call_files split: prod.splits option.splits sum.splits
      dest!: asked_files dest: unlink_wf)

lemma cmd_reads_wf:
  "files (cmd_cat argv s) = files s" "files (cmd_grep argv s) = files s" "files (cmd_pwd argv s) = files s"
  "cmd_ls w argv s = Inr t \<Longrightarrow> files t = files s"
  by (auto simp: cmd_cat_def cmd_grep_def cmd_pwd_def cmd_ls_def Let_def split: prod.splits option.splits sum.splits)

lemma cmd_calls_wf:
  assumes "fs_wf (files s)"
  shows "fs_wf (files (cmd_cd w argv s))" "fs_wf (files (cmd_mkdir argv s))"
    "fs_wf (files (cmd_rmdir argv s))" "fs_wf (files (cmd_ln argv s))"
  using assms
  by (auto simp: cmd_cd_def cmd_mkdir_def cmd_rmdir_def cmd_ln_def call_files
      split: prod.splits option.splits sum.splits dest: chdir_wf mkdir_wf rmdir_wf symlink_wf link_wf)

subsection \<open>cp\<close>

lemma content_new_file:
  "content (new_inode p (K_File d) m f) = (content f)(next_ino f := Some d)"
  by (auto simp: content_def new_inode_def fun_eq_iff)

lemma open_write_effect:
  assumes wf: "fs_wf f" and o: "sys_open_write dest md f = Inr (m, g)"
  shows "content g = (content f)(m := Some []) \<and> (\<exists>p. find True dest g = Inr (p, m))"
proof -
  obtain p where p: "resolve True dest f = Inr p" using o by (auto simp: sys_open_write_def split: sum.splits)
  show ?thesis
  proof (cases "lookup (names f) p")
    case None
    then have g: "m = next_ino f" "g = new_inode p (K_File []) (masked md f) f"
      using o p by (auto simp: sys_open_write_def)
    with find_new_inode [OF wf p None, of "K_File []"] show ?thesis
      by (simp add: stops_at_def content_new_file)
  next
    case (Some k)
    then have c: "content f m \<noteq> None" "g = set_content m [] f" "k = m"
      using o p by (auto simp: sys_open_write_def split: if_splits)
    then show ?thesis
      using Some p content_set_content [OF c(1), of "[]"] find_set_content [OF c(1), of True dest "[]"]
      by (simp add: find_def)
  qed
qed

lemma pwrite_next:
  assumes "off \<le> length d"
  shows "pwrite (take off d) off (take k (drop off d)) = take (off + length (take k (drop off d))) d"
proof -
  have "take (off + length (take k (drop off d))) d = take off d @ take k (drop off d)"
    using assms by (simp add: take_add min_def)
  then show ?thesis using assms by (simp add: pwrite_def)
qed

lemma cp_loop_copies:
  assumes "0 < k" "n \<noteq> m" "content f n = Some d" "content f m = Some (take off d)" "off \<le> length d"
  shows "content (cp_loop k n m off f) = (content f)(m := Some d)
    \<and> find follow p (cp_loop k n m off f) = find follow p f"
  using assms
proof (induction k n m off f rule: cp_loop.induct)
  case (1 k n m off f)
  let ?c = "next_chunk k n off f"
  have c: "?c = take k (drop off d)" using "1.prems" by (simp add: next_chunk_def)
  show ?case
  proof (cases "?c = []")
    case True
    then have "take off d = d" using c "1.prems"(1) by simp
    then have "content f = (content f)(m := Some d)" using "1.prems" by auto
    with True show ?thesis by (simp add: cp_loop.simps [of k n m off f])
  next
    case False
    let ?g = "write_chunk m off ?c f"
    have g: "content ?g = (content f)(m := Some (take (off + length ?c) d))"
      using content_write_chunk [OF "1.prems"(4)] pwrite_next [OF "1.prems"(5)] c by simp
    have fd: "find follow p ?g = find follow p f"
      using "1.prems"(4) find_set_content [of f m follow p] by (simp add: write_chunk_def)
    have len: "off + length ?c \<le> length d" using c "1.prems"(5) by simp
    have h: "content ?g n = Some d" "content ?g m = Some (take (off + length ?c) d)"
      using g "1.prems"(2,3) by simp_all
    have "content (cp_loop k n m (off + length ?c) ?g) = (content ?g)(m := Some d)
        \<and> find follow p (cp_loop k n m (off + length ?c) ?g) = find follow p ?g"
      by (rule "1.IH" [OF refl False "1.prems"(1,2) h len])
    with False g fd show ?thesis by (simp add: cp_loop.simps [of k n m off f] Let_def fun_eq_iff)
  qed
qed

lemma two_operands_plain:
  "x \<noteq> opt \<Longrightarrow> y \<noteq> opt \<Longrightarrow> two_operands opt (tl [c, x, y]) (False, None, None) = (False, Some x, Some y)"
  by simp

text \<open>
  \<^verbatim>\<open>cp src dest\<close> for a regular file \<open>src\<close> and a \<open>dest\<close> that can be opened: the
  file behind \<open>dest\<close>, created if it did not exist, has the content of \<open>src\<close>, byte for byte,
  and no other file changes; if both are the same file (also through links), its content is
  lost, because \<open>dest\<close> is truncated before \<open>src\<close> is read.
\<close>

lemma cp_copies:
  assumes "fs_wf (files s)" and "src \<noteq> ''-i''" and "dest \<noteq> ''-i''"
    and "sys_open_read src (files s) = Inr n" and "content (files s) n = Some d"
    and "sys_open_write dest 420 (files s) = Inr (m, g)"
  shows "content (files (cmd_cp [c, src, dest] s)) = (content (files s))(m := Some (if m = n then [] else d))
    \<and> open_text dest (files (cmd_cp [c, src, dest] s)) = Inr (if m = n then [] else d)
    \<and> serr (cmd_cp [c, src, dest] s) = serr s"
proof -
  let ?t = "cmd_cp [c, src, dest] s"
  obtain p where g: "content g = (content (files s))(m := Some [])" "find True dest g = Inr (p, m)"
    using open_write_effect [OF assms(1,6)] by blast
  have t: "?t = s\<lparr>files := cp_loop 4096 n m 0 g\<rparr>"
    using assms by (simp add: cmd_cp_def asked_def)
  show ?thesis
  proof (cases "m = n")
    case True
    have "next_chunk 4096 n 0 g = []" using True g(1) by (simp add: next_chunk_def)
    then have "cp_loop 4096 n m 0 g = g" by (simp add: cp_loop.simps [of 4096 n m 0 g])
    with t True g show ?thesis by (simp add: open_text_def sys_open_read_def)
  next
    case False
    then have "content g n = Some d" "content g m = Some (take 0 d)" using g(1) assms(5) by simp_all
    with cp_loop_copies [of 4096 n m g d 0 True dest] False have
      "content (cp_loop 4096 n m 0 g) = (content g)(m := Some d)" "find True dest (cp_loop 4096 n m 0 g) = find True dest g"
      by simp_all
    with t False g show ?thesis by (simp add: open_text_def sys_open_read_def)
  qed
qed

text \<open>A small file system: a home directory with two files.\<close>

definition demo_files :: fs where
  "demo_files = \<lparr>names = [([], 0), ([''home''], 1), ([''home'', ''a''], 2), ([''home'', ''b''], 3)],
     inodes = [0 \<mapsto> \<lparr>i_kind = K_Dir, i_mode = 493, i_uid = 0, i_gid = 0, i_mtime = 0\<rparr>,
       1 \<mapsto> \<lparr>i_kind = K_Dir, i_mode = 493, i_uid = 0, i_gid = 0, i_mtime = 0\<rparr>,
       2 \<mapsto> \<lparr>i_kind = K_File [CHR ''x'', NL, CHR ''y'', NL], i_mode = 420, i_uid = 0, i_gid = 0, i_mtime = 0\<rparr>,
       3 \<mapsto> \<lparr>i_kind = K_File [], i_mode = 420, i_uid = 0, i_gid = 0, i_mtime = 0\<rparr>],
     next_ino = 4, cwd = [''home''], umask = 18, user = (0, 0), now = 1\<rparr>"

definition demo :: shell where
  "demo = \<lparr>files = demo_files, sin = [], sout = [], serr = []\<rparr>"

text \<open>Empty user and group databases and no environment.\<close>

definition no_world :: world where
  "no_world = \<lparr>home = None, pw_name = (\<lambda>n. None), gr_name = (\<lambda>n. None), time_text = (\<lambda>n. [])\<rparr>"

lemma demo_lookup: "lookup (names demo_files) = [[] \<mapsto> 0, [''home''] \<mapsto> 1, [''home'', ''a''] \<mapsto> 2, [''home'', ''b''] \<mapsto> 3]"
  by (rule ext) (simp add: demo_files_def lookup_def)

lemma demo_wf: "fs_wf demo_files"
  unfolding fs_wf_def demo_lookup
  by (simp add: kind_at_def inode_at_def demo_lookup) (simp add: demo_files_def name_ok_def component_ok_def)


lemma demo_opens:
  "sys_open_read ''a'' demo_files = Inr 2" "content demo_files 2 = Some [CHR ''x'', NL, CHR ''y'', NL]"
  by code_simp+

lemma demo_shell: "fs_wf (files demo)" "files demo = demo_files"
  by (simp_all add: demo_def demo_wf)

lemma demo_open_new: "\<exists>g. sys_open_write ''c'' 420 demo_files = Inr (4, g)"
proof -
  have "resolve True ''c'' demo_files = Inr [''home'', ''c'']"
    "lookup (names demo_files) [''home'', ''c''] = None" "next_ino demo_files = 4"
    by code_simp+
  then show ?thesis by (simp add: sys_open_write_def)
qed

lemma cp_copies_example:
  "open_text ''c'' (files (cmd_cp [''cp'', ''a'', ''c''] demo)) = Inr [CHR ''x'', NL, CHR ''y'', NL]"
proof -
  obtain g where "sys_open_write ''c'' 420 (files demo) = Inr (4, g)"
    using demo_open_new demo_shell(2) by auto
  then show ?thesis
    using cp_copies [OF demo_shell(1), of "''a''" "''c''" 2 _ 4 g "''cp''"] demo_opens demo_shell(2) by simp
qed

subsection \<open>mv, ln, rm, mkdir, rmdir\<close>

lemma lookup_renamed:
  assumes wf: "fs_wf f" and p: "lookup (names f) p = Some n" "kind_at f p \<noteq> Some K_Dir"
    and sep: "take (length p) q \<noteq> p" and leaf: "\<forall>r. r \<noteq> [] \<longrightarrow> lookup (names f) r \<noteq> None \<longrightarrow> butlast r \<noteq> q"
  shows "lookup (move_names p q (names f)) = (lookup (names f))(p := None, q \<mapsto> n)"
proof
  fix r
  let ?t = "names f"
  have below: "\<forall>x. x \<noteq> [] \<longrightarrow> lookup ?t (q @ x) = None" using nothing_below [OF wf leaf] by blast
  have under: "x \<noteq> [] \<Longrightarrow> lookup ?t (p @ x) = None" for x
    using nothing_below [OF wf leaf_not_dir [OF wf p(2)]] by blast
  have pq: "\<forall>x. p \<noteq> q @ x"
    using below p(1) sep by (metis append_Nil2 option.distinct(1) order_refl take_all_iff)
  have img: "lookup (move_names p q ?t) r \<noteq> None \<Longrightarrow> r = q \<or> (lookup ?t r \<noteq> None \<and> r \<noteq> p)"
  proof -
    assume "lookup (move_names p q ?t) r \<noteq> None"
    then obtain k where "lookup (move_names p q ?t) r = Some k" by auto
    then obtain s where s: "r = moved p q s" "lookup ?t s = Some k" "\<forall>x. s \<noteq> q @ x"
      using below by (rule lookup_moved_key)
    show ?thesis
    proof (cases "take (length p) s = p")
      case True
      then obtain x where "s = p @ x" by (auto simp: take_eq_iff)
      with s(2) under have "s = p" by (cases "x = []") simp_all
      then show ?thesis using s(1) moved_under [of p q "[]"] by simp
    next
      case False
      then have "r = s" using s(1) by (simp add: moved_other)
      moreover have "s \<noteq> p" using False by auto
      ultimately show ?thesis using s(2) by simp
    qed
  qed
  show "lookup (move_names p q ?t) r = ((lookup ?t)(p := None, q \<mapsto> n)) r"
  proof (cases "r = q")
    case True
    then show ?thesis using lookup_moved [OF below pq, of p] moved_under [of p q "[]"] p(1) by simp
  next
    case False
    show ?thesis
    proof (cases "lookup ?t r = None \<or> r = p")
      case True
      then have "lookup (move_names p q ?t) r = None" using img False by (cases "lookup (move_names p q ?t) r") auto
      then show ?thesis using True False by auto
    next
      case no: False
      then have "take (length p) r \<noteq> p" using under by (metis append_Nil2 take_eq_iff)
      moreover have "\<forall>x. r \<noteq> q @ x" using below no False by (metis append_Nil2)
      ultimately show ?thesis using lookup_moved [OF below, of r p] no False by (simp add: moved_other)
    qed
  qed
qed

text \<open>
  Property C24.  \<^verbatim>\<open>mv src dest\<close> for a source that is not a directory: when the rename
  succeeds and the names were of different inodes, the old name is gone, the new name means
  the source's inode, whatever it meant before, every other name means what it meant, and no
  inode changes; nothing is printed.
\<close>

theorem mv_moves:
  assumes "fs_wf (files s)" and "src \<noteq> ''-i''" and "dest \<noteq> ''-i''"
    and "sys_rename src dest (files s) = Inr g" and "find False src (files s) = Inr (p, n)"
    and "kind_at (files s) p \<noteq> Some K_Dir" and "resolve False dest (files s) = Inr q"
    and "lookup (names (files s)) q \<noteq> Some n"
  shows "lookup (names (files (cmd_mv [c, src, dest] s))) = (lookup (names (files s)))(p := None, q \<mapsto> n)
    \<and> inodes (files (cmd_mv [c, src, dest] s)) = inodes (files s)
    \<and> serr (cmd_mv [c, src, dest] s) = serr s \<and> sout (cmd_mv [c, src, dest] s) = sout s"
proof -
  have t: "files (cmd_mv [c, src, dest] s) = g" "serr (cmd_mv [c, src, dest] s) = serr s"
    "sout (cmd_mv [c, src, dest] s) = sout s"
    using assms(2-4) by (simp_all add: cmd_mv_def asked_def call_def)
  have pn: "lookup (names (files s)) p = Some n" using assms(5) by (rule find_lookup)
  from assms(1,4) show ?thesis
  proof (cases rule: rename_moves)
    case (same p' n' q')
    then show ?thesis using assms(5,7,8) by simp
  next
    case (move p' n' q')
    then have "p' = p" "n' = n" "q' = q" using assms(5,7) by auto
    with move t lookup_renamed [OF assms(1) pn assms(6), of q] show ?thesis by simp
  qed
qed


theorem mv_moves_witness:
  "lookup (names (files (cmd_mv [''mv'', ''a'', ''b''] demo))) [''home'', ''b''] = Some 2
   \<and> lookup (names (files (cmd_mv [''mv'', ''a'', ''b''] demo))) [''home'', ''a''] = None"
proof -
  have f: "find False ''a'' demo_files = Inr ([''home'', ''a''], 2)" "resolve False ''b'' demo_files = Inr [''home'', ''b'']"
    "kind_at demo_files [''home'', ''a''] \<noteq> Some K_Dir" "lookup (names demo_files) [''home'', ''b''] \<noteq> Some 2"
    by code_simp+
  have "case sys_rename ''a'' ''b'' demo_files of Inl e \<Rightarrow> False | Inr g \<Rightarrow> True" by code_simp
  then obtain g where "sys_rename ''a'' ''b'' demo_files = Inr g" by (auto split: sum.splits)
  with f mv_moves [OF demo_shell(1), of "''a''" "''b''" g _ 2 _ "''mv''"] demo_shell(2) show ?thesis
    by simp
qed

text \<open>
  \<^verbatim>\<open>ln target link\<close> makes a second name of the same inode, and \<^verbatim>\<open>rm link\<close> takes
  back exactly that: after the link the new name finds the target's inode and every other
  name means what it meant; after the removal the names and inodes are those of before.
\<close>

lemma ln_then_rm:
  assumes "fs_wf (files s)" and "target \<noteq> ''-s''" and "link \<noteq> ''-s''" and "link \<noteq> ''-i''"
    and "sys_link target link (files s) = Inr g"
  shows "\<exists>p q n. find False target (files s) = Inr (p, n) \<and> lookup (names (files s)) q = None
    \<and> lookup (names (files (cmd_ln [c, target, link] s))) = (lookup (names (files s)))(q \<mapsto> n)
    \<and> find False link (files (cmd_ln [c, target, link] s)) = Inr (q, n)
    \<and> lookup (names (files (cmd_rm [c', link] (cmd_ln [c, target, link] s)))) = lookup (names (files s))
    \<and> inodes (files (cmd_rm [c', link] (cmd_ln [c, target, link] s))) = inodes (files s)"
proof -
  let ?f = "files s"
  obtain p n q where pq: "find False target ?f = Inr (p, n)" "resolve False link ?f = Inr q"
    "lookup (names ?f) q = None" "kind_at ?f p \<noteq> Some K_Dir" "g = ?f\<lparr>names := bind_name q n (names ?f)\<rparr>"
    using assms(5) by (auto simp: sys_link_def split: sum.splits if_splits)
  note pn = find_lookup [OF pq(1)]
  have look: "lookup (names g) = (lookup (names ?f))(q \<mapsto> n)"
    by (simp add: pq(5) lookup_bind pq(3))
  have kind: "kind_at g r = (if r = q then kind_at ?f p else kind_at ?f r)" for r
    using pn by (simp add: kind_at_eq pq(5) lookup_bind pq(3) split: option.splits)
  have "kind_at ?f p \<noteq> None" using fs_wf_inode [OF assms(1) pn] pn by (auto simp: kind_at_eq)
  then have stops: "stops_at False (kind_at ?f p)"
    by (auto simp: stops_at_def split: option.splits kind.splits)
  have "resolve False link g = Inr q"
    by (rule resolve_new_name [OF _ _ _ pq(2)])
      (use kind_at_None [OF assms(1)] pq(3,5) kind stops in simp_all)
  then have found: "find False link g = Inr (q, n)" by (simp add: find_def look)
  then have "sys_unlink link g = Inr (g\<lparr>names := unbind_name q (names g)\<rparr>)"
    using kind pq(4) by (simp add: sys_unlink_def)
  moreover have "files (cmd_ln [c, target, link] s) = g"
    using assms(2,3,5) by (simp add: cmd_ln_def call_files)
  ultimately show ?thesis
    using pq look found assms(4)
    by (auto simp: cmd_rm_def asked_def call_files lookup_unbind fun_upd_idem)
qed


lemma ln_then_rm_example:
  "lookup (names (files (cmd_rm [''rm'', ''c''] (cmd_ln [''ln'', ''a'', ''c''] demo)))) = lookup (names demo_files)"
proof -
  have "case sys_link ''a'' ''c'' demo_files of Inl e \<Rightarrow> False | Inr g \<Rightarrow> True" by code_simp
  then obtain g where "sys_link ''a'' ''c'' (files demo) = Inr g" by (auto simp: demo_shell(2) split: sum.splits)
  with ln_then_rm [OF demo_shell(1), of "''a''" "''c''" g "''ln''" "''rm''"] show ?thesis
    by (auto simp: demo_shell(2))
qed

text \<open>
  \<^verbatim>\<open>mkdir\<close> and \<^verbatim>\<open>rmdir\<close> of the same path undo each other: a directory that
  \<^verbatim>\<open>mkdir\<close> made is found, empty, under its path with the permission bits 0755 less the umask,
  and \<^verbatim>\<open>rmdir\<close> of that path restores the names of before, without an error message.
\<close>

lemma mkdir_then_rmdir:
  assumes "fs_wf (files s)" and "sys_mkdir d 493 (files s) = Inr g"
  shows "\<exists>q. find False d (files (cmd_mkdir [c, d] s)) = Inr (q, next_ino (files s))
    \<and> kind_at (files (cmd_mkdir [c, d] s)) q = Some K_Dir \<and> children q (files (cmd_mkdir [c, d] s)) = []
    \<and> map_option i_mode (inode_at (files (cmd_mkdir [c, d] s)) q) = Some (masked 493 (files s))
    \<and> lookup (names (files (cmd_rmdir [c', d] (cmd_mkdir [c, d] s)))) = lookup (names (files s))
    \<and> serr (cmd_rmdir [c', d] (cmd_mkdir [c, d] s)) = serr s"
proof -
  let ?f = "files s"
  obtain q where q: "resolve False d ?f = Inr q" "lookup (names ?f) q = None"
    "g = new_inode q K_Dir (masked 493 ?f) ?f"
    using assms(2) by (auto simp: sys_mkdir_def split: sum.splits if_splits)
  have m: "files (cmd_mkdir [c, d] s) = g" "serr (cmd_mkdir [c, d] s) = serr s"
    using assms(2) by (simp_all add: cmd_mkdir_def call_def)
  have kq: "kind_at ?f q = None" using q(2) kind_at_None [OF assms(1)] by simp
  have fnd: "find False d g = Inr (q, next_ino ?f)"
    using find_new_inode [OF assms(1) q(1,2), of K_Dir] q(3) by (simp add: stops_at_def)
  have kind: "kind_at g q = Some K_Dir"
    using new_inode_kind [OF assms(1) q(2)] q(3) by simp
  have wf: "fs_wf g" using mkdir_wf [OF assms] .
  have q0: "q \<noteq> []" using kq fs_wf_root [OF assms(1)] by auto
  have look: "lookup (names g) = (lookup (names ?f))(q \<mapsto> next_ino ?f)"
    using q(2,3) by (simp add: new_inode_def lookup_bind)
  have "kind_at ?f q \<noteq> Some K_Dir" using kq by simp
  note leaf = leaf_not_dir [OF assms(1) this]
  have empty: "children q g = []"
    using leaf q0 children_member [OF wf, of q] by (auto simp: look) (metis append_butlast_last_id append_self_conv not_Cons_self2)
  have mode: "map_option i_mode (inode_at g q) = Some (masked 493 ?f)"
    using q(2,3) by (simp add: inode_at_def new_inode_def lookup_bind)
  have "last (components [] d) \<noteq> ''.''"
    using resolve_free_last [OF assms(1) q(1) kq] by (auto simp: ends_in_dots_def Let_def)
  then have "sys_rmdir d g = Inr (g\<lparr>names := unbind_name q (names g)\<rparr>)"
    using fnd kind q0 empty by (simp add: sys_rmdir_def)
  then have "files (cmd_rmdir [c', d] (cmd_mkdir [c, d] s)) = g\<lparr>names := unbind_name q (names g)\<rparr>"
    "serr (cmd_rmdir [c', d] (cmd_mkdir [c, d] s)) = serr s"
    using m by (simp_all add: cmd_rmdir_def call_def)
  with m fnd kind empty mode show ?thesis
    using q(2) by (auto simp: lookup_unbind look fun_upd_idem)
qed

lemma mkdir_then_rmdir_example:
  "lookup (names (files (cmd_rmdir [''rmdir'', ''d''] (cmd_mkdir [''mkdir'', ''d''] demo)))) = lookup (names demo_files)"
proof -
  have "case sys_mkdir ''d'' 493 demo_files of Inl e \<Rightarrow> False | Inr g \<Rightarrow> True" by code_simp
  then obtain g where "sys_mkdir ''d'' 493 (files demo) = Inr g" by (auto simp: demo_shell(2) split: sum.splits)
  from mkdir_then_rmdir [OF demo_shell(1) this, of "''mkdir''" "''rmdir''"] show ?thesis
    by (auto simp: demo_shell(2))
qed

subsection \<open>confirm\_action\<close>

text \<open>
  The question before an overwrite or a removal: on a line that is not empty
  the first character decides (\<^verbatim>\<open>y\<close> or \<^verbatim>\<open>Y\<close>) and exactly that line is consumed; on an
  empty line the answer is no, but the line after it is consumed too.
\<close>

lemma confirm_consumes:
  assumes "NL \<notin> set l" and "sin s = l @ NL # r"
  shows "confirm_action msg f s
    = (l \<noteq> [] \<and> (hd l = CHR ''y'' \<or> hd l = CHR ''Y''),
       (say (msg @ [SP, CHR 0x27] @ f @ [CHR 0x27] @ ''? (y/n): '') s)\<lparr>sin := if l = [] then skip_line r else r\<rparr>)"
proof (cases l)
  case Nil
  with assms show ?thesis by (simp add: confirm_action_def Let_def)
next
  case (Cons a k)
  then have "skip_line (k @ NL # r) = r" using assms(1) by (induction k arbitrary: l) (auto simp: skip_line_def)
  with Cons assms show ?thesis by (simp add: confirm_action_def Let_def)
qed

lemma confirm_consumes_example:
  "sin (snd (confirm_action ''remove'' ''a'' (demo\<lparr>sin := [NL, CHR ''l'', CHR ''s'', NL]\<rparr>))) = []"
  using confirm_consumes [of "[]" "demo\<lparr>sin := [NL, CHR ''l'', CHR ''s'', NL]\<rparr>" "[CHR ''l'', CHR ''s'', NL]" "''remove''" "''a''"]
  by (simp add: skip_line_def)


subsection \<open>cat and grep\<close>

text \<open>A text of lines that fit the array of 1024 bytes.\<close>

definition text_of :: "bytes list \<Rightarrow> bytes" where
  "text_of ls = concat (map (\<lambda>l. l @ [NL]) ls)"

definition line_ok :: "bytes \<Rightarrow> bool" where
  "line_ok l \<longleftrightarrow> NL \<notin> set l \<and> NUL \<notin> set l \<and> Suc (length l) < 1024"

lemma fgets_text:
  assumes "line_ok l"
  shows "fgets_chunk 1024 (text_of (l # ls)) = l @ [NL]" "fgets_rest 1024 (text_of (l # ls)) = text_of ls"
    "text_of (l # ls) \<noteq> []"
proof -
  show c: "fgets_chunk 1024 (text_of (l # ls)) = l @ [NL]"
    using fgets_chunk_line [of l 1024 "text_of ls"] assms by (simp add: text_of_def line_ok_def)
  then show "fgets_rest 1024 (text_of (l # ls)) = text_of ls"
    by (simp add: fgets_rest_def text_of_def)
  show "text_of (l # ls) \<noteq> []" by (simp add: text_of_def)
qed

lemma cstr_line: "line_ok l \<Longrightarrow> cstr (l @ [NL]) = l @ [NL]"
  by (intro cstr_no_nul) (simp add: line_ok_def)

lemma text_of_Nil [simp]: "text_of [] = []"
  by (simp add: text_of_def)

lemma cat_loop_numbers:
  "\<forall>l \<in> set ls. line_ok l \<Longrightarrow> cat_loop True k (text_of ls)
     = concat (map (\<lambda>(i, l). pad 6 (show_nat i) @ [SP, SP] @ l @ [NL]) (enumerate k ls))"
proof (induction ls arbitrary: k)
  case Nil
  then show ?case by (simp add: cat_loop.simps)
next
  case (Cons l ls)
  then have l: "line_ok l" by simp
  from Cons fgets_text [OF l, of ls] cstr_line [OF l] show ?case
    by (simp add: cat_loop.simps [of True k "text_of (l # ls)"])
qed

lemma cat_loop_plain: "NUL \<notin> set fp \<Longrightarrow> cat_loop False k fp = fp"
proof (induction False k fp rule: cat_loop.induct)
  case (1 k fp)
  have split: "fgets_chunk 1024 fp @ fgets_rest 1024 fp = fp" by simp
  then have "set (fgets_chunk 1024 fp) \<subseteq> set fp" "set (fgets_rest 1024 fp) \<subseteq> set fp"
    by (metis Un_upper1 set_append, metis Un_upper2 set_append)
  then have "cstr (fgets_chunk 1024 fp) = fgets_chunk 1024 fp" "NUL \<notin> set (fgets_rest 1024 fp)"
    using "1.prems" by (auto intro!: cstr_no_nul)
  with 1 split cat_loop.simps [of False k fp] show ?case by (cases "fp = []") simp_all
qed

text \<open>
  \<^verbatim>\<open>cat file\<close> prints the file whole, whatever the lengths of its lines, if
  it has no NUL byte; \<^verbatim>\<open>cat -n file\<close> prints each line after its number, right-aligned in six
  columns, counting from 1, if every line fits the array.
\<close>

lemma cat_prints:
  assumes "open_text file (files s) = Inr fp" and "file \<noteq> ''-n''"
  shows "(NUL \<notin> set fp \<longrightarrow> cmd_cat [c, file] s = say fp s)
    \<and> (\<forall>ls. fp = text_of ls \<longrightarrow> (\<forall>l \<in> set ls. line_ok l) \<longrightarrow>
         cmd_cat [c, ''-n'', file] s
           = say (concat (map (\<lambda>(i, l). pad 6 (show_nat i) @ [SP, SP] @ l @ [NL]) (enumerate 1 ls))) s)"
  using assms by (simp add: cmd_cat_def cat_loop_plain cat_loop_numbers)

lemma demo_text: "open_text ''a'' (files demo) = Inr (text_of [''x'', ''y''])"
  using demo_opens demo_shell(2) by (simp add: open_text_def text_of_def)

lemma cat_prints_example:
  "sout (cmd_cat [''cat'', ''-n'', ''a''] demo)
     = ''     1  x'' @ [NL] @ ''     2  y'' @ [NL]"
proof -
  have "\<forall>l \<in> set [''x'', ''y'']. line_ok l" by (simp add: line_ok_def)
  with cat_prints [OF demo_text, of "''cat''"] have "cmd_cat [''cat'', ''-n'', ''a''] demo
      = say (concat (map (\<lambda>(i, l). pad 6 (show_nat i) @ [SP, SP] @ l @ [NL]) (enumerate 1 [''x'', ''y'']))) demo"
    by blast
  moreover have "concat (map (\<lambda>(i, l). pad 6 (show_nat i) @ [SP, SP] @ l @ [NL]) (enumerate 1 [''x'', ''y'']))
      = ''     1  x'' @ [NL] @ ''     2  y'' @ [NL]" by code_simp
  ultimately show ?thesis by (simp add: demo_def)
qed

text \<open>A line that holds the pattern, with or without regard to case.\<close>

definition within :: "bytes \<Rightarrow> bytes \<Rightarrow> bool" where
  "within p l \<longleftrightarrow> (\<exists>u v. l = u @ p @ v)"

definition holds :: "bool \<Rightarrow> bytes \<Rightarrow> bytes \<Rightarrow> bool" where
  "holds i pattern l \<longleftrightarrow> (if i then within (map lower pattern) (map lower l) else within pattern l)"

lemma matches_holds: "matches i pattern l = holds i pattern l"
  using strstr_None [of l pattern] strstr_None [of "map lower l" "map lower pattern"]
  by (cases i) (simp_all only: matches_def holds_def within_def strcasestr_def if_True if_False simp_thms)

lemma lower_NL: "lower c = NL \<longleftrightarrow> c = NL"
proof -
  have "(of_char (lower c) :: nat) \<noteq> 10" if "65 \<le> (of_char c :: nat)" "(of_char c :: nat) \<le> 90"
    using that by (simp add: lower_def)
  moreover have "(of_char NL :: nat) = 10" by simp
  ultimately have "lower c \<noteq> NL" if "65 \<le> (of_char c :: nat)" "(of_char c :: nat) \<le> 90"
    using that by metis
  then show ?thesis by (auto simp: lower_def)
qed

lemma within_line_end:
  assumes "NL \<notin> set p"
  shows "within p (l @ [NL]) \<longleftrightarrow> within p l"
proof
  assume "within p (l @ [NL])"
  then obtain u v where uv: "l @ [NL] = u @ p @ v" by (auto simp: within_def)
  show "within p l"
  proof (cases v rule: rev_cases)
    case (snoc v' x)
    with uv have "l = u @ p @ v'" by simp
    then show ?thesis by (auto simp: within_def)
  next
    case Nil
    show ?thesis
    proof (cases p rule: rev_cases)
      case p: (snoc p' x)
      with Nil uv have "x = NL" by simp
      with assms p show ?thesis by simp
    next
      case empty: Nil
      have "l = [] @ p @ l" using empty by simp
      then show ?thesis unfolding within_def by blast
    qed
  qed
next
  assume "within p l"
  then obtain u v where "l = u @ p @ v" by (auto simp: within_def)
  then have "l @ [NL] = u @ p @ (v @ [NL])" by simp
  then show "within p (l @ [NL])" unfolding within_def by blast
qed

lemma matches_line:
  assumes "NL \<notin> set pattern"
  shows "matches i pattern (l @ [NL]) \<longleftrightarrow> holds i pattern l"
proof -
  have "NL \<notin> set (map lower pattern)"
  proof
    assume "NL \<in> set (map lower pattern)"
    then obtain c where "c \<in> set pattern" "lower c = NL" by auto
    with assms show False by (simp add: lower_NL)
  qed
  moreover have "lower NL = NL" by (simp add: lower_NL)
  ultimately show ?thesis
    unfolding matches_holds holds_def
    using within_line_end [OF assms, of l] within_line_end [of "map lower pattern" "map lower l"]
    by simp
qed

lemma grep_loop_lines:
  assumes "NL \<notin> set pattern"
  shows "\<forall>l \<in> set ls. line_ok l \<Longrightarrow> grep_loop n i pattern k (text_of ls)
    = concat (map (\<lambda>(j, l). (if n then show_nat j @ '': '' else []) @ l @ [NL])
        (filter (\<lambda>(j, l). holds i pattern l) (enumerate (Suc k) ls)))"
proof (induction ls arbitrary: k)
  case Nil
  then show ?case by (simp add: grep_loop.simps)
next
  case (Cons l ls)
  then have l: "line_ok l" by simp
  from Cons fgets_text [OF l, of ls] cstr_line [OF l] matches_line [OF assms, of i l] show ?case
    by (simp add: grep_loop.simps [of n i pattern k "text_of (l # ls)"] Let_def)
qed

text \<open>The words that are no options are the pattern and the file, wherever the options stand.\<close>

definition plain_words :: "bytes list \<Rightarrow> bytes list" where
  "plain_words args = filter (\<lambda>a. a \<noteq> ''-n'' \<and> a \<noteq> ''-i'') args"

lemma plain_words_simps [simp]:
  "plain_words [] = []"
  "plain_words (a # as) = (if a = ''-n'' \<or> a = ''-i'' then plain_words as else a # plain_words as)"
  by (simp_all add: plain_words_def)

lemma grep_args_both:
  "grep_args args (n, i, Some p, Some f) = (n \<or> ''-n'' \<in> set args, i \<or> ''-i'' \<in> set args, Some p, Some f)"
  by (induction args arbitrary: n i) auto

lemma grep_args_one:
  "plain_words args = f # ws \<Longrightarrow> grep_args args (n, i, Some p, None)
     = (n \<or> ''-n'' \<in> set args, i \<or> ''-i'' \<in> set args, Some p, Some f)"
  by (induction args arbitrary: n i) (auto simp: grep_args_both split: if_splits)

lemma grep_args_none:
  "plain_words args = p # f # ws \<Longrightarrow> grep_args args (n, i, None, None)
     = (n \<or> ''-n'' \<in> set args, i \<or> ''-i'' \<in> set args, Some p, Some f)"
  by (induction args arbitrary: n i) (auto simp: grep_args_one split: if_splits)

text \<open>
  Property C25.  \<^verbatim>\<open>grep\<close> with the options \<^verbatim>\<open>-n\<close> and \<^verbatim>\<open>-i\<close> anywhere among its words takes the
  first two other words as pattern and file and prints exactly the lines of the file that
  contain the pattern, in order, each once: after its number (counting from 1), a colon and a
  blank if \<^verbatim>\<open>-n\<close> is among the words, and without regard to case if \<^verbatim>\<open>-i\<close> is.  The lines of the
  file fit the array and the pattern has no newline.
\<close>

theorem grep_prints:
  assumes "filter (\<lambda>a. a \<noteq> ''-n'' \<and> a \<noteq> ''-i'') args = pattern # file # rest"
    and "open_text file (files s) = Inr (text_of ls)" and "\<forall>l \<in> set ls. line_ok l" and "NL \<notin> set pattern"
  shows "cmd_grep (c # args) s = say (concat (map (\<lambda>(j, l).
        (if ''-n'' \<in> set args then show_nat j @ '': '' else []) @ l @ [NL])
     (filter (\<lambda>(j, l). if ''-i'' \<in> set args then \<exists>u v. map lower l = u @ map lower pattern @ v
                       else \<exists>u v. l = u @ pattern @ v) (enumerate 1 ls)))) s"
proof -
  let ?n = "''-n'' \<in> set args" and ?i = "''-i'' \<in> set args"
  have "grep_args args (False, False, None, None) = (?n, ?i, Some pattern, Some file)"
    using grep_args_none [where n = False and i = False] assms(1) by (simp add: plain_words_def)
  moreover have "(\<lambda>(j, l). if ?i then \<exists>u v. map lower l = u @ map lower pattern @ v else \<exists>u v. l = u @ pattern @ v)
      = (\<lambda>(j :: nat, l). holds ?i pattern l)"
    by (rule ext) (simp add: holds_def within_def split: prod.splits)
  ultimately show ?thesis
    using assms(2) grep_loop_lines [OF assms(4,3), of ?n ?i 0] by (simp add: cmd_grep_def)
qed

theorem grep_prints_witness:
  "sout (cmd_grep [''grep'', ''Y'', ''-n'', ''a''] demo) = []
   \<and> sout (cmd_grep [''grep'', ''Y'', ''-i'', ''a''] demo) = ''y'' @ [NL]
   \<and> sout (cmd_grep [''grep'', ''Y'', ''-n'', ''a'', ''-i''] demo) = ''2: y'' @ [NL]"
proof -
  have ok: "\<forall>l \<in> set [''x'', ''y'']. line_ok l" by (simp add: line_ok_def)
  have h: "\<not> holds True ''Y'' ''x''" "holds True ''Y'' ''y''" "\<not> holds False ''Y'' ''x''" "\<not> holds False ''Y'' ''y''"
    unfolding matches_holds [symmetric] by (code_simp, code_simp, code_simp, code_simp)
  note h = h [unfolded holds_def within_def if_True if_False]
  have two: "show_nat (Suc (Suc 0)) = ''2''" by code_simp
  have s: "sout demo = []" by (simp add: demo_def)
  show ?thesis
    using grep_prints [OF _ demo_text ok, of "[''Y'', ''-n'', ''a'']" "''Y''" "[]" "''grep''"]
      grep_prints [OF _ demo_text ok, of "[''Y'', ''-i'', ''a'']" "''Y''" "[]" "''grep''"]
      grep_prints [OF _ demo_text ok, of "[''Y'', ''-n'', ''a'', ''-i'']" "''Y''" "[]" "''grep''"] h two s
    by simp
qed


subsection \<open>ls\<close>

lemma ls_loop_short:
  "ls_loop w a False path es f = Inr (concat (map (\<lambda>e. e @ [SP, SP]) (filter (\<lambda>e. a \<or> \<not> starts ''.'' e) es)))"
  by (induction es) auto

lemma readdir_here:
  assumes "fs_wf f" "kind_at f (cwd f) = Some K_Dir"
  shows "sys_readdir ''.'' f = Inr (''.'' # ''..'' # children (cwd f) f)"
proof -
  obtain n where "lookup (names f) (cwd f) = Some n" using kind_at_lookup [OF assms(2)] by auto
  then show ?thesis
    using assms(2) by (simp add: sys_readdir_def find_def resolve_def walk.simps(2))
qed

text \<open>
  \<^verbatim>\<open>ls\<close> without arguments prints, each once and followed by two blanks, the
  names that stand in the working directory and do not begin with a dot, then a newline;
  with \<^verbatim>\<open>-a\<close> it prints all of them, \<^verbatim>\<open>.\<close> and \<^verbatim>\<open>..\<close> first; it changes nothing else.
\<close>

lemma ls_lists:
  assumes "fs_wf (files s)" and "kind_at (files s) (cwd (files s)) = Some K_Dir"
  shows "cmd_ls w [c] s = Inr (say (concat (map (\<lambda>e. e @ [SP, SP])
       (filter (\<lambda>e. \<not> starts ''.'' e) (children (cwd (files s)) (files s)))) @ [NL]) s)
    \<and> cmd_ls w [c, ''-a''] s = Inr (say (concat (map (\<lambda>e. e @ [SP, SP])
       (''.'' # ''..'' # children (cwd (files s)) (files s))) @ [NL]) s)
    \<and> set (children (cwd (files s)) (files s))
       = {e. lookup (names (files s)) (cwd (files s) @ [e]) \<noteq> None}
    \<and> distinct (children (cwd (files s)) (files s))"
  using readdir_here [OF assms] children_set [OF assms(1)] children_distinct [OF assms(1)]
  by (simp add: cmd_ls_def ls_loop_short)

lemma ls_lists_example:
  "sout (case cmd_ls no_world [''ls''] demo of Inr t \<Rightarrow> t | Inl e \<Rightarrow> demo) = ''a  b  '' @ [NL]"
proof -
  have "kind_at (files demo) (cwd (files demo)) = Some K_Dir" "children (cwd (files demo)) (files demo) = [''a'', ''b'']"
    by code_simp+
  with ls_lists [OF demo_shell(1), of no_world "''ls''"] show ?thesis
    by (simp add: demo_def)
qed

end
