(* ===== verification/Shell.thy ===== *)
theory Shell
  imports Command_Laws Arg_Split Transition
begin

section \<open>The shell's main loop\<close>

text \<open>
  \<^verbatim>\<open>project1/myshell.c\<close>: reading a line, background and pipe marks, splitting it into
  words, redirections, the dispatch to the built-in commands of \<open>Commands\<close> and the start of
  other programs.  The kernel and the programs it runs are the record \<open>kernel\<close>, a parameter:
  whether \<^verbatim>\<open>pipe\<close> and \<^verbatim>\<open>fork\<close> succeed, the process numbers, and what a program (or the two
  of a pipeline) does to the shell's files, terminal and output; \<open>None\<close> from \<open>prog\<close> means that
  \<^verbatim>\<open>execvp\<close> failed.  \<^verbatim>\<open>readline\<close> and \<^verbatim>\<open>getchar\<close> take their characters from the same
  terminal, \<open>sin\<close>; \<^verbatim>\<open>readline\<close> returns NULL when it is at its end.
\<close>

record kernel =
  pipe_ok :: bool
  fork_ok :: bool
  pid_of :: "shell \<Rightarrow> nat"
  prog :: "bytes list \<Rightarrow> nat option \<Rightarrow> nat option \<Rightarrow> shell \<Rightarrow> shell option"
  pipeline :: "bytes list cres \<Rightarrow> bytes list cres \<Rightarrow> shell \<Rightarrow> shell"

definition MAX_ARG_LEN :: nat where "MAX_ARG_LEN = 64"

definition txt_bye :: bytes where
  "txt_bye = map char_of [77, 121, 83, 104, 101, 108, 108, 236, 157, 132, 32, 236, 162, 133, 235, 163, 140, 237,
     149, 169, 235, 139, 136, 235, 139, 164, 46, 10 :: nat]"

definition txt_quit :: bytes where
  "txt_quit = map char_of [10, 236, 162, 133, 235, 163, 140, 237, 149, 152, 235, 160, 164, 235, 169, 180, 32, 101,
     120, 105, 116, 235, 165, 188, 32, 236, 158, 133, 235, 160, 165, 237, 149, 152, 236, 132,
     184, 236, 154, 148, 46, 10, 77, 121, 83, 104, 101, 108, 108, 62, 32 :: nat]"

text \<open>The handler of SIGINT (2) and SIGQUIT (3).\<close>

definition signal_handler :: "int \<Rightarrow> shell \<Rightarrow> shell" where
  "signal_handler signo s =
     (if signo = 2 then say ([NL] @ ''MyShell> '') s
      else if signo = 3 then say txt_quit s
      else s)"

subsection \<open>Background mark, words, redirections\<close>

text \<open>A trailing \<^verbatim>\<open>&\<close> is cut off with the blanks before it.\<close>

definition cut_background :: "bytes \<Rightarrow> bool \<times> bytes" where
  "cut_background input =
     (if last input = CHR ''&''
      then (True, rev (dropWhile (\<lambda>c. c = SP) (rev (butlast input))))
      else (False, input))"

text \<open>The words that \<^verbatim>\<open>parse_args\<close> leaves behind its pointers.\<close>

definition words_of :: "bytes \<Rightarrow> bytes list cres" where
  "words_of line = cbind (parse_args MAX_ARG_LEN (line @ [NUL])) (\<lambda>(buf, ptrs). Inr (map (cstr_at buf) ptrs))"

text \<open>Reading \<^verbatim>\<open>temp_args[i]\<close>: a word, the null pointer after the words, or what no one has
  written.\<close>

definition temp_arg :: "bytes list \<Rightarrow> nat \<Rightarrow> bytes option cres" where
  "temp_arg ws i =
     (if i < length ws then Inr (Some (ws ! i))
      else if i = length ws then Inr None
      else if i < MAX_ARG_LEN then Inl Uninitialised
      else Inl Out_Of_Bounds)"

text \<open>The loop over the words: an operator takes the word after it, if there is one, and the
  index then passes that entry, even when it is the null pointer.\<close>

function redir_loop :: "bytes list \<Rightarrow> nat \<Rightarrow> bytes option \<Rightarrow> bytes option \<Rightarrow> bytes list
    \<Rightarrow> (bytes option \<times> bytes option \<times> bytes list) cres" where
  "redir_loop ws i infile outfile args =
     (case temp_arg ws i of
        Inl e \<Rightarrow> Inl e
      | Inr None \<Rightarrow> Inr (infile, outfile, args)
      | Inr (Some w) \<Rightarrow>
          if w = ''<'' then
            (case temp_arg ws (i + 1) of
               Inl e \<Rightarrow> Inl e
             | Inr x \<Rightarrow> redir_loop ws (i + 2) (if x = None then infile else x) outfile args)
          else if w = ''>'' then
            (case temp_arg ws (i + 1) of
               Inl e \<Rightarrow> Inl e
             | Inr x \<Rightarrow> redir_loop ws (i + 2) infile (if x = None then outfile else x) args)
          else redir_loop ws (i + 1) infile outfile (args @ [w]))"
  by pat_completeness auto
termination
  by (relation "measure (\<lambda>(ws, i, a, b, c). length ws + 2 - i)")
     (auto simp: temp_arg_def split: if_splits)

declare redir_loop.simps [simp del]

subsection \<open>Other programs\<close>

text \<open>The child's redirections: a file that cannot be opened leaves the terminal in place.\<close>

definition child_in :: "bytes option \<Rightarrow> fs \<Rightarrow> nat option" where
  "child_in infile f = (case infile of None \<Rightarrow> None
     | Some p \<Rightarrow> (case sys_open_read p f of Inl e \<Rightarrow> None | Inr n \<Rightarrow> Some n))"

definition child_out :: "bytes option \<Rightarrow> fs \<Rightarrow> nat option \<times> fs" where
  "child_out outfile f = (case outfile of None \<Rightarrow> (None, f)
     | Some p \<Rightarrow> (case sys_open_write p 420 f of Inl e \<Rightarrow> (None, f) | Inr (n, g) \<Rightarrow> (Some n, g)))"

definition run_external :: "kernel \<Rightarrow> bool \<Rightarrow> bytes option \<Rightarrow> bytes option \<Rightarrow> bytes list \<Rightarrow> shell \<Rightarrow> shell" where
  "run_external k is_bg infile outfile args s =
     (if \<not> fork_ok k then perror ''fork failed'' EAGAIN s
      else
        let inp = child_in infile (files s);
            (outp, f) = child_out outfile (files s);
            child = s\<lparr>files := f\<rparr>;
            t = (case prog k args inp outp child of
                   Some t \<Rightarrow> t
                 | None \<Rightarrow> perror ''Command execution failed'' ENOENT child)
        in if is_bg then say (''[Background PID: '' @ show_nat (pid_of k s) @ '']'' @ [NL]) t else t)"

text \<open>One side of a pipe, in its child: an empty one passes a null pointer to \<^verbatim>\<open>execvp\<close>.\<close>

definition pipe_side :: "bytes \<Rightarrow> bytes list cres" where
  "pipe_side line = cbind (words_of line) (\<lambda>ws. if ws = [] then Inl Null_Pointer else Inr ws)"

definition run_pipe :: "kernel \<Rightarrow> bytes \<Rightarrow> bytes \<Rightarrow> shell \<Rightarrow> shell" where
  "run_pipe k cmd1 cmd2 s =
     (if \<not> pipe_ok k then perror ''pipe error'' EMFILE s
      else if \<not> fork_ok k then s
      else pipeline k (pipe_side cmd1) (pipe_side cmd2) s)"

subsection \<open>The loop\<close>

text \<open>The chain of \<^verbatim>\<open>strcmp\<close> tests; the built-in commands do not look at the redirections.\<close>

definition dispatch :: "kernel \<Rightarrow> world \<Rightarrow> bool \<Rightarrow> bytes option \<Rightarrow> bytes option \<Rightarrow> bytes list \<Rightarrow> shell \<Rightarrow> shell cres" where
  "dispatch k w is_bg infile outfile args s =
     (let c = hd args in
      if c = ''cd'' then Inr (cmd_cd w args s)
      else if c = ''ls'' then cmd_ls w args s
      else if c = ''pwd'' then Inr (cmd_pwd args s)
      else if c = ''mkdir'' then Inr (cmd_mkdir args s)
      else if c = ''rmdir'' then Inr (cmd_rmdir args s)
      else if c = ''ln'' then Inr (cmd_ln args s)
      else if c = ''cp'' then Inr (cmd_cp args s)
      else if c = ''rm'' then Inr (cmd_rm args s)
      else if c = ''mv'' then Inr (cmd_mv args s)
      else if c = ''cat'' then Inr (cmd_cat args s)
      else if c = ''grep'' then Inr (cmd_grep args s)
      else Inr (run_external k is_bg infile outfile args s))"

definition run_line :: "kernel \<Rightarrow> world \<Rightarrow> bytes \<Rightarrow> shell \<Rightarrow> shell cres" where
  "run_line k w input s =
     (let (is_bg, line) = cut_background input in
      case strchr line (CHR ''|'') of
        Some i \<Rightarrow> Inr (run_pipe k (take i line) (drop (Suc i) line) s)
      | None \<Rightarrow>
          cbind (words_of line) (\<lambda>temp_args.
          cbind (redir_loop temp_args 0 None None []) (\<lambda>(infile, outfile, args).
          if args = [] then Inr s else dispatch k w is_bg infile outfile args s)))"

text \<open>One turn of \<^verbatim>\<open>while (1)\<close>: whether it goes on, and the state.\<close>

definition shell_turn :: "kernel \<Rightarrow> world \<Rightarrow> shell \<Rightarrow> (bool \<times> shell) cres" where
  "shell_turn k w s =
     (let s = say ([NL] @ ''MyShell> '') s in
      if sin s = [] then Inr (False, s)
      else
        let input = cstr (takeWhile (\<lambda>c. c \<noteq> NL) (sin s)); s = s\<lparr>sin := skip_line (sin s)\<rparr> in
        if input = [] then Inr (True, s)
        else if input = ''exit'' then Inr (False, say txt_bye s)
        else cbind (run_line k w input s) (\<lambda>t. Inr (True, t)))"

fun shell_loop :: "kernel \<Rightarrow> world \<Rightarrow> nat \<Rightarrow> shell \<Rightarrow> (bool \<times> shell) cres" where
  "shell_loop k w 0 s = Inr (True, s)"
| "shell_loop k w (Suc n) s =
     cbind (shell_turn k w s) (\<lambda>(go, t). if go then shell_loop k w n t else Inr (False, t))"


subsection \<open>Redirections\<close>

text \<open>The specification: an operator takes the word after it; \<open>None\<close> if there is none.\<close>

fun redirs :: "bytes list \<Rightarrow> bytes option \<times> bytes option \<times> bytes list
    \<Rightarrow> (bytes option \<times> bytes option \<times> bytes list) option" where
  "redirs [] r = Some r"
| "redirs [w] (i, out, args) = (if w = ''<'' \<or> w = ''>'' then None else Some (i, out, args @ [w]))"
| "redirs (w # x # ws) (i, out, args) =
     (if w = ''<'' then redirs ws (Some x, out, args)
      else if w = ''>'' then redirs ws (i, Some x, args)
      else redirs (x # ws) (i, out, args @ [w]))"

lemma temp_arg_append [simp]:
  "temp_arg (pre @ w # ws) (length pre) = Inr (Some w)"
  "temp_arg (pre @ [w]) (Suc (length pre)) = Inr None"
  "temp_arg (pre @ w # x # ws) (Suc (length pre)) = Inr (Some x)"
  "temp_arg pre (length pre) = Inr None"
  by (simp_all add: temp_arg_def nth_append)

lemma redir_loop_eq:
  "redir_loop (pre @ ws) (length pre) i out args
     = (case redirs ws (i, out, args) of
          Some r \<Rightarrow> Inr r
        | None \<Rightarrow> Inl (if length (pre @ ws) + 1 < MAX_ARG_LEN then Uninitialised else Out_Of_Bounds))"
proof (induction ws "(i, out, args)" arbitrary: pre i out args rule: redirs.induct)
  case 1
  then show ?case by (simp add: redir_loop.simps)
next
  case (2 w i out args)
  have step: "redir_loop (pre @ [w]) (Suc (length pre)) i out (args @ [w]) = Inr (i, out, args @ [w])"
    by (subst redir_loop.simps) (simp add: temp_arg_def)
  have past: "redir_loop (pre @ [v]) (Suc (Suc (length pre))) i out args
      = Inl (if length (pre @ [v]) + 1 < MAX_ARG_LEN then Uninitialised else Out_Of_Bounds)" for v i out args
    by (subst redir_loop.simps) (simp add: temp_arg_def)
  show ?case
    by (subst redir_loop.simps) (simp add: step past)
next
  case (3 w x ws i out args)
  note a = "3"(1) [of "pre @ [w, x]"] "3"(2) [of "pre @ [w, x]"] "3"(3) [of "pre @ [w]"]
  show ?case
    by (subst redir_loop.simps) (use a in simp)
qed

text \<open>
  Property C15.  Redirections: from fewer words than the array has entries the loop collects
  exactly what the specification says (each \<^verbatim>\<open><\<close> or \<^verbatim>\<open>>\<close> takes the next word, the last of a
  kind wins, the other words are the arguments in order); if the line ends in an operator it
  steps over the null pointer and reads an entry of \<^verbatim>\<open>temp_args\<close> that was never written, or
  the one past the array.
\<close>

theorem redirections_refine:
  "redir_loop ws 0 None None []
     = (case redirs ws (None, None, []) of
          Some r \<Rightarrow> Inr r
        | None \<Rightarrow> Inl (if length ws + 1 < MAX_ARG_LEN then Uninitialised else Out_Of_Bounds))"
  using redir_loop_eq [of "[]" ws] by simp

subsection \<open>A plain command line\<close>

lemma words_of_eq:
  assumes "NUL \<notin> set line" "length (blank_words line) < MAX_ARG_LEN"
  shows "words_of line = Inr (blank_words line)"
  using parse_args_loop_eq [OF assms(1), of MAX_ARG_LEN "[]" "[]" False "[]"] assms(2)
    arg_words [OF assms(1) cut_ok_passes(1), of "[]"]
  by (simp add: words_of_def parse_args_def length_word_offsets)

lemma redirs_plain:
  "''<'' \<notin> set ws \<Longrightarrow> ''>'' \<notin> set ws \<Longrightarrow> redirs ws (i, out, args) = Some (i, out, args @ ws)"
proof (induction ws "(i, out, args)" arbitrary: i out args rule: redirs.induct)
  case (3 w x ws i out args)
  have w: "w \<noteq> ''<''" "w \<noteq> ''>''" using "3.prems" by auto
  with "3"(3) "3.prems" show ?case by simp
qed auto

lemma skip_line_shorter: "length (skip_line r) \<le> length r"
  using length_dropWhile_le [of "\<lambda>c. c \<noteq> NL" r] by (simp add: skip_line_def)

lemma skip_line_less: "r \<noteq> [] \<Longrightarrow> length (skip_line r) < length r"
  using length_dropWhile_le [of "\<lambda>c. c \<noteq> NL" r]
  by (cases r) (auto simp: skip_line_def)

lemma skip_line_eq: "NL \<notin> set l \<Longrightarrow> skip_line (l @ NL # r) = r"
  by (induction l) (auto simp: skip_line_def)

text \<open>A line without pipe, trailing \<^verbatim>\<open>&\<close> or redirection and of fewer than 64 words runs the command
  named by its first word on exactly its blank-separated words.\<close>

lemma plain_turn:
  assumes "sin s = line @ NL # r" and "NL \<notin> set line" and "NUL \<notin> set line" and "CHR ''|'' \<notin> set line"
    and "last line \<noteq> CHR ''&''" and "line \<noteq> ''exit''" and "blank_words line \<noteq> []"
    and "length (blank_words line) < MAX_ARG_LEN"
    and "''<'' \<notin> set (blank_words line)" and "''>'' \<notin> set (blank_words line)"
  shows "shell_turn k w s = cbind (dispatch k w False None None (blank_words line)
      ((say ([NL] @ ''MyShell> '') s)\<lparr>sin := r\<rparr>)) (\<lambda>t. Inr (True, t))"
proof -
  have "line \<noteq> []" using assms(7) by auto
  moreover have "strchr line (CHR ''|'') = None" using assms(4) by (simp add: strchr_None)
  moreover have "redir_loop (blank_words line) 0 None None [] = Inr (None, None, blank_words line)"
    using redir_loop_eq [of "[]" "blank_words line" None None "[]"] redirs_plain [OF assms(9,10)] by simp
  ultimately show ?thesis
    using assms words_of_eq [OF assms(3,8)]
    by (simp add: shell_turn_def run_line_def cut_background_def Let_def takeWhile_line skip_line_eq cstr_no_nul)
qed

text \<open>A kernel that starts nothing, for examples.\<close>

definition idle_kernel :: kernel where
  "idle_kernel = \<lparr>pipe_ok = True, fork_ok = True, pid_of = (\<lambda>s. 1), prog = (\<lambda>args i out s. None),
     pipeline = (\<lambda>a b s. s)\<rparr>"

subsection \<open>Sessions\<close>

text \<open>What is asked of the programs the shell runs: they use the file system through its
  calls, and do not type.\<close>

definition kernel_keeps :: "kernel \<Rightarrow> bool" where
  "kernel_keeps k \<longleftrightarrow>
     (\<forall>args i out s t. prog k args i out s = Some t \<longrightarrow> fs_wf (files s) \<longrightarrow> fs_wf (files t)) \<and>
     (\<forall>a b s. fs_wf (files s) \<longrightarrow> fs_wf (files (pipeline k a b s)))"

definition kernel_quiet :: "kernel \<Rightarrow> bool" where
  "kernel_quiet k \<longleftrightarrow>
     (\<forall>args i out s t. prog k args i out s = Some t \<longrightarrow> length (sin t) \<le> length (sin s)) \<and>
     (\<forall>a b s. length (sin (pipeline k a b s)) \<le> length (sin s))"

lemma run_external_wf:
  assumes "kernel_keeps k" "fs_wf (files s)"
  shows "fs_wf (files (run_external k bg infile outfile args s))"
proof -
  obtain outp f where f: "child_out outfile (files s) = (outp, f)" by (cases "child_out outfile (files s)")
  have "fs_wf f"
    using f assms(2) open_write_wf [of "files s"] by (auto simp: child_out_def split: option.splits sum.splits)
  with f assms show ?thesis
    by (auto simp: run_external_def Let_def kernel_keeps_def split: option.split)
qed

text \<open>What the dispatch can do: run a built-in command, or another program.\<close>

lemma dispatch_cases:
  assumes "dispatch k w bg infile outfile args s = Inr t"
    and "P (run_external k bg infile outfile args s)" "\<And>u. cmd_ls w args s = Inr u \<Longrightarrow> P u"
    and "P (cmd_cd w args s)" "P (cmd_pwd args s)" "P (cmd_mkdir args s)" "P (cmd_rmdir args s)"
      "P (cmd_ln args s)" "P (cmd_cp args s)" "P (cmd_rm args s)" "P (cmd_mv args s)"
      "P (cmd_cat args s)" "P (cmd_grep args s)"
  shows "P t"
  using assms unfolding dispatch_def Let_def by (simp split: if_split_asm)

lemma dispatch_wf:
  assumes "kernel_keeps k" "fs_wf (files s)" "dispatch k w bg infile outfile args s = Inr t"
  shows "fs_wf (files t)"
  by (rule dispatch_cases [OF assms(3)])
    (simp_all add: run_external_wf assms(1,2) cmd_cp_wf cmd_mv_wf cmd_rm_wf cmd_calls_wf cmd_reads_wf)

text \<open>A line runs a pipe, nothing, or the dispatch.\<close>

lemma run_line_cases:
  assumes "run_line k w input s = Inr t"
  obtains a b where "t = run_pipe k a b s" | "t = s"
  | bg infile outfile args where "dispatch k w bg infile outfile args s = Inr t"
proof -
  obtain bg line where c: "cut_background input = (bg, line)" by (cases "cut_background input")
  show ?thesis
  proof (cases "strchr line (CHR ''|'')")
    case (Some i)
    with assms c have "t = run_pipe k (take i line) (drop (Suc i) line) s" by (simp add: run_line_def)
    then show ?thesis by (rule that(1))
  next
    case None
    with assms c have "cbind (words_of line) (\<lambda>ws. cbind (redir_loop ws 0 None None []) (\<lambda>(infile, outfile, args).
        if args = [] then Inr s else dispatch k w bg infile outfile args s)) = Inr t"
      by (simp add: run_line_def del: cbind_eq_Inr)
    then obtain r where "(\<lambda>(infile, outfile, args).
        if args = [] then Inr s else dispatch k w bg infile outfile args s) r = Inr t"
      unfolding cbind_eq_Inr by blast
    moreover obtain infile outfile args where "r = (infile, outfile, args)" by (cases r)
    ultimately have "args = [] \<and> t = s \<or> dispatch k w bg infile outfile args s = Inr t"
      by (simp split: if_split_asm)
    then show ?thesis using that(2,3) by blast
  qed
qed

lemma run_pipe_wf: "kernel_keeps k \<Longrightarrow> fs_wf (files s) \<Longrightarrow> fs_wf (files (run_pipe k a b s))"
  by (simp add: run_pipe_def kernel_keeps_def)

lemma run_line_wf:
  assumes "kernel_keeps k" "fs_wf (files s)" "run_line k w input s = Inr t"
  shows "fs_wf (files t)"
  using assms(3)
proof (cases rule: run_line_cases)
  case (1 a b)
  with run_pipe_wf [OF assms(1,2)] show ?thesis by simp
next
  case 2
  with assms(2) show ?thesis by simp
next
  case (3 bg infile outfile args)
  show ?thesis by (rule dispatch_wf [OF assms(1,2) 3])
qed

definition shell_step :: "kernel \<Rightarrow> world \<Rightarrow> shell \<Rightarrow> shell \<Rightarrow> bool" where
  "shell_step k w s t \<longleftrightarrow> (\<exists>go. shell_turn k w s = Inr (go, t))"

text \<open>A turn ends the loop, skips an empty line, or runs a line.\<close>

lemma shell_turn_cases:
  assumes "shell_turn k w s = Inr (go, t)"
  obtains "\<not> go" "files t = files s"
  | "files t = files s" "length (sin t) < length (sin s)"
  | u line where "run_line k w line u = Inr t" "files u = files s" "length (sin u) < length (sin s)"
proof -
  let ?input = "cstr (takeWhile (\<lambda>c. c \<noteq> NL) (sin s))"
  let ?u = "(say ([NL] @ ''MyShell> '') s)\<lparr>sin := skip_line (sin s)\<rparr>"
  have u: "files ?u = files s" "sin s \<noteq> [] \<Longrightarrow> length (sin ?u) < length (sin s)"
    by (simp_all add: skip_line_less)
  consider "sin s = []" | "sin s \<noteq> []" "?input = []" | "sin s \<noteq> []" "?input = ''exit''"
    | "sin s \<noteq> []" "?input \<noteq> []" "?input \<noteq> ''exit''" by blast
  then show ?thesis
  proof cases
    case 1
    then have "shell_turn k w s = Inr (False, say ([NL] @ ''MyShell> '') s)"
      by (simp add: shell_turn_def Let_def)
    with assms show ?thesis by (intro that(1)) auto
  next
    case 2
    then have "shell_turn k w s = Inr (True, ?u)" by (simp add: shell_turn_def Let_def)
    with assms u 2(1) show ?thesis by (intro that(2)) auto
  next
    case 3
    then have "shell_turn k w s = Inr (False, say txt_bye ?u)" by (simp add: shell_turn_def Let_def)
    with assms show ?thesis by (intro that(1)) auto
  next
    case 4
    then have "shell_turn k w s = cbind (run_line k w ?input ?u) (\<lambda>t. Inr (True, t))"
      by (simp add: shell_turn_def Let_def del: cbind_eq_Inr)
    with assms have "run_line k w ?input ?u = Inr t" by auto
    then show ?thesis using u 4(1) by (intro that(3))
  qed
qed

lemma turn_wf:
  assumes "kernel_keeps k" "fs_wf (files s)" "shell_step k w s t"
  shows "fs_wf (files t)"
proof -
  obtain go where "shell_turn k w s = Inr (go, t)" using assms(3) by (auto simp: shell_step_def)
  then show ?thesis
  proof (cases rule: shell_turn_cases)
    case (3 u line)
    with run_line_wf [OF assms(1) _ 3(1)] assms(2) show ?thesis by simp
  qed (use assms(2) in simp_all)
qed

interpretation session: inductive_invariant "\<lambda>s. fs_wf (files s) \<and> kernel_keeps k" "shell_step k w"
    "\<lambda>s. fs_wf (files s) \<and> kernel_keeps k"
  for k :: kernel and w :: world
  by unfold_locales (auto intro: turn_wf)

lemma loop_steps: "shell_loop k w n s = Inr (go, t) \<Longrightarrow> (shell_step k w)\<^sup>*\<^sup>* s t"
proof (induction n arbitrary: s)
  case (Suc n)
  then obtain b u where u: "shell_turn k w s = Inr (b, u)" "(if b then shell_loop k w n u else Inr (False, u)) = Inr (go, t)"
    by auto
  then have "shell_step k w s u" by (auto simp: shell_step_def)
  moreover have "(shell_step k w)\<^sup>*\<^sup>* u t" using u(2) Suc.IH by (auto split: if_splits)
  ultimately show ?case by (rule converse_rtranclp_into_rtranclp)
qed simp

text \<open>
  Sessions: whatever is typed at the prompt, and for however many turns, the
  file system stays well formed (names bound once, to existing inodes, in directories; a
  directory under one name only), if the programs that the shell starts keep it so.
\<close>

lemma shell_keeps_files_wf:
  assumes "kernel_keeps k" and "fs_wf (files s)" and "shell_loop k w n s = Inr (go, t)"
  shows "fs_wf (files t)"
  using session.steps_inv [OF loop_steps [OF assms(3)]] assms(1,2) by blast


lemma idle_kernel_ok: "kernel_keeps idle_kernel" "kernel_quiet idle_kernel"
  by (simp_all add: idle_kernel_def kernel_keeps_def kernel_quiet_def)

definition typed :: shell where
  "typed = demo\<lparr>sin := ''mkdir d'' @ [NL] @ ''mv a d/a'' @ [NL] @ ''rm -i b'' @ [NL] @ ''y'' @ [NL] @ ''exit'' @ [NL]\<rparr>"

definition typed_end :: shell where
  "typed_end = (case shell_loop idle_kernel no_world 9 typed of Inr (go, t) \<Rightarrow> t | Inl e \<Rightarrow> demo)"

lemma typed_run:
  "case shell_loop idle_kernel no_world 9 typed of
     Inr (go, t) \<Rightarrow> \<not> go \<and> map fst (names (files t)) = [[], [''home''], [''home'', ''d'', ''a''], [''home'', ''d'']]
   | Inl e \<Rightarrow> False"
  by code_simp

lemma shell_keeps_files_wf_example: "fs_wf (files typed_end)"
proof -
  obtain go where "shell_loop idle_kernel no_world 9 typed = Inr (go, typed_end)"
    using typed_run by (auto simp: typed_end_def split: sum.splits)
  moreover have "fs_wf (files typed)" by (simp add: typed_def demo_def demo_wf)
  ultimately show ?thesis using shell_keeps_files_wf [OF idle_kernel_ok(1)] by blast
qed

subsection \<open>What is typed is done\<close>

text \<open>A system call that failed is reported; one that succeeded leaves its file system, and
  what the command says of it.\<close>

definition outcome :: "bytes \<Rightarrow> bytes \<Rightarrow> errno + fs \<Rightarrow> shell \<Rightarrow> shell" where
  "outcome msg text r u = (case r of
      Inl e \<Rightarrow> u\<lparr>serr := serr u @ [(msg, e)]\<rparr>
    | Inr f \<Rightarrow> u\<lparr>files := f, sout := sout u @ text\<rparr>)"

text \<open>A question about a file, and the answer taken from the terminal's input \<open>r\<close>: its first byte,
  and what follows up to the next newline (of the line after, if the answer is empty).\<close>

definition question :: "bytes \<Rightarrow> bytes \<Rightarrow> bytes \<Rightarrow> shell \<Rightarrow> shell" where
  "question verb x r u = u\<lparr>sout := sout u @ verb @ [SP, CHR 0x27] @ x @ [CHR 0x27] @ ''? (y/n): '',
     sin := tl (dropWhile (\<lambda>c. c \<noteq> NL) (drop 1 r))\<rparr>"

definition yes :: "bytes \<Rightarrow> bool" where
  "yes r \<longleftrightarrow> r \<noteq> [] \<and> (hd r = CHR ''y'' \<or> hd r = CHR ''Y'')"

lemma call_outcome: "call r msg text u = outcome msg text r u"
  by (simp add: call_def outcome_def perror_def say_def split: sum.split)

lemma confirm_question: "confirm_action verb x u = (yes (sin u), question verb x (sin u) u)"
  by (cases "sin u") (simp_all add: confirm_action_def question_def yes_def say_def skip_line_def Let_def)

lemma question_files [simp]: "files (question verb x r u) = files u"
  by (simp add: question_def)

text \<open>
  Property C14.  The shell does what is typed: a line without pipe, \<^verbatim>\<open>&\<close> at its end or
  redirection and of fewer than 64 words, typed at the prompt, makes the system call its first
  word stands for on the words behind it, with the failure reported and nothing else changed:
  \<^verbatim>\<open>cd\<close> (to \<^verbatim>\<open>HOME\<close> without an argument), \<^verbatim>\<open>mkdir\<close>, \<^verbatim>\<open>rmdir\<close>, \<^verbatim>\<open>ln\<close> with and without
  \<^verbatim>\<open>-s\<close>, \<^verbatim>\<open>rm\<close> and \<^verbatim>\<open>mv\<close>; \<^verbatim>\<open>rm -i\<close> asks first and \<^verbatim>\<open>mv -i\<close> asks first if the
  destination exists, and they act only on an answer that begins with y or Y, which is
  taken from the input together with the rest of its line.  Any other first word but those of the commands that only read or copy
  files starts the program of that name with the words as its arguments.  The shell then
  prompts again.
\<close>

theorem typed_line_done:
  assumes "sin s = line @ NL # r" and "NL \<notin> set line" and "NUL \<notin> set line" and "CHR ''|'' \<notin> set line"
    and "last line \<noteq> CHR ''&''" and "line \<noteq> ''exit''" and ws: "blank_words line = ws" and "ws \<noteq> []"
    and "length ws < 64" and "''<'' \<notin> set ws" and "''>'' \<notin> set ws"
    and u: "u = s\<lparr>sout := sout s @ [NL] @ ''MyShell> '', sin := r\<rparr>"
  shows "(ws = [''cd''] \<longrightarrow> shell_turn k w s = Inr (True, outcome ''cd error'' [] (sys_chdir (home w) (files s)) u))
    \<and> (ws = [''cd'', x] \<longrightarrow> shell_turn k w s = Inr (True, outcome ''cd error'' [] (sys_chdir (Some x) (files s)) u))
    \<and> (ws = [''mkdir'', x] \<longrightarrow> shell_turn k w s = Inr (True, outcome ''mkdir failed'' [] (sys_mkdir x 493 (files s)) u))
    \<and> (ws = [''rmdir'', x] \<longrightarrow> shell_turn k w s = Inr (True, outcome ''rmdir failed'' [] (sys_rmdir x (files s)) u))
    \<and> (ws = [''ln'', x, y] \<and> x \<noteq> ''-s'' \<and> y \<noteq> ''-s'' \<longrightarrow> shell_turn k w s = Inr (True,
        outcome ''link failed'' (''Hard link created: '' @ y @ '' -> '' @ x @ [NL]) (sys_link x y (files s)) u))
    \<and> (ws = [''ln'', ''-s'', x, y] \<and> x \<noteq> ''-s'' \<and> y \<noteq> ''-s'' \<longrightarrow> shell_turn k w s = Inr (True,
        outcome ''symlink failed'' (''Symbolic link created: '' @ y @ '' -> '' @ x @ [NL]) (sys_symlink x y (files s)) u))
    \<and> (ws = [''rm'', x] \<and> x \<noteq> ''-i'' \<longrightarrow> shell_turn k w s = Inr (True, outcome ''rm failed'' [] (sys_unlink x (files s)) u))
    \<and> (ws = [''rm'', ''-i'', x] \<and> x \<noteq> ''-i'' \<longrightarrow> shell_turn k w s = Inr (True,
        if yes r then outcome ''rm failed'' [] (sys_unlink x (files s)) (question ''remove'' x r u)
        else question ''remove'' x r u))
    \<and> (ws = [''mv'', x, y] \<and> x \<noteq> ''-i'' \<and> y \<noteq> ''-i'' \<longrightarrow> shell_turn k w s = Inr (True,
        outcome ''mv failed'' [] (sys_rename x y (files s)) u))
    \<and> (ws = [''mv'', ''-i'', x, y] \<and> x \<noteq> ''-i'' \<and> y \<noteq> ''-i'' \<longrightarrow> shell_turn k w s = Inr (True,
        if \<not> sys_access y (files s) then outcome ''mv failed'' [] (sys_rename x y (files s)) u
        else if yes r then outcome ''mv failed'' [] (sys_rename x y (files s)) (question ''overwrite'' y r u)
        else question ''overwrite'' y r u))
    \<and> (hd ws \<notin> {''cd'', ''ls'', ''pwd'', ''mkdir'', ''rmdir'', ''ln'', ''cp'', ''rm'', ''mv'', ''cat'', ''grep''} \<and> fork_ok k
        \<longrightarrow> shell_turn k w s = Inr (True, case prog k ws None None u of
              Some t \<Rightarrow> t | None \<Rightarrow> u\<lparr>serr := serr u @ [(''Command execution failed'', ENOENT)]\<rparr>))"
proof -
  have turn: "shell_turn k w s = cbind (dispatch k w False None None ws u) (\<lambda>t. Inr (True, t))"
    using plain_turn [OF assms(1-6), of k w] assms(8-11) unfolding ws u by (simp add: MAX_ARG_LEN_def say_def)
  have f: "files u = files s" "sin u = r" by (simp_all add: u)
  have same: "u\<lparr>files := files s\<rparr> = u" by (simp add: u)
  note defs = turn dispatch_def call_outcome asked_def confirm_question f
  show ?thesis
    by (intro conjI impI; (elim conjE)?;
        simp add: defs cmd_cd_def cmd_mkdir_def cmd_rmdir_def cmd_ln_def cmd_rm_def cmd_mv_def)
      (simp add: turn dispatch_def f run_external_def child_in_def child_out_def perror_def same Let_def split: option.split)
qed

text \<open>Removing a file with the question answered by \<^verbatim>\<open>y\<close> and by \<^verbatim>\<open>n\<close>, and moving one.\<close>

theorem typed_line_done_witness:
  "\<exists>t u v g h. sys_unlink ''b'' demo_files = Inr g \<and> lookup (names g) [''home'', ''b''] = None
     \<and> shell_turn idle_kernel no_world (demo\<lparr>sin := ''rm -i b'' @ NL # ''y'' @ [NL]\<rparr>) = Inr (True, t) \<and> files t = g
     \<and> shell_turn idle_kernel no_world (demo\<lparr>sin := ''rm -i b'' @ NL # ''n'' @ [NL]\<rparr>) = Inr (True, u) \<and> files u = demo_files
     \<and> sys_rename ''a'' ''c'' demo_files = Inr h \<and> lookup (names h) [''home'', ''c''] = Some 2
     \<and> shell_turn idle_kernel no_world (demo\<lparr>sin := ''mv a c'' @ NL # []\<rparr>) = Inr (True, v) \<and> files v = h"
proof -
  have "case sys_unlink ''b'' demo_files of Inl e \<Rightarrow> False | Inr g \<Rightarrow> lookup (names g) [''home'', ''b''] = None" by code_simp
  then obtain g where g: "sys_unlink ''b'' demo_files = Inr g" "lookup (names g) [''home'', ''b''] = None"
    by (auto split: sum.splits)
  have "case sys_rename ''a'' ''c'' demo_files of Inl e \<Rightarrow> False | Inr g \<Rightarrow> lookup (names g) [''home'', ''c''] = Some 2" by code_simp
  then obtain h where h: "sys_rename ''a'' ''c'' demo_files = Inr h" "lookup (names h) [''home'', ''c''] = Some 2"
    by (auto split: sum.splits)
  have w: "blank_words ''rm -i b'' = [''rm'', ''-i'', ''b'']" "blank_words ''mv a c'' = [''mv'', ''a'', ''c'']"
    by code_simp+
  have d: "files demo = demo_files" by (rule demo_shell(2))
  have y: "yes (''y'' @ [NL])" "\<not> yes (''n'' @ [NL])" by (simp_all add: yes_def)
  note rm = typed_line_done [OF _ _ _ _ _ _ w(1) _ _ _ _ refl, where k = idle_kernel and w = no_world,
      THEN conjunct2, THEN conjunct2, THEN conjunct2, THEN conjunct2, THEN conjunct2, THEN conjunct2, THEN conjunct2,
      THEN conjunct1, of _ _ "''b''"]
  note mv = typed_line_done [OF _ _ _ _ _ _ w(2) _ _ _ _ refl, where k = idle_kernel and w = no_world,
      THEN conjunct2, THEN conjunct2, THEN conjunct2, THEN conjunct2, THEN conjunct2, THEN conjunct2, THEN conjunct2,
      THEN conjunct2, THEN conjunct1, of _ _ "''a''" "''c''"]
  obtain t where t: "shell_turn idle_kernel no_world (demo\<lparr>sin := ''rm -i b'' @ NL # ''y'' @ [NL]\<rparr>) = Inr (True, t)" "files t = g"
    using rm [of "demo\<lparr>sin := ''rm -i b'' @ NL # ''y'' @ [NL]\<rparr>" "''y'' @ [NL]"] y(1) g(1) d
    by (simp add: outcome_def)
  obtain x where x: "shell_turn idle_kernel no_world (demo\<lparr>sin := ''rm -i b'' @ NL # ''n'' @ [NL]\<rparr>) = Inr (True, x)"
    "files x = demo_files"
    using rm [of "demo\<lparr>sin := ''rm -i b'' @ NL # ''n'' @ [NL]\<rparr>" "''n'' @ [NL]"] y(2) d by simp
  obtain v where v: "shell_turn idle_kernel no_world (demo\<lparr>sin := ''mv a c'' @ NL # []\<rparr>) = Inr (True, v)" "files v = h"
    using mv [of "demo\<lparr>sin := ''mv a c'' @ NL # []\<rparr>" "[]"] h(1) d by (simp add: outcome_def)
  from g h t x v show ?thesis by blast
qed

subsection \<open>The loop ends\<close>

lemma asked_sin: "asked fl m n s = (go, u) \<Longrightarrow> length (sin u) \<le> length (sin s)"
  using skip_line_shorter [of "tl (sin s)"]
  by (auto simp: asked_def confirm_action_def Let_def split: list.splits if_splits)

lemma call_sin: "sin (call r msg ok s) = sin s"
  by (simp add: call_def split: sum.split)

lemma commands_sin:
  "length (sin (cmd_cp args s)) \<le> length (sin s)" "length (sin (cmd_mv args s)) \<le> length (sin s)"
  "length (sin (cmd_rm args s)) \<le> length (sin s)" "sin (cmd_ln args s) = sin s"
  "sin (cmd_cd w args s) = sin s" "sin (cmd_mkdir args s) = sin s" "sin (cmd_rmdir args s) = sin s"
  "sin (cmd_cat args s) = sin s" "sin (cmd_grep args s) = sin s" "sin (cmd_pwd args s) = sin s"
  "cmd_ls w args s = Inr t \<Longrightarrow> sin t = sin s"
  by (auto simp: cmd_cp_def cmd_mv_def cmd_rm_def cmd_ln_def cmd_cd_def cmd_mkdir_def cmd_rmdir_def
      cmd_cat_def cmd_grep_def cmd_pwd_def cmd_ls_def call_sin Let_def dest!: asked_sin
      split: prod.split prod.splits option.split sum.split sum.splits)


lemma run_external_sin:
  assumes "kernel_quiet k"
  shows "length (sin (run_external k bg infile outfile args s)) \<le> length (sin s)"
proof -
  obtain outp f where f: "child_out outfile (files s) = (outp, f)" by (cases "child_out outfile (files s)")
  have "length (sin t) \<le> length (sin s)" if "prog k args i outp (s\<lparr>files := f\<rparr>) = Some t" for i t
  proof -
    have "length (sin t) \<le> length (sin (s\<lparr>files := f\<rparr>))"
      using assms that unfolding kernel_quiet_def by blast
    then show ?thesis by simp
  qed
  with f show ?thesis by (simp add: run_external_def Let_def split: option.split)
qed

lemma run_line_sin:
  assumes "kernel_quiet k" "run_line k w input s = Inr t"
  shows "length (sin t) \<le> length (sin s)"
  using assms(2)
proof (cases rule: run_line_cases)
  case (1 a b)
  then show ?thesis using assms(1) by (simp add: run_pipe_def kernel_quiet_def)
next
  case 2
  then show ?thesis by simp
next
  case (3 bg infile outfile args)
  show ?thesis
    by (rule dispatch_cases [OF 3]) (simp_all add: run_external_sin assms(1) commands_sin)
qed

lemma turn_consumes:
  assumes "kernel_quiet k" "shell_turn k w s = Inr (True, t)"
  shows "length (sin t) < length (sin s)"
  using assms(2)
proof (cases rule: shell_turn_cases)
  case (3 u line)
  with run_line_sin [OF assms(1) 3(1)] show ?thesis by simp
qed simp_all

lemma shell_loop_ends:
  assumes "kernel_quiet k"
  shows "length (sin s) < n \<Longrightarrow> length (sin s) < m \<Longrightarrow> shell_loop k w n s \<noteq> Inr (True, t)
    \<and> shell_loop k w n s = shell_loop k w m s"
proof (induction n arbitrary: s m)
  case (Suc n)
  then obtain m' where m: "m = Suc m'" by (cases m) auto
  show ?case
  proof (cases "shell_turn k w s")
    case (Inl e)
    then show ?thesis by (simp add: m)
  next
    case (Inr r)
    obtain go u where r: "r = (go, u)" by (cases r)
    show ?thesis
    proof (cases go)
      case True
      then have "length (sin u) < length (sin s)" using turn_consumes [OF assms, of w s u] Inr r by simp
      then have "shell_loop k w n u \<noteq> Inr (True, t) \<and> shell_loop k w n u = shell_loop k w m' u"
        using Suc.prems m by (intro Suc.IH) auto
      moreover have "shell_loop k w (Suc n) s = shell_loop k w n u" "shell_loop k w m s = shell_loop k w m' u"
        using Inr r True m by simp_all
      ultimately show ?thesis by metis
    next
      case False
      then show ?thesis using Inr r m by simp
    qed
  qed
qed simp

text \<open>
  Property C16.  The loop ends: if the programs it runs do not type, the shell comes to its
  end (\<^verbatim>\<open>exit\<close> or the end of the input), or to a fault, within one turn more than there are
  characters to read, and any larger number of turns gives the same result.
\<close>

theorem shell_loop_terminates:
  assumes "kernel_quiet k" and "length (sin s) < n"
  shows "shell_loop k w n s \<noteq> Inr (True, t) \<and> shell_loop k w n s = shell_loop k w (Suc (length (sin s))) s"
  using shell_loop_ends [OF assms] by blast

theorem shell_loop_terminates_witness:
  "\<exists>t. shell_loop idle_kernel no_world 99 typed = Inr (False, t)
     \<and> map fst (names (files t)) = [[], [''home''], [''home'', ''d'', ''a''], [''home'', ''d'']]"
proof -
  have len: "length (sin typed) < 99" by code_simp
  note e = shell_loop_terminates [OF idle_kernel_ok(2) len, of no_world]
  have "shell_loop idle_kernel no_world (Suc (length (sin typed))) typed
      = shell_loop idle_kernel no_world 99 typed" using e by simp
  moreover have "case shell_loop idle_kernel no_world (Suc (length (sin typed))) typed of
     Inr (go, t) \<Rightarrow> map fst (names (files t)) = [[], [''home''], [''home'', ''d'', ''a''], [''home'', ''d'']]
   | Inl e \<Rightarrow> False" by code_simp
  ultimately have c: "case shell_loop idle_kernel no_world 99 typed of
     Inr (go, t) \<Rightarrow> map fst (names (files t)) = [[], [''home''], [''home'', ''d'', ''a''], [''home'', ''d'']]
   | Inl e \<Rightarrow> False" by simp
  then obtain go t where t: "shell_loop idle_kernel no_world 99 typed = Inr (go, t)"
    by (cases "shell_loop idle_kernel no_world 99 typed") auto
  with e have "\<not> go" by (cases go) auto
  with t c show ?thesis by simp
qed

end
