(* ===== verification/Simple_Shell.thy ===== *)
theory Simple_Shell
  imports Shell
begin

section \<open>The simple shell\<close>

text \<open>
  The main loop of \<^verbatim>\<open>lab2/ch8/simplesh.c\<close>: a line of \<^verbatim>\<open>fgets\<close>, its words by \<open>getargs\<close>, one
  child that is waited for.  The kernel is that of \<open>Shell\<close>; the shell has no other child, so
  the loop around \<^verbatim>\<open>wait\<close> is one wait.
\<close>

definition LINE_SIZE :: nat where "LINE_SIZE = 256"

definition ARGV_SIZE :: nat where "ARGV_SIZE = 50"

text \<open>Line 34: the newline is cut off, at the last byte of the string; a line that starts with
  NUL has none, and the byte before the buffer is read.\<close>

definition cut_newline :: "bytes \<Rightarrow> bytes cres" where
  "cut_newline buf =
     (let l = cstr buf in
      if l = [] then Inl Out_Of_Bounds
      else Inr (if last l = NL then butlast l else l))"

definition simple_child :: "kernel \<Rightarrow> bytes list \<Rightarrow> shell \<Rightarrow> shell" where
  "simple_child k argv s =
     (if \<not> fork_ok k then perror ''fork failed'' EAGAIN s
      else case prog k argv None None s of
          Some t \<Rightarrow> t
        | None \<Rightarrow> perror ''execvp failed'' ENOENT s)"

definition simple_turn :: "kernel \<Rightarrow> shell \<Rightarrow> (bool \<times> shell) cres" where
  "simple_turn k s =
     (let s = say ''shell> '' s in
      if sin s = [] then Inr (False, s)
      else
        let chunk = fgets_chunk LINE_SIZE (sin s); s = s\<lparr>sin := fgets_rest LINE_SIZE (sin s)\<rparr> in
        cbind (cut_newline chunk) (\<lambda>line.
        cbind (getargs ARGV_SIZE (line @ [NUL])) (\<lambda>(buf, argv).
        if argv = [] then Inr (True, s)
        else Inr (True, simple_child k (map (cstr_at buf) argv) s))))"

fun simple_loop :: "kernel \<Rightarrow> nat \<Rightarrow> shell \<Rightarrow> (bool \<times> shell) cres" where
  "simple_loop k 0 s = Inr (True, s)"
| "simple_loop k (Suc n) s =
     cbind (simple_turn k s) (\<lambda>(go, t). if go then simple_loop k n t else Inr (False, t))"

subsection \<open>One line\<close>

lemma cut_newline_line: "NUL \<notin> set l \<Longrightarrow> cut_newline (l @ [NL]) = Inr l"
  by (simp add: cut_newline_def cstr_no_nul)

lemma getargs_words:
  assumes "NUL \<notin> set line"
  shows "cbind (getargs cap (line @ [NUL])) (\<lambda>(buf, argv). f argv (map (cstr_at buf) argv))
    = (if length (blank_words line) < cap
       then f (word_offsets 0 False line) (blank_words line) else Inl Out_Of_Bounds)"
  using getargs_loop_eq [OF assms, of cap "[]" "[]" "[]"]
    arg_words [OF assms cut_ok_passes(2), of "[]"]
  by (simp add: getargs_def length_word_offsets)

lemma word_offsets_Nil: "word_offsets 0 False line = [] \<longleftrightarrow> blank_words line = []"
  using length_word_offsets(1) [of 0 line] by (metis length_0_conv)

text \<open>A turn on a line that fits.\<close>

lemma simple_turn_line:
  assumes "sin s = line @ NL # r" and "NL \<notin> set line" and "NUL \<notin> set line" and "Suc (length line) < LINE_SIZE"
  shows "simple_turn k s =
    (let u = (say ''shell> '' s)\<lparr>sin := r\<rparr> in
     if blank_words line = [] then Inr (True, u)
     else if length (blank_words line) < ARGV_SIZE then Inr (True, simple_child k (blank_words line) u)
     else Inl Out_Of_Bounds)"
proof -
  let ?u = "(say ''shell> '' s)\<lparr>sin := r\<rparr>"
  have "fgets_chunk LINE_SIZE (sin s) = line @ [NL]" "fgets_rest LINE_SIZE (sin s) = r"
    using fgets_chunk_line [OF assms(2,4)] assms(1) by (simp_all add: fgets_rest_def)
  then have "simple_turn k s = cbind (getargs ARGV_SIZE (line @ [NUL]))
      (\<lambda>(buf, argv). if argv = [] then Inr (True, ?u) else Inr (True, simple_child k (map (cstr_at buf) argv) ?u))"
    using assms(1,3) by (simp add: simple_turn_def Let_def cut_newline_line)
  also have "\<dots> = (if length (blank_words line) < ARGV_SIZE
      then if word_offsets 0 False line = [] then Inr (True, ?u) else Inr (True, simple_child k (blank_words line) ?u)
      else Inl Out_Of_Bounds)"
    using getargs_words [OF assms(3), of ARGV_SIZE
        "\<lambda>a ws. if a = [] then Inr (True, ?u) else Inr (True, simple_child k ws ?u)"] .
  finally show ?thesis by (simp add: word_offsets_Nil Let_def ARGV_SIZE_def)
qed

text \<open>A line without what only \<^verbatim>\<open>myshell\<close> gives a meaning.\<close>

definition builtins :: "bytes list" where
  "builtins = [''cd'', ''ls'', ''pwd'', ''mkdir'', ''rmdir'', ''ln'', ''cp'', ''rm'', ''mv'', ''cat'', ''grep'']"

definition plain :: "bytes \<Rightarrow> bool" where
  "plain line \<longleftrightarrow> NL \<notin> set line \<and> NUL \<notin> set line \<and> CHR ''|'' \<notin> set line \<and> last line \<noteq> CHR ''&'' \<and> line \<noteq> ''exit''
     \<and> ''<'' \<notin> set (blank_words line) \<and> ''>'' \<notin> set (blank_words line)"

lemma dispatch_external: "args \<noteq> [] \<Longrightarrow> hd args \<notin> set builtins
    \<Longrightarrow> dispatch k w bg i out args s = Inr (run_external k bg i out args s)"
  by (simp add: dispatch_def builtins_def)

lemma run_external_plain:
  assumes "fork_ok k"
  shows "run_external k False None None args v = (case prog k args None None v of
      Some t \<Rightarrow> t | None \<Rightarrow> perror ''Command execution failed'' ENOENT v)"
proof -
  have "v\<lparr>files := files v\<rparr> = v" by (cases v) simp
  with assms show ?thesis by (simp add: run_external_def child_in_def child_out_def Let_def split: option.split)
qed

lemma simple_child_sin:
  assumes "kernel_quiet k"
  shows "length (sin (simple_child k a u)) \<le> length (sin u)"
proof (cases "prog k a None None u")
  case (Some t)
  then have "length (sin t) \<le> length (sin u)" using assms unfolding kernel_quiet_def by blast
  with Some show ?thesis by (simp add: simple_child_def perror_def)
qed (simp add: simple_child_def perror_def)

text \<open>
  Property C23.  The two shells agree: on a line of fewer than 50 words that fits both
  buffers, names no built-in command and has no operator of \<^verbatim>\<open>myshell\<close>, either shell runs the
  same program with the same arguments on the terminal, once, and goes on; from one state
  they differ in the prompt and in the message for a program that cannot be started.
\<close>

theorem shells_agree:
  assumes "sin s = line @ NL # r" and "plain line" and "Suc (length line) < LINE_SIZE"
    and "blank_words line \<noteq> []" and "length (blank_words line) < ARGV_SIZE"
    and "hd (blank_words line) \<notin> set builtins" and "fork_ok k"
  shows "\<exists>u v. u = (say ''shell> '' s)\<lparr>sin := r\<rparr> \<and> v = (say ([NL] @ ''MyShell> '') s)\<lparr>sin := r\<rparr>
    \<and> simple_turn k s = Inr (True, case prog k (blank_words line) None None u of
          Some t \<Rightarrow> t | None \<Rightarrow> perror ''execvp failed'' ENOENT u)
    \<and> shell_turn k w s = Inr (True, case prog k (blank_words line) None None v of
          Some t \<Rightarrow> t | None \<Rightarrow> perror ''Command execution failed'' ENOENT v)"
proof -
  have p: "NL \<notin> set line" "NUL \<notin> set line" "CHR ''|'' \<notin> set line" "last line \<noteq> CHR ''&''" "line \<noteq> ''exit''"
    "''<'' \<notin> set (blank_words line)" "''>'' \<notin> set (blank_words line)"
    using assms(2) by (simp_all add: plain_def)
  have "length (blank_words line) < MAX_ARG_LEN" using assms(5) by (simp add: ARGV_SIZE_def MAX_ARG_LEN_def)
  note big = plain_turn [OF assms(1) p(1-5) assms(4) this p(6,7), of k w]
  note small = simple_turn_line [OF assms(1) p(1,2) assms(3), of k]
  show ?thesis
    unfolding big small using assms(4-7)
    by (simp add: dispatch_external run_external_plain simple_child_def Let_def)
qed

text \<open>A kernel whose one program, \<^verbatim>\<open>echo\<close>, prints its first argument.\<close>

definition echo_kernel :: kernel where
  "echo_kernel = idle_kernel\<lparr>prog := (\<lambda>args i out s. if hd args = ''echo'' then Some (say (args ! 1) s) else None)\<rparr>"

theorem shells_agree_witness:
  "\<exists>t. simple_turn echo_kernel (demo\<lparr>sin := ''echo  a'' @ [NL]\<rparr>) = Inr (True, t)
     \<and> sout t = ''shell> a'' \<and> sin t = []"
proof -
  have ws: "blank_words ''echo  a'' = [''echo'', ''a'']" by (simp add: blank_def)
  have "plain ''echo  a''" unfolding plain_def ws by simp
  from shells_agree [of "demo\<lparr>sin := ''echo  a'' @ [NL]\<rparr>" "''echo  a''" "[]" echo_kernel no_world, OF _ this] ws
  show ?thesis
    by (simp add: LINE_SIZE_def ARGV_SIZE_def builtins_def echo_kernel_def idle_kernel_def demo_def say_def)
qed

subsection \<open>The loop ends\<close>

lemma simple_turn_consumes:
  assumes "kernel_quiet k" and "simple_turn k s = Inr (True, t)"
  shows "length (sin t) < length (sin s)"
proof -
  let ?u = "(say ''shell> '' s)\<lparr>sin := fgets_rest LINE_SIZE (sin s)\<rparr>"
  have s: "sin s \<noteq> []" using assms(2) by (auto simp: simple_turn_def Let_def)
  then have "length (sin ?u) < length (sin s)" using fgets_rest_shorter [of LINE_SIZE "sin s"] by (simp add: LINE_SIZE_def)
  moreover note simple_child_sin [OF assms(1), of _ ?u]
  moreover have "t = ?u \<or> (\<exists>a. t = simple_child k a ?u)"
    using assms(2) s by (auto simp: simple_turn_def Let_def split: if_splits)
  ultimately show ?thesis by (auto intro: le_less_trans)
qed

text \<open>
  The simple shell comes to its end, or to a fault, within one turn more
  than there are characters to read, if the programs it runs do not type.
\<close>

lemma simplesh_ends:
  assumes "kernel_quiet k" and "length (sin s) < n"
  shows "simple_loop k n s \<noteq> Inr (True, t)"
  using assms(2)
proof (induction n arbitrary: s)
  case (Suc n)
  show ?case
  proof
    assume "simple_loop k (Suc n) s = Inr (True, t)"
    then obtain u where u: "simple_turn k s = Inr (True, u)" "simple_loop k n u = Inr (True, t)"
      by (auto split: if_splits)
    from simple_turn_consumes [OF assms(1) u(1)] Suc.prems have "length (sin u) < n" by simp
    with Suc.IH u(2) show False by blast
  qed
qed simp

lemma simplesh_ends_example: "\<forall>t. simple_loop idle_kernel 99 typed \<noteq> Inr (True, t)"
proof -
  have "length (sin typed) < 99" by code_simp
  then show ?thesis by (intro allI simplesh_ends [OF idle_kernel_ok(2)])
qed

end
