(* ===== verification/Web_Server.thy ===== *)
theory Web_Server
  imports File_Paths
begin

section \<open>The web server and its CGI program\<close>

text \<open>
  \<^verbatim>\<open>handle_request\<close> of \<^verbatim>\<open>lab3/7/cgiserver.c\<close>, run in a child process per connection, and the
  CGI program \<^verbatim>\<open>lab3/7/test_add.c\<close>.  The result of a request is what is written to its
  socket.  The programs that the server can execute are a parameter \<open>cgi\<close>: the output of a
  program given its path, the variables set for it and its standard input (nothing if it
  cannot be executed).  The served files are those of a file system of \<open>File_Store\<close>.
\<close>

subsection \<open>handle\_request\<close>

record cgi_env =
  request_method :: bytes
  content_length :: "bytes option"
  query_string :: "bytes option"

abbreviation CRLF :: bytes where "CRLF \<equiv> [CR, NL]"

definition WEB_BUF :: nat where "WEB_BUF = 2048"

definition http_ok_cgi :: bytes where
  "http_ok_cgi = ''HTTP/1.1 200 OK'' @ CRLF"

definition http_ok :: bytes where
  "http_ok = ''HTTP/1.1 200 OK'' @ CRLF @ ''Content-Type: text/html'' @ CRLF @ CRLF"

text \<open>36 bytes of a text of 35: the terminator goes out with it.\<close>

definition http_not_found :: bytes where
  "http_not_found = ''HTTP/1.1 404 Not Found'' @ CRLF @ CRLF @ ''404 Error'' @ [NUL]"

text \<open>The loop that reads the file by \<open>BUF_SIZE\<close> bytes and writes what it read.\<close>

function send_file :: "bytes \<Rightarrow> bytes" where
  "send_file d = (let chunk = take WEB_BUF d in
     if chunk = [] then [] else chunk @ send_file (drop WEB_BUF d))"
  by pat_completeness auto
termination
  by (relation "measure length") (auto simp: WEB_BUF_def)

declare send_file.simps [simp del]

definition run_cgi :: "(bytes \<Rightarrow> cgi_env \<Rightarrow> bytes \<Rightarrow> bytes) \<Rightarrow> bytes \<Rightarrow> bytes \<Rightarrow> bytes option \<Rightarrow> bytes" where
  "run_cgi cgi method file_name body =
     (let query = strchr file_name (CHR ''?'');
          cut = (case query of None \<Rightarrow> file_name | Some i \<Rightarrow> file_name[i := NUL]);
          env = \<lparr>request_method = method,
            content_length = map_option (\<lambda>b. show_nat (length b)) body,
            query_string = map_option (\<lambda>i. drop (Suc i) file_name) query\<rparr>;
          input = (case body of Some b \<Rightarrow> if method = ''POST'' then b else [] | None \<Rightarrow> [])
      in http_ok_cgi @ cgi (cstr_at cut 1) env input)"

definition serve_path :: "fs \<Rightarrow> bytes \<Rightarrow> bytes" where
  "serve_path f path = (case sys_open_read path f of
      Inl e \<Rightarrow> http_not_found
    | Inr n \<Rightarrow> http_ok @ send_file (case content f n of Some d \<Rightarrow> d | None \<Rightarrow> []))"

text \<open>\<open>d\<close> is what \<^verbatim>\<open>read\<close> delivered, at most \<^verbatim>\<open>BUF_SIZE - 1\<close> bytes; the buffer is zeroed, so
  it is terminated.\<close>

definition handle_request ::
  "(bytes \<Rightarrow> cgi_env \<Rightarrow> bytes \<Rightarrow> bytes) \<Rightarrow> fs \<Rightarrow> bytes \<Rightarrow> bytes cres" where
  "handle_request cgi f d =
     (if d = [] then Inr []
      else
        let buf = cstr d in
        cbind (scan_field 10 buf) (\<lambda>(method, r).
        cbind (scan_field 100 r) (\<lambda>(file_name, r').
        let body = map_option (\<lambda>i. drop (i + 4) buf) (strstr buf (CRLF @ CRLF)) in
        case (method, file_name) of
          (Some m, Some fn) \<Rightarrow>
            (let fn = (if fn = ''/'' then ''/index.html'' else fn) in
             if strstr fn ''.cgi'' \<noteq> None then Inr (run_cgi cgi m fn body)
             else cbind (store_cstr (replicate 200 NUL) (''.'' @ fn)) (\<lambda>path.
                  Inr (serve_path f (cstr path))))
        | _ \<Rightarrow> Inl Uninitialised)))"

subsection \<open>test\_add\<close>

text \<open>Where the query comes from; \<^verbatim>\<open>fgets\<close> takes one line of at most 1023 bytes.\<close>

definition query_of :: "cgi_env \<Rightarrow> bytes \<Rightarrow> bytes option" where
  "query_of env input =
     (if request_method env = ''GET'' then query_string env
      else if request_method env = ''POST'' then
        (let line = fgets_chunk 1024 input in if line = [] then None else Some (cstr line))
      else None)"

definition post_line :: "cgi_env \<Rightarrow> bytes \<Rightarrow> bytes" where
  "post_line env input = (case query_of env input of None \<Rightarrow> []
     | Some q \<Rightarrow> if request_method env = ''GET'' then ''<p>GET Data: '' @ q @ ''</p>''
         else ''<p>POST Data: '' @ q @ ''</p>'')"

definition calculation :: "bytes option \<Rightarrow> bytes cres" where
  "calculation query = (case query of
      None \<Rightarrow> Inr []
    | Some q \<Rightarrow> (case (strstr q ''a='', strstr q ''b='') of
          (Some i, Some j) \<Rightarrow>
            cbind (atoi (drop (i + 2) q)) (\<lambda>a.
            cbind (atoi (drop (j + 2) q)) (\<lambda>b.
            cbind (c_int (a + b)) (\<lambda>c.
            Inr (''<h2>Calculation: '' @ show_int a @ '' + '' @ show_int b @ '' = '' @ show_int c @ ''</h2>''))))
        | _ \<Rightarrow> Inr []))"

definition test_add :: "cgi_env \<Rightarrow> bytes \<Rightarrow> bytes cres" where
  "test_add env input =
     cbind (calculation (query_of env input)) (\<lambda>calc.
       Inr (''Content-type: text/html'' @ CRLF @ CRLF @ ''<html><body>'' @ ''<h1>CGI Result</h1>''
         @ ''<p>Method: '' @ request_method env @ ''</p>'' @ post_line env input @ calc @ ''</body></html>''))"


subsection \<open>Requests for files\<close>

lemma send_file_all: "send_file d = d"
proof (induction d rule: send_file.induct)
  case (1 d)
  then show ?case
    by (cases "take WEB_BUF d = []") (auto simp: send_file.simps [of d] send_file.simps [of "[]"] WEB_BUF_def)
qed

lemma serve_path_eq:
  "serve_path f path = (case sys_open_read path f of
      Inl e \<Rightarrow> http_not_found
    | Inr n \<Rightarrow> http_ok @ (case content f n of Some d \<Rightarrow> d | None \<Rightarrow> []))"
  by (simp add: serve_path_def send_file_all split: sum.split)

text \<open>The first line of a request: method, target and the rest of the text.\<close>

definition request :: "bytes \<Rightarrow> bytes \<Rightarrow> bytes \<Rightarrow> bytes" where
  "request m target rest = m @ SP # target @ SP # rest"

lemma scan_field_word:
  "is_token w \<Longrightarrow> is_space c \<Longrightarrow> scan_field n (w @ c # r) = (if length w < n then Inr (Some w, c # r) else Inl Out_Of_Bounds)"
  by (simp add: scan_field_def scan_word_append)

lemma scan_field_skip: "is_space c \<Longrightarrow> scan_field n (c # r) = scan_field n r"
  by (simp add: scan_field_def scan_word_skip)

lemma is_space_SP [simp]: "is_space SP"
  by (simp add: is_space_def)

lemma request_scanned:
  assumes "is_token m" "length m < 10" "is_token fn" "NUL \<notin> set (request m fn rest)"
  shows "scan_field 10 (cstr (request m fn rest)) = Inr (Some m, SP # fn @ SP # rest)"
    and "scan_field 100 (SP # fn @ SP # rest) = (if length fn < 100 then Inr (Some fn, SP # rest) else Inl Out_Of_Bounds)"
    and "request m fn rest \<noteq> []"
  using assms(1-3) cstr_no_nul [OF assms(4)]
  by (simp_all add: request_def scan_field_word scan_field_skip)

text \<open>
  Property C27.  Static requests: a request whose target is a word without \<^verbatim>\<open>.cgi\<close> is
  answered with the 200 header and exactly the bytes of the file of that name below the
  server's directory (\<^verbatim>\<open>/\<close> meaning \<^verbatim>\<open>/index.html\<close>), whatever its size, or with the 404
  text if it cannot be opened; a target of 100 bytes or more overruns the array it is
  scanned into.
\<close>

theorem static_request:
  assumes "is_token m" and "length m < 10" and "is_token fn" and "NUL \<notin> set (request m fn rest)"
    and "strstr fn ''.cgi'' = None"
  shows "handle_request cgi f (request m fn rest)
    = (if 100 \<le> length fn then Inl Out_Of_Bounds
       else Inr (case sys_open_read (''.'' @ (if fn = ''/'' then ''/index.html'' else fn)) f of
              Inl e \<Rightarrow> http_not_found
            | Inr n \<Rightarrow> http_ok @ (case content f n of Some d \<Rightarrow> d | None \<Rightarrow> [])))"
proof -
  let ?fn = "if fn = ''/'' then ''/index.html'' else fn"
  have cgi: "strstr ?fn ''.cgi'' = None" using assms(5) by simp
  have nul: "NUL \<notin> set (''.'' @ ?fn)" using assms(4) by (simp add: request_def)
  note r = request_scanned [OF assms(1-4)]
  show ?thesis
  proof (cases "length fn < 100")
    case True
    then have "length (''.'' @ ?fn) < length (replicate 200 NUL)" by simp
    then obtain b where b: "store_cstr (replicate 200 NUL) (''.'' @ ?fn) = Inr b"
      unfolding store_cstr_def by (metis (no_types, lifting))
    then have "cstr b = ''.'' @ ?fn" using cstr_store_cstr nul by blast
    with True b r cgi show ?thesis
      unfolding handle_request_def Let_def
      by (simp add: serve_path_eq)
  next
    case False
    with r show ?thesis by (simp add: handle_request_def Let_def)
  qed
qed

text \<open>A site with an index page.\<close>

definition site :: fs where
  "site = \<lparr>names = [([], 0), ([''index.html''], 1)],
     inodes = [0 \<mapsto> \<lparr>i_kind = K_Dir, i_mode = 493, i_uid = 0, i_gid = 0, i_mtime = 0\<rparr>,
       1 \<mapsto> \<lparr>i_kind = K_File ''<html>'', i_mode = 420, i_uid = 0, i_gid = 0, i_mtime = 0\<rparr>],
     next_ino = 2, cwd = [], umask = 18, user = (0, 0), now = 0\<rparr>"

theorem static_request_witness:
  "handle_request (\<lambda>p env i. []) site (request ''GET'' ''/'' ''HTTP/1.1'') = Inr (http_ok @ ''<html>'')
   \<and> handle_request (\<lambda>p env i. []) site (request ''GET'' ''/x'' ''HTTP/1.1'') = Inr http_not_found"
proof -
  have t: "is_token ''GET''" "is_token ''/''" "is_token ''/x''" by (simp_all add: is_token_def is_space_def)
  have o: "sys_open_read ''./index.html'' site = Inr 1" "sys_open_read ''./x'' site = Inl ENOENT"
    "content site 1 = Some ''<html>''" by code_simp+
  show ?thesis
    using static_request [OF t(1) _ t(2), of "''HTTP/1.1''" "\<lambda>p env i. []" site]
      static_request [OF t(1) _ t(3), of "''HTTP/1.1''" "\<lambda>p env i. []" site] o
    by (simp add: request_def)
qed

subsection \<open>The sum of two numbers\<close>

lemma strstr_first:
  "p \<noteq> [] \<Longrightarrow> hd p \<notin> set u \<Longrightarrow> strstr (u @ p @ v) p = Some (length u)"
proof (induction u)
  case Nil
  then show ?case by (cases p) auto
next
  case (Cons x u)
  then have "\<not> starts p (x # u @ p @ v)" by (cases p) auto
  with Cons show ?case by simp
qed

lemma show_int_chars: "c \<in> set (show_int i) \<Longrightarrow> is_digit c \<or> c = CHR ''-''"
  using show_nat_digits by (auto simp: show_int_def split: if_splits)

lemma digits_val_show: "\<not> is_digit c \<Longrightarrow> digits_val (show_nat n @ c # r) = n"
proof -
  assume "\<not> is_digit c"
  then have "takeWhile is_digit (show_nat n @ c # r) = show_nat n"
    using show_nat_digits [of n] by (simp add: takeWhile_tail)
  then show ?thesis unfolding digits_val_def by (simp only: foldl_show_nat)
qed

lemma atoi_show_stop:
  assumes "- (2 ^ 31) \<le> i" "i < 2 ^ 31" "\<not> is_digit c"
  shows "atoi (show_int i @ c # r) = Inr i"
proof (cases "i < 0")
  case True
  have "skip_space (show_int i @ c # r) = show_int i @ c # r"
    using True by (simp add: show_int_def skip_space_def is_space_def)
  with True assms show ?thesis
    by (simp add: atoi_def show_int_def digits_val_show)
next
  case False
  obtain x t where ct: "show_nat (nat i) = x # t" by (cases "show_nat (nat i)") auto
  with show_nat_digits [of "nat i"] have "is_digit x" by simp
  then have x: "\<not> is_space x" "x \<noteq> CHR ''-''" "x \<noteq> CHR ''+''" using is_digit_plain by blast+
  from False ct x have "atoi (show_int i @ c # r) = c_int (int (digits_val (show_nat (nat i) @ c # r)))"
    by (simp add: atoi_def show_int_def skip_space_def)
  with False assms show ?thesis by (simp add: digits_val_show)
qed

definition add_query :: "int \<Rightarrow> int \<Rightarrow> bytes" where
  "add_query a b = ''a='' @ show_int a @ ''&b='' @ show_int b"

lemma calculation_sum:
  assumes "- (2 ^ 31) \<le> a" "a < 2 ^ 31" "- (2 ^ 31) \<le> b" "b < 2 ^ 31"
  shows "calculation (Some (add_query a b)) = cbind (c_int (a + b)) (\<lambda>c. Inr
    (''<h2>Calculation: '' @ show_int a @ '' + '' @ show_int b @ '' = '' @ show_int c @ ''</h2>''))"
proof -
  have "CHR ''b'' \<notin> set (''a='' @ show_int a @ ''&'')"
    using show_int_chars [of "CHR ''b''" a] by (auto simp: is_digit_def)
  then have j: "strstr (add_query a b) ''b='' = Some (length (''a='' @ show_int a @ ''&''))"
    using strstr_first [of "''b=''" "''a='' @ show_int a @ ''&''" "show_int b"] by (simp add: add_query_def)
  have i: "strstr (add_query a b) ''a='' = Some 0" by (simp add: add_query_def)
  have "drop (0 + 2) (add_query a b) = show_int a @ CHR ''&'' # ''b='' @ show_int b"
    by (simp add: add_query_def)
  moreover have "drop (length (''a='' @ show_int a @ ''&'') + 2) (add_query a b) = show_int b"
    by (simp add: add_query_def)
  moreover have "\<not> is_digit (CHR ''&'')" by (simp add: is_digit_def)
  ultimately show ?thesis
    using i j atoi_show_stop [OF assms(1,2)] atoi_show_int [OF assms(3,4)]
    by (simp add: calculation_def)
qed

text \<open>The program that is installed beside the server.\<close>

definition site_cgi :: "bytes \<Rightarrow> cgi_env \<Rightarrow> bytes \<Rightarrow> bytes" where
  "site_cgi path env input =
     (if path = ''test_add.cgi'' then (case test_add env input of Inl e \<Rightarrow> [] | Inr page \<Rightarrow> page) else [])"

text \<open>
  Property C26.  The sum: for all numbers \<open>a\<close> and \<open>b\<close> of the range of \<^verbatim>\<open>int\<close> whose sum is in
  it too, the request \<^verbatim>\<open>GET /test_add.cgi?a=A&b=B\<close> with the numbers in decimal runs
  \<^verbatim>\<open>test_add\<close> and is answered with the page that shows \<open>a\<close>, \<open>b\<close> and \<open>a + b\<close>.
\<close>

theorem cgi_adds:
  assumes "- (2 ^ 31) \<le> a" and "a < 2 ^ 31" and "- (2 ^ 31) \<le> b" and "b < 2 ^ 31"
    and "- (2 ^ 31) \<le> a + b" and "a + b < 2 ^ 31" and "NUL \<notin> set rest"
  shows "handle_request site_cgi f (request ''GET'' (''/test_add.cgi?'' @ add_query a b) rest)
    = Inr (http_ok_cgi @ ''Content-type: text/html'' @ CRLF @ CRLF @ ''<html><body>'' @ ''<h1>CGI Result</h1>''
        @ ''<p>Method: GET</p>'' @ ''<p>GET Data: '' @ add_query a b @ ''</p>''
        @ ''<h2>Calculation: '' @ show_int a @ '' + '' @ show_int b @ '' = '' @ show_int (a + b) @ ''</h2>''
        @ ''</body></html>'')"
proof -
  let ?q = "add_query a b" let ?fn = "''/test_add.cgi?'' @ ?q"
  have q: "\<forall>c \<in> set ?q. c \<noteq> NUL \<and> \<not> is_space c"
    using show_int_plain [of a] show_int_plain [of b] by (auto simp: add_query_def is_space_def)
  have tok: "is_token ''GET''" "is_token ?fn"
    using q by (auto simp: is_token_def is_space_def)
  have nul: "NUL \<notin> set (request ''GET'' ?fn rest)" using q assms(7) by (auto simp: request_def)
  have len: "length ?fn < 100"
    using length_show_int [OF assms(1,2)] length_show_int [OF assms(3,4)] by (simp add: add_query_def)
  have cgi: "strstr ?fn ''.cgi'' \<noteq> None"
  proof
    assume "strstr ?fn ''.cgi'' = None"
    moreover have "?fn = ''/test_add'' @ ''.cgi'' @ ''?'' @ ?q" by simp
    ultimately show False unfolding strstr_None by blast
  qed
  have run: "run_cgi site_cgi ''GET'' ?fn body = http_ok_cgi @ site_cgi ''test_add.cgi''
      \<lparr>request_method = ''GET'', content_length = map_option (\<lambda>b. show_nat (length b)) body,
       query_string = Some ?q\<rparr> []" for body
    by (simp add: run_cgi_def Let_def cstr_at_def split: option.split)
  have calc: "calculation (Some ?q) = Inr (''<h2>Calculation: '' @ show_int a @ '' + '' @ show_int b @ '' = ''
      @ show_int (a + b) @ ''</h2>'')"
    using calculation_sum [OF assms(1-4)] assms(5,6) by (simp add: c_int_def)
  note r = request_scanned [OF tok(1) _ tok(2) nul]
  have "handle_request site_cgi f (request ''GET'' ?fn rest) = Inr (run_cgi site_cgi ''GET'' ?fn
      (map_option (\<lambda>i. drop (i + 4) (request ''GET'' ?fn rest)) (strstr (request ''GET'' ?fn rest) (CRLF @ CRLF))))"
    using r len cgi cstr_no_nul [OF nul] unfolding handle_request_def Let_def by simp
  then show ?thesis
    unfolding run by (simp add: site_cgi_def test_add_def query_of_def post_line_def calc)
qed

theorem cgi_adds_witness:
  "handle_request site_cgi site (request ''GET'' (''/test_add.cgi?'' @ add_query 10 20) ''HTTP/1.1'')
    = Inr (http_ok_cgi @ ''Content-type: text/html'' @ CRLF @ CRLF @ ''<html><body>'' @ ''<h1>CGI Result</h1>''
        @ ''<p>Method: GET</p>'' @ ''<p>GET Data: '' @ add_query 10 20 @ ''</p>''
        @ ''<h2>Calculation: '' @ show_int 10 @ '' + '' @ show_int 20 @ '' = '' @ show_int 30 @ ''</h2>''
        @ ''</body></html>'')"
  using cgi_adds [of 10 20 "''HTTP/1.1''" site] by simp

end
