(* ===== verification/Web_Processes.thy ===== *)
theory Web_Processes
  imports Transition
begin

section \<open>The web server's processes\<close>

text \<open>
  The loop of \<^verbatim>\<open>main\<close> in \<^verbatim>\<open>lab3/7/cgiserver.c\<close> and the handler \<^verbatim>\<open>read_childproc\<close>: one
  child per connection, waited for by a handler of SIGCHLD.  A signal that is pending already
  is not queued again.  What a child does is \<open>handle_request\<close> of \<open>Web_Server\<close>.
\<close>

record web_procs =
  wp_running :: "nat set" \<comment> \<open>the children, by the number of their connection\<close>
  wp_zombies :: nat
  wp_chld :: bool \<comment> \<open>SIGCHLD is pending\<close>
  wp_next :: nat
  wp_dropped :: "nat set" \<comment> \<open>connections closed without a child\<close>

definition wp_start :: web_procs where
  "wp_start = \<lparr>wp_running = {}, wp_zombies = 0, wp_chld = False, wp_next = 0, wp_dropped = {}\<rparr>"

text \<open>\<^verbatim>\<open>accept\<close> gave a connection and \<^verbatim>\<open>fork\<close> a child or not; the parent closes the
  connection in both cases.  A failed \<^verbatim>\<open>accept\<close> only goes round.\<close>

definition on_accept :: "bool \<Rightarrow> web_procs \<Rightarrow> web_procs" where
  "on_accept fork_ok s =
     (let n = wp_next s; s = s\<lparr>wp_next := Suc n\<rparr> in
      if fork_ok then s\<lparr>wp_running := insert n (wp_running s)\<rparr> else s\<lparr>wp_dropped := insert n (wp_dropped s)\<rparr>)"

text \<open>\<^verbatim>\<open>read_childproc\<close>: one call of \<^verbatim>\<open>waitpid\<close> that does not wait.\<close>

definition read_childproc :: "web_procs \<Rightarrow> web_procs" where
  "read_childproc s = s\<lparr>wp_zombies := wp_zombies s - 1\<rparr>"

datatype wp_event = Accepted bool | Accept_Fails | Exits nat | Sigchld

fun wp_exec :: "wp_event \<Rightarrow> web_procs \<Rightarrow> web_procs" where
  "wp_exec (Accepted ok) s = on_accept ok s"
| "wp_exec Accept_Fails s = s"
| "wp_exec (Exits n) s =
     (if n \<in> wp_running s
      then s\<lparr>wp_running := wp_running s - {n}, wp_zombies := Suc (wp_zombies s), wp_chld := True\<rparr>
      else s)"
| "wp_exec Sigchld s = (if wp_chld s then read_childproc (s\<lparr>wp_chld := False\<rparr>) else s)"

definition wp_run :: "wp_event list \<Rightarrow> web_procs \<Rightarrow> web_procs" where
  "wp_run es s = fold wp_exec es s"

text \<open>A run in which each exit's signal is delivered before the next child exits.\<close>

fun prompt :: "bool \<Rightarrow> wp_event list \<Rightarrow> bool" where
  "prompt owed [] = (\<not> owed)"
| "prompt owed (Exits n # es) = (\<not> owed \<and> prompt True es)"
| "prompt owed (Sigchld # es) = prompt False es"
| "prompt owed (e # es) = prompt owed es"

lemma prompt_zombies:
  "prompt owed es \<Longrightarrow> wp_zombies s = of_bool (wp_chld s) \<Longrightarrow> wp_chld s \<Longrightarrow> owed
    \<Longrightarrow> wp_zombies (wp_run es s) = 0 \<and> \<not> wp_chld (wp_run es s)"
  "prompt owed es \<Longrightarrow> wp_zombies s = 0 \<Longrightarrow> \<not> wp_chld s
    \<Longrightarrow> wp_zombies (wp_run es s) = 0 \<and> \<not> wp_chld (wp_run es s)"
proof (induction owed es arbitrary: s rule: prompt.induct)
  case (2 owed n es)
  {
    case 1
    then show ?case by simp
  next
    case 2
    then show ?case
      using "2.IH"(1) [of "wp_exec (Exits n) s"] "2.IH"(2) [of "wp_exec (Exits n) s"]
      by (cases "n \<in> wp_running s") (simp_all add: wp_run_def)
  }
next
  case (3 owed es)
  {
    case 1
    then show ?case using "3.IH"(2) [of "wp_exec Sigchld s"] by (simp add: wp_run_def read_childproc_def)
  next
    case 2
    then show ?case using "3.IH"(2) [of "wp_exec Sigchld s"] by (simp add: wp_run_def)
  }
qed (auto simp: wp_run_def on_accept_def Let_def)

text \<open>A connection has a running child or was dropped, not both, and while a signal is pending
  there is a zombie.\<close>

definition wp_ok :: "web_procs \<Rightarrow> bool" where
  "wp_ok s \<longleftrightarrow> wp_running s \<union> wp_dropped s \<subseteq> {..<wp_next s} \<and> wp_running s \<inter> wp_dropped s = {}
     \<and> (wp_chld s \<longrightarrow> 0 < wp_zombies s)"

lemma wp_exec_ok: "wp_ok s \<Longrightarrow> wp_ok (wp_exec e s)"
  by (cases e) (auto simp: wp_ok_def on_accept_def read_childproc_def Let_def)

interpretation web_processes: inductive_invariant "\<lambda>s. s = wp_start" "\<lambda>s t. \<exists>e. t = wp_exec e s" wp_ok
  by unfold_locales (simp add: wp_ok_def wp_start_def, auto intro: wp_exec_ok)

fun idle_event :: "wp_event \<Rightarrow> bool" where
  "idle_event (Exits n) = False"
| "idle_event (Accepted ok) = True"
| "idle_event Accept_Fails = True"
| "idle_event Sigchld = True"

definition two_exits :: "wp_event list" where
  "two_exits = [Accepted True, Accepted True, Exits 0, Exits 1, Sigchld]"

text \<open>
  Zombies: if every exit's signal is delivered before the next child exits,
  the handler leaves no zombie, but when two children exit before the delivery their signals are
  one, and one zombie stays, for the rest of any run that has no further exit.
\<close>

lemma zombies_remain:
  "(prompt False es \<longrightarrow> wp_zombies (wp_run es wp_start) = 0)
   \<and> (list_all idle_event rest \<longrightarrow> wp_zombies (wp_run (two_exits @ rest) wp_start) = 1)"
proof -
  have keep: "wp_zombies (wp_run es s) = wp_zombies s \<and> \<not> wp_chld (wp_run es s)"
    if "list_all idle_event es" "\<not> wp_chld s" for es s
    using that
  proof (induction es arbitrary: s)
    case (Cons e es)
    have "wp_zombies (wp_exec e s) = wp_zombies s \<and> \<not> wp_chld (wp_exec e s)"
      using Cons.prems by (cases e) (auto simp: on_accept_def Let_def)
    with Cons.IH [of "wp_exec e s"] Cons.prems(1) show ?case by (simp add: wp_run_def)
  qed (simp add: wp_run_def)
  have "wp_run (two_exits @ rest) wp_start = wp_run rest (wp_run two_exits wp_start)"
    by (simp add: wp_run_def)
  moreover have "wp_zombies (wp_run two_exits wp_start) = 1 \<and> \<not> wp_chld (wp_run two_exits wp_start)"
    by (simp add: two_exits_def wp_run_def wp_start_def on_accept_def read_childproc_def)
  ultimately show ?thesis
    using keep [of rest "wp_run two_exits wp_start"] prompt_zombies(2) [of False es wp_start]
    by (simp add: wp_start_def)
qed

lemma zombies_remain_example:
  "wp_zombies (wp_run [Accepted True, Exits 0, Sigchld] wp_start) = 0
   \<and> wp_zombies (wp_run (two_exits @ [Accepted True, Sigchld]) wp_start) = 1"
  using zombies_remain [of "[Accepted True, Exits 0, Sigchld]" "[Accepted True, Sigchld]"] by simp

end
