(* ===== verification/Echo.thy ===== *)
theory Echo
  imports C_Prelude
begin

section \<open>The echo programs over TCP and UDP\<close>

text \<open>
  \<^verbatim>\<open>lab3/5\<close>: a server that sends back what it receives, a client that sends its argument and
  prints the answer, over TCP and over UDP.  What the sockets deliver is an input: an event
  of a server is one turn of its loop, with the peer's address as text and the results of
  \<^verbatim>\<open>accept\<close>, \<^verbatim>\<open>recv\<close> and \<^verbatim>\<open>send\<close>.  The setup of the server sockets is taken to have succeeded.
\<close>

definition MAXBUF :: nat where "MAXBUF = 100"

definition zeroed :: bytes where "zeroed = replicate MAXBUF NUL"

subsection \<open>The servers\<close>

datatype net_event =
    Accept_Fails
  | Recv_Fails bytes \<comment> \<open>the peer's address\<close>
  | Request bytes bytes bool \<comment> \<open>the peer's address, what was received, whether it can be answered\<close>

record echo_server =
  es_log :: "bytes list" \<comment> \<open>what was printed\<close>
  es_errors :: "bytes list" \<comment> \<open>what \<^verbatim>\<open>perror\<close> was called with\<close>
  es_sent :: "(bytes \<times> bytes) list" \<comment> \<open>the answers, with their receivers\<close>
  es_running :: bool

text \<open>The string in the zeroed buffer, of which \<^verbatim>\<open>strlen(buf)\<close> bytes are used, after what was
  received.\<close>

definition echo_of :: "bytes \<Rightarrow> bytes cres" where
  "echo_of d = read_cstr (fill zeroed d)"

definition tcp_server :: "net_event \<Rightarrow> echo_server \<Rightarrow> echo_server cres" where
  "tcp_server e s =
     (if \<not> es_running s then Inr s
      else case e of
        Accept_Fails \<Rightarrow> Inr (s\<lparr>es_errors := es_errors s @ [''accpet'']\<rparr>)
      | Recv_Fails a \<Rightarrow> Inr (s\<lparr>es_log := es_log s @ [''server: got connetion from '' @ a @ [NL]],
            es_errors := es_errors s @ [''recv''], es_running := False\<rparr>)
      | Request a d ok \<Rightarrow> cbind (echo_of d) (\<lambda>text.
          let t = s\<lparr>es_log := es_log s @ [''server: got connetion from '' @ a @ [NL]]\<rparr> in
          Inr (if ok then t\<lparr>es_sent := es_sent t @ [(a, text)]\<rparr>
               else t\<lparr>es_errors := es_errors t @ [''send''], es_running := False\<rparr>)))"

text \<open>There is no connection to accept; a failed \<^verbatim>\<open>recvfrom\<close> is reported before the log.\<close>

definition udp_server :: "net_event \<Rightarrow> echo_server \<Rightarrow> echo_server cres" where
  "udp_server e s =
     (if \<not> es_running s then Inr s
      else case e of
        Accept_Fails \<Rightarrow> Inr s
      | Recv_Fails a \<Rightarrow> Inr (s\<lparr>es_errors := es_errors s @ [''recv''], es_running := False\<rparr>)
      | Request a d ok \<Rightarrow> cbind (echo_of d) (\<lambda>text.
          let t = s\<lparr>es_log := es_log s @ [''server: got connection from '' @ a @ '' '' @ [NL]]\<rparr> in
          Inr (if ok then t\<lparr>es_sent := es_sent t @ [(a, text)]\<rparr>
               else t\<lparr>es_errors := es_errors t @ [''send''], es_running := False\<rparr>)))"

fun serve :: "(net_event \<Rightarrow> echo_server \<Rightarrow> echo_server cres) \<Rightarrow> net_event list \<Rightarrow> echo_server \<Rightarrow> echo_server cres" where
  "serve turn [] s = Inr s"
| "serve turn (e # es) s = cbind (turn e s) (\<lambda>t. serve turn es t)"

subsection \<open>The clients\<close>

record client_run =
  exit_code :: int
  client_out :: bytes
  client_err :: bytes
  client_sent :: "bytes option"

text \<open>The network as a client meets it: whether the socket and the connection are made, what
  \<^verbatim>\<open>send\<close> returns, and what \<^verbatim>\<open>recv\<close> delivers, if it does not fail.\<close>

record client_net =
  socket_ok :: bool
  connect_ok :: bool
  send_result :: "bytes \<Rightarrow> int"
  answer :: "bytes option"

text \<open>From the copy of the argument to the end.\<close>

definition exchange :: "bytes \<Rightarrow> bytes \<Rightarrow> client_net \<Rightarrow> client_run cres" where
  "exchange label arg net =
     cbind (store_cstr zeroed arg) (\<lambda>buf.
     let msg = cstr buf; len = int (length msg) in
     if send_result net msg \<noteq> len
     then Inr \<lparr>exit_code = 1, client_out = [], client_err = ''send failed '' @ [NL], client_sent = Some msg\<rparr>
     else case answer net of
         None \<Rightarrow> Inr \<lparr>exit_code = 1, client_out = [], client_err = ''recv'', client_sent = Some msg\<rparr>
       | Some d \<Rightarrow> cbind (echo_of d) (\<lambda>text.
           Inr \<lparr>exit_code = 0, client_out = label @ text @ [NL], client_err = [], client_sent = Some msg\<rparr>))"

definition tcp_client :: "bytes list \<Rightarrow> client_net \<Rightarrow> client_run cres" where
  "tcp_client argv net =
     (let failed = (\<lambda>m. Inr \<lparr>exit_code = 1, client_out = [], client_err = m, client_sent = None\<rparr>) in
      if length argv \<noteq> 3 then failed (''usage: tcp_client <SERVER IP> <ECHO STRING> '' @ [NL])
      else if \<not> socket_ok net then failed ''socket''
      else if \<not> connect_ok net then failed ''connect''
      else exchange ''Received: '' (argv ! 2) net)"

definition udp_client :: "bytes list \<Rightarrow> client_net \<Rightarrow> client_run cres" where
  "udp_client argv net =
     (let failed = (\<lambda>m. Inr \<lparr>exit_code = 1, client_out = [], client_err = m, client_sent = None\<rparr>) in
      if length argv \<noteq> 3 then failed (''usage: udp_client <SERVER IP> <ECHO STRING> '' @ [NL])
      else if \<not> socket_ok net then failed ''socket''
      else exchange ''received: '' (argv ! 2) net)"

subsection \<open>One exchange\<close>

lemma terminated_zeroed: "terminated (fill zeroed d) \<longleftrightarrow> NUL \<in> set d \<or> length d < MAXBUF"
  by (auto simp: terminated_def fill_def zeroed_def)

lemma cstr_append_zeros: "cstr (d @ replicate n NUL) = cstr d"
  by (induction d; cases n) auto

lemma echo_of_eq:
  "echo_of d = (if NUL \<in> set d \<or> length d < MAXBUF then Inr (cstr d) else Inl Out_Of_Bounds)"
  by (simp add: echo_of_def read_cstr_def terminated_zeroed) (simp add: fill_def zeroed_def cstr_append_zeros)

lemma exchange_eq:
  assumes "NUL \<notin> set arg"
  shows "exchange label arg net =
    (if MAXBUF \<le> length arg then Inl Out_Of_Bounds
     else if send_result net arg \<noteq> int (length arg)
     then Inr \<lparr>exit_code = 1, client_out = [], client_err = ''send failed '' @ [NL], client_sent = Some arg\<rparr>
     else case answer net of
         None \<Rightarrow> Inr \<lparr>exit_code = 1, client_out = [], client_err = ''recv'', client_sent = Some arg\<rparr>
       | Some d \<Rightarrow> cbind (echo_of d) (\<lambda>text.
           Inr \<lparr>exit_code = 0, client_out = label @ text @ [NL], client_err = [], client_sent = Some arg\<rparr>))"
proof (cases "length arg < MAXBUF")
  case True
  then obtain buf where "store_cstr zeroed arg = Inr buf" "cstr buf = arg"
    using cstr_terminator [OF assms] by (auto simp: store_cstr_def zeroed_def)
  with True show ?thesis by (simp add: exchange_def)
qed (simp add: exchange_def store_cstr_def zeroed_def)

text \<open>
  Property C31.  The echo: when a client's argument of fewer than 100 bytes reaches a
  server whole, the server sends the same bytes back to that client, and the client that
  receives them whole prints exactly its argument; over TCP and over UDP alike.  A longer
  argument overruns the client's buffer.
\<close>

theorem echo_roundtrip:
  assumes "NUL \<notin> set arg" and "es_running s" and "turn \<in> {tcp_server, udp_server}"
    and "socket_ok net" and "connect_ok net" and "\<forall>m. send_result net m = int (length m)" and "answer net = Some arg"
  shows "if length arg < MAXBUF
    then (\<exists>t. serve turn [Request a arg True] s = Inr t \<and> es_sent t = es_sent s @ [(a, arg)] \<and> es_running t)
      \<and> map_sum (\<lambda>e. e) client_out (tcp_client [c, ip, arg] net) = Inr (''Received: '' @ arg @ [NL])
      \<and> map_sum (\<lambda>e. e) client_out (udp_client [c, ip, arg] net) = Inr (''received: '' @ arg @ [NL])
    else tcp_client [c, ip, arg] net = Inl Out_Of_Bounds \<and> udp_client [c, ip, arg] net = Inl Out_Of_Bounds"
proof (cases "length arg < MAXBUF")
  case True
  then have e: "echo_of arg = Inr arg" using assms(1) by (simp add: echo_of_eq cstr_no_nul)
  then have "\<exists>t. serve turn [Request a arg True] s = Inr t \<and> es_sent t = es_sent s @ [(a, arg)] \<and> es_running t"
    using assms(2,3) by (auto simp: tcp_server_def udp_server_def Let_def)
  with True e assms show ?thesis
    by (simp add: tcp_client_def udp_client_def exchange_eq)
next
  case False
  with assms show ?thesis by (simp add: tcp_client_def udp_client_def exchange_eq)
qed

theorem echo_roundtrip_witness:
  "map_sum (\<lambda>e. e) client_out (tcp_client [''tcp_client'', ''127.0.0.1'', ''hello'']
     \<lparr>socket_ok = True, connect_ok = True, send_result = (\<lambda>m. int (length m)), answer = Some ''hello''\<rparr>)
   = Inr (''Received: hello'' @ [NL])"
  using echo_roundtrip [of "''hello''" "\<lparr>es_log = [], es_errors = [], es_sent = [], es_running = True\<rparr>" tcp_server
      "\<lparr>socket_ok = True, connect_ok = True, send_result = (\<lambda>m. int (length m)), answer = Some ''hello''\<rparr>"
      "[]" "''tcp_client''" "''127.0.0.1''"]
  by (simp add: MAXBUF_def)

text \<open>
  A server takes a request without fault exactly when it has a NUL or is
  shorter than the buffer: 100 bytes without one leave the buffer without a terminator, and
  \<^verbatim>\<open>strlen\<close> reads past it.  A peer whose \<^verbatim>\<open>recv\<close> or \<^verbatim>\<open>send\<close> fails ends the server for
  every other client.
\<close>

lemma echo_server_bounds:
  assumes "es_running s" and "turn \<in> {tcp_server, udp_server}"
  shows "(c_ok (turn (Request a d ok) s) \<longleftrightarrow> NUL \<in> set d \<or> length d < MAXBUF)
    \<and> (\<exists>t. turn (Recv_Fails a) s = Inr t \<and> serve turn es t = Inr t)
    \<and> (length d < MAXBUF \<longrightarrow> (\<exists>t. turn (Request a d False) s = Inr t \<and> serve turn es t = Inr t))"
proof -
  have stopped: "serve turn es t = Inr t" if "\<not> es_running t" for t
    using assms(2) that by (induction es) (auto simp: tcp_server_def udp_server_def)
  have "c_ok (turn (Request a d ok) s) \<longleftrightarrow> NUL \<in> set d \<or> length d < MAXBUF"
  proof (cases "NUL \<in> set d \<or> length d < MAXBUF")
    case True
    then have "echo_of d = Inr (cstr d)" by (simp add: echo_of_eq)
    with True assms show ?thesis by (auto simp: tcp_server_def udp_server_def Let_def)
  next
    case False
    then have "echo_of d = Inl Out_Of_Bounds" by (simp add: echo_of_eq)
    with False assms show ?thesis by (auto simp: tcp_server_def udp_server_def)
  qed
  moreover have "\<exists>t. turn (Recv_Fails a) s = Inr t \<and> \<not> es_running t"
    using assms by (auto simp: tcp_server_def udp_server_def)
  moreover have "\<exists>t. turn (Request a d False) s = Inr t \<and> \<not> es_running t" if "length d < MAXBUF"
  proof -
    have "echo_of d = Inr (cstr d)" using that by (simp add: echo_of_eq)
    with assms show ?thesis by (auto simp: tcp_server_def udp_server_def Let_def)
  qed
  ultimately show ?thesis using stopped by blast
qed

lemma echo_server_bounds_example:
  "\<not> c_ok (tcp_server (Request [] (replicate MAXBUF (CHR ''a'')) True)
      \<lparr>es_log = [], es_errors = [], es_sent = [], es_running = True\<rparr>)"
  using echo_server_bounds [of "\<lparr>es_log = [], es_errors = [], es_sent = [], es_running = True\<rparr>" tcp_server
      "[]" "replicate MAXBUF (CHR ''a'')" True "[]"]
  by simp

subsection \<open>Sessions\<close>

text \<open>What both servers promise: a request that fits is answered to its sender and the server
  goes on; a failed \<^verbatim>\<open>recv\<close> ends it, and then nothing happens any more.\<close>

locale echo_service =
  fixes turn :: "net_event \<Rightarrow> echo_server \<Rightarrow> echo_server cres"
  assumes answers: "es_running s \<Longrightarrow> NUL \<notin> set d \<Longrightarrow> length d < MAXBUF
      \<Longrightarrow> \<exists>t. turn (Request a d True) s = Inr t \<and> es_sent t = es_sent s @ [(a, d)] \<and> es_running t"
    and stops: "es_running s \<Longrightarrow> \<exists>t. turn (Recv_Fails a) s = Inr t \<and> es_sent t = es_sent s \<and> \<not> es_running t"
    and stopped: "\<not> es_running s \<Longrightarrow> turn e s = Inr s"
begin

lemma serve_stopped: "\<not> es_running s \<Longrightarrow> serve turn es s = Inr s"
  by (induction es) (auto simp: stopped)

lemma serve_append: "serve turn (es @ es') s = cbind (serve turn es s) (serve turn es')"
proof (induction es arbitrary: s)
  case (Cons e es)
  then show ?case by (cases "turn e s") auto
qed simp

lemma session_answers:
  assumes "\<forall>(a, d) \<in> set rs. NUL \<notin> set d \<and> length d < MAXBUF" "es_running s"
  shows "\<exists>t. serve turn (map (\<lambda>(a, d). Request a d True) rs) s = Inr t \<and> es_sent t = es_sent s @ rs \<and> es_running t"
  using assms
proof (induction rs arbitrary: s)
  case (Cons r rs)
  obtain a d where r: "r = (a, d)" by (cases r)
  with Cons.prems obtain u where u: "turn (Request a d True) s = Inr u" "es_sent u = es_sent s @ [(a, d)]" "es_running u"
    using answers [of s d a] by auto
  with Cons.IH [of u] Cons.prems(1) r show ?case by auto
qed auto

lemma session_until_failure:
  assumes "\<forall>(a, d) \<in> set rs. NUL \<notin> set d \<and> length d < MAXBUF" "es_running s"
  shows "\<exists>t. serve turn (map (\<lambda>(a, d). Request a d True) rs @ Recv_Fails b # es) s = Inr t
    \<and> es_sent t = es_sent s @ rs \<and> \<not> es_running t"
proof -
  obtain u where u: "serve turn (map (\<lambda>(a, d). Request a d True) rs) s = Inr u" "es_sent u = es_sent s @ rs" "es_running u"
    using session_answers [OF assms] by blast
  obtain t where "turn (Recv_Fails b) u = Inr t" "es_sent t = es_sent u" "\<not> es_running t"
    using stops [OF u(3)] by blast
  with u show ?thesis by (simp add: serve_append serve_stopped)
qed

end

interpretation tcp_echo: echo_service tcp_server
  by unfold_locales (auto simp: tcp_server_def echo_of_eq cstr_no_nul Let_def)

interpretation udp_echo: echo_service udp_server
  by unfold_locales (auto simp: udp_server_def echo_of_eq cstr_no_nul Let_def)

text \<open>
  A session of an echo server: every request of fewer than 100 bytes without
  NUL is answered with its own bytes to its own sender, in the order of arrival, until the
  first \<^verbatim>\<open>recv\<close> fails; whatever clients come after that is not answered, over TCP and over
  UDP alike.
\<close>

lemma echo_session:
  assumes "\<forall>(a, d) \<in> set rs. NUL \<notin> set d \<and> length d < MAXBUF" and "es_running s"
    and "turn \<in> {tcp_server, udp_server}"
  shows "(\<exists>t. serve turn (map (\<lambda>(a, d). Request a d True) rs) s = Inr t \<and> es_sent t = es_sent s @ rs \<and> es_running t)
    \<and> (\<exists>t. serve turn (map (\<lambda>(a, d). Request a d True) rs @ Recv_Fails b # es) s = Inr t
         \<and> es_sent t = es_sent s @ rs \<and> \<not> es_running t)"
  using assms(3) tcp_echo.session_answers [OF assms(1,2)] udp_echo.session_answers [OF assms(1,2)]
    tcp_echo.session_until_failure [OF assms(1,2)] udp_echo.session_until_failure [OF assms(1,2)] by auto

lemma echo_session_example:
  "\<exists>t. serve udp_server [Request ''a'' ''one'' True, Request ''b'' ''two'' True, Recv_Fails ''c'', Request ''a'' ''three'' True]
       \<lparr>es_log = [], es_errors = [], es_sent = [], es_running = True\<rparr> = Inr t
     \<and> es_sent t = [(''a'', ''one''), (''b'', ''two'')] \<and> \<not> es_running t"
proof -
  have "\<forall>(a, d) \<in> set [(''a'', ''one''), (''b'', ''two'')]. NUL \<notin> set d \<and> length d < MAXBUF"
    by (simp add: MAXBUF_def)
  from echo_session [OF this, of "\<lparr>es_log = [], es_errors = [], es_sent = [], es_running = True\<rparr>" udp_server
      "''c''" "[Request ''a'' ''three'' True]"]
  show ?thesis by auto
qed

end
