(* ===== verification/Net_Start.thy ===== *)
theory Net_Start
  imports Chat_Server Select_Server Web_Processes Echo "HOL-Library.Word"
begin

section \<open>The start of the network programs\<close>

text \<open>
  What the servers and clients of \<^verbatim>\<open>project2\<close> and \<^verbatim>\<open>lab3/5\<close> to \<^verbatim>\<open>lab3/7\<close> do before
  their loops: arguments, the socket, the address, \<^verbatim>\<open>bind\<close>, \<^verbatim>\<open>listen\<close> or
  \<^verbatim>\<open>connect\<close>.  The results of the system calls are inputs.  A program ends with an exit code and
  what it wrote, or is ready with a descriptor and its address.  Of a
  \<^verbatim>\<open>perror\<close> the text it was given is recorded.
\<close>

unbundle bit_operations_syntax

subsection \<open>Ports\<close>

text \<open>\<^verbatim>\<open>htons\<close> on a little-endian machine swaps the bytes of a 16-bit word; an \<^verbatim>\<open>int\<close>
  argument is converted modulo 65536.\<close>

definition htons :: "16 word \<Rightarrow> 16 word" where
  "htons w = push_bit 8 w OR drop_bit 8 w"

definition sin_port :: "int \<Rightarrow> 16 word" where
  "sin_port port = htons (word_of_int port)"

text \<open>The two bytes of the field as they lie in memory and go over the wire.\<close>

definition wire_bytes :: "16 word \<Rightarrow> nat list" where
  "wire_bytes w = [unat (take_bit 8 w), unat (drop_bit 8 w)]"

lemma htons_htons: "htons (htons w) = w"
  by (rule bit_word_eqI) (auto simp: htons_def bit_simps)

lemma htons_inj: "htons v = htons w \<longleftrightarrow> v = w"
  by (metis htons_htons)

lemma sin_port_eq: "sin_port a = sin_port b \<longleftrightarrow> a mod 65536 = b mod 65536"
proof -
  have "sin_port a = sin_port b \<longleftrightarrow> (word_of_int a :: 16 word) = word_of_int b"
    by (simp add: sin_port_def htons_inj)
  also have "\<dots> \<longleftrightarrow> a mod 65536 = b mod 65536"
    by (simp add: word_of_int_eq_iff take_bit_eq_mod)
  finally show ?thesis .
qed

text \<open>A port is sent with its high byte first.\<close>

lemma sin_port_wire:
  assumes "0 \<le> p" "p < 65536"
  shows "wire_bytes (sin_port p) = [nat (p div 256), nat (p mod 256)]"
proof -
  have "uint (word_of_int p :: 16 word) = p" using assms by (simp add: uint_word_of_int take_bit_eq_mod)
  then have u: "unat (word_of_int p :: 16 word) = nat p" by (simp add: unat_eq_nat_uint)
  have lo: "take_bit 8 (htons w) = drop_bit 8 w" and hi: "drop_bit 8 (htons w) = take_bit 8 w" for w :: "16 word"
    by (rule bit_word_eqI; auto simp: htons_def bit_simps dest: bit_imp_le_length)+
  have "unat (drop_bit 8 (word_of_int p :: 16 word)) = nat (p div 256)"
    unfolding unat_drop_bit_eq u using assms by (simp add: drop_bit_eq_div nat_div_distrib)
  moreover have "unat (take_bit 8 (word_of_int p :: 16 word)) = nat (p mod 256)"
    unfolding unsigned_take_bit_eq u using assms by (simp add: take_bit_eq_mod nat_mod_distrib)
  ultimately show ?thesis by (simp add: wire_bytes_def sin_port_def lo hi)
qed

subsection \<open>Starting\<close>

record net =
  n_socket :: int \<comment> \<open>what \<^verbatim>\<open>socket\<close> returns\<close>
  n_bind :: bool
  n_listen :: bool
  n_connect :: bool

text \<open>The address that \<^verbatim>\<open>bind\<close> or \<^verbatim>\<open>connect\<close> is given; \<^verbatim>\<open>inet_addr\<close> is the
  parameter \<open>inet\<close>, and its result is used as it is.\<close>

record sockaddr_in =
  s_family :: int
  s_addr :: "32 word"
  s_port :: "16 word"

definition AF_INET :: int where "AF_INET = 2"

definition server_addr :: "int \<Rightarrow> sockaddr_in" where
  "server_addr port = \<lparr>s_family = AF_INET, s_addr = 0, s_port = sin_port port\<rparr>"

datatype startup = Stopped int bytes bytes | Started int sockaddr_in bytes

definition srv_usage :: bytes where
  "srv_usage = map char_of [236, 130, 172, 236, 154, 169, 235, 178, 149, 32, 58, 32 :: nat]"

definition srv_started :: bytes where
  "srv_started = map char_of [62, 62, 62, 32, 236, 132, 156, 235, 178, 132, 32, 236, 139, 156, 236, 158, 145,
     235, 144, 168, 32, 46, 46, 46, 10 :: nat]"

definition sel_started_1 :: bytes where
  "sel_started_1 = map char_of [236, 177, 132, 237, 140, 133, 32, 236, 132, 156, 235, 178, 132, 234, 176, 128, 32,
     236, 139, 156, 236, 158, 145, 235, 144, 152, 236, 151, 136, 236, 138, 181, 235,
     139, 136, 235, 139, 164, 32, 40, 80, 111, 114, 116, 58, 32 :: nat]"

definition sel_connected :: bytes where
  "sel_connected = map char_of [236, 132, 156, 235, 178, 132, 236, 151, 144, 32, 236, 151, 176, 234, 178, 176,
     235, 144, 152, 236, 151, 136, 236, 138, 181, 235, 139, 136, 235, 139, 164, 46, 10 :: nat]"

text \<open>\<^verbatim>\<open>gui_server.c\<close>; \<^verbatim>\<open>error_handling\<close> writes its text and a newline.\<close>

definition error_handling :: "bytes \<Rightarrow> startup" where
  "error_handling msg = Stopped 1 [] (msg @ [NL])"

definition gui_server_start :: "bytes list \<Rightarrow> net \<Rightarrow> startup cres" where
  "gui_server_start argv n =
     (if length argv \<noteq> 2 then Inr (Stopped 1 (srv_usage @ hd argv @ '' <port>'' @ [NL]) [])
      else cbind (atoi (argv ! 1)) (\<lambda>port.
        Inr (if \<not> n_bind n then error_handling ''bind() error''
             else if \<not> n_listen n then error_handling ''listen() error''
             else Started (n_socket n) (server_addr port) srv_started)))"

text \<open>\<^verbatim>\<open>connect_to_server\<close> of \<^verbatim>\<open>gui_client.c\<close>: what it returns, the address it tried, and
  the descriptors left open.\<close>

definition client_addr :: "(bytes \<Rightarrow> 32 word) \<Rightarrow> bytes \<Rightarrow> int \<Rightarrow> sockaddr_in" where
  "client_addr inet ip port = \<lparr>s_family = AF_INET, s_addr = inet ip, s_port = sin_port port\<rparr>"

definition connect_to_server :: "(bytes \<Rightarrow> 32 word) \<Rightarrow> bytes \<Rightarrow> int \<Rightarrow> net \<Rightarrow> int \<times> sockaddr_in \<times> int list" where
  "connect_to_server inet ip port n =
     (if \<not> n_connect n then -1 else n_socket n, client_addr inet (cstr ip) port, [n_socket n])"

text \<open>The chat of \<^verbatim>\<open>lab3/6\<close>.\<close>

definition SEL_PORT :: int where "SEL_PORT = 9090"

definition chat_server_start :: "net \<Rightarrow> startup" where
  "chat_server_start n =
     (if \<not> n_bind n then Stopped 1 [] ''bind() error''
      else if \<not> n_listen n then Stopped 1 [] ''listen() error''
      else Started (n_socket n) (server_addr SEL_PORT) (sel_started_1 @ show_int SEL_PORT @ '')...'' @ [NL]))"

definition chat_client_start :: "(bytes \<Rightarrow> 32 word) \<Rightarrow> bytes list \<Rightarrow> net \<Rightarrow> startup cres" where
  "chat_client_start inet argv n =
     (if length argv \<noteq> 3 then Inr (Stopped 1 (''Usage : '' @ hd argv @ '' <IP> <port>'' @ [NL]) [])
      else cbind (atoi (argv ! 2)) (\<lambda>port.
        Inr (if \<not> n_connect n then Stopped 1 [] ''connect() error''
             else Started (n_socket n) (client_addr inet (argv ! 1) port) sel_connected)))"

text \<open>The web server.\<close>

definition WEB_PORT :: int where "WEB_PORT = 9190"

definition cgi_server_start :: "net \<Rightarrow> startup" where
  "cgi_server_start n =
     (if \<not> n_bind n then Stopped 1 [] ''bind() error''
      else if \<not> n_listen n then Stopped 1 [] ''listen() error''
      else Started (n_socket n) (server_addr WEB_PORT)
        (''Simple Web Server started on port '' @ show_int WEB_PORT @ ''...'' @ [NL]))"

text \<open>The echo servers; there is nothing to listen to over UDP.\<close>

definition MYPORT :: int where "MYPORT = 3490"

definition UDP_PORT :: int where "UDP_PORT = 5000"

definition tcp_server_start :: "net \<Rightarrow> startup" where
  "tcp_server_start n =
     (if n_socket n = -1 then Stopped 1 [] ''socket''
      else if \<not> n_bind n then Stopped 1 [] ''bind''
      else if \<not> n_listen n then Stopped 1 [] ''listen''
      else Started (n_socket n) (server_addr MYPORT) [])"

definition udp_server_start :: "net \<Rightarrow> startup" where
  "udp_server_start n =
     (if n_socket n = -1 then Stopped 1 [] ''socket''
      else if \<not> n_bind n then Stopped 1 [] ''bind''
      else Started (n_socket n) (server_addr UDP_PORT) [])"

subsection \<open>The programs from their start\<close>

definition chat_server_main :: "net \<Rightarrow> bytes \<Rightarrow> wake list \<Rightarrow> (startup + select_server) cres" where
  "chat_server_main n buf ws = (case chat_server_start n of
      Started sk port printed \<Rightarrow>
        cbind (fd_set sk {}) (\<lambda>_. cbind (select_loop ws (select_init sk buf)) (\<lambda>t. Inr (Inr t)))
    | s \<Rightarrow> Inr (Inl s))"

text \<open>The chat's client watches the keyboard and its socket until one of its loop's exits; the
  socket is closed when it ends.\<close>

definition chat_client_main ::
  "(bytes \<Rightarrow> 32 word) \<Rightarrow> bytes list \<Rightarrow> net \<Rightarrow> bytes \<Rightarrow> bytes \<Rightarrow> (arrival option \<times> bool) list
    \<Rightarrow> (startup + chat_client) cres" where
  "chat_client_main inet argv n buf input ts =
     cbind (chat_client_start inet argv n) (\<lambda>st. case st of
       Started sk addr printed \<Rightarrow>
         cbind (fd_set 0 {}) (\<lambda>fds. cbind (fd_set sk fds) (\<lambda>fds.
         cbind (client_turns ts \<lparr>cl_buf = buf, stdin = input, shown = [printed], cl_sent = [], running = True\<rparr>)
           (\<lambda>t. Inr (Inr t))))
     | _ \<Rightarrow> Inr (Inl st))"

text \<open>The web server installs \<^verbatim>\<open>read_childproc\<close> for SIGCHLD before anything else, without
  \<^verbatim>\<open>SA_RESTART\<close>: a signal may make \<^verbatim>\<open>accept\<close> fail, and the loop then goes round.\<close>

definition cgi_server_main :: "net \<Rightarrow> wp_event list \<Rightarrow> startup + web_procs" where
  "cgi_server_main n es = (case cgi_server_start n of
      Started sk addr printed \<Rightarrow> Inr (wp_run es wp_start)
    | st \<Rightarrow> Inl st)"

subsection \<open>Client and server meet\<close>

text \<open>
  Property C34.  Ports: the messenger's server binds, and the messenger's and the chat's clients
  connect to, the port of their argument modulo 65536, sent with the high byte first; server
  and client meet exactly when their numbers agree modulo 65536, so that a number out of the
  range of ports is taken for another port and not refused.
\<close>

theorem ports_meet:
  assumes "- (2 ^ 31) \<le> a" and "a < 2 ^ 31" and "- (2 ^ 31) \<le> b" and "b < 2 ^ 31"
    and "n_bind n" and "n_listen n" and "n_connect k"
  shows "\<exists>pa pb out1 out2. gui_server_start [c, show_int a] n = Inr (Started (n_socket n) pa out1)
    \<and> chat_client_start inet [c', ip, show_int b] k = Inr (Started (n_socket k) pb out2)
    \<and> snd (connect_to_server inet ip b k) = (client_addr inet (cstr ip) b, [n_socket k])
    \<and> wire_bytes (s_port pa) = [nat (a mod 65536 div 256), nat (a mod 65536 mod 256)]
    \<and> (s_port pa = s_port pb \<longleftrightarrow> a mod 65536 = b mod 65536)
    \<and> s_port (client_addr inet (cstr ip) b) = s_port pb"
proof -
  have "sin_port a = sin_port (a mod 65536)" by (simp add: sin_port_eq)
  then have wire: "wire_bytes (sin_port a) = [nat (a mod 65536 div 256), nat (a mod 65536 mod 256)]"
    using sin_port_wire [of "a mod 65536"] by simp
  have "gui_server_start [c, show_int a] n = Inr (Started (n_socket n) (server_addr a) srv_started)"
    using assms by (simp add: gui_server_start_def atoi_show_int)
  moreover have "chat_client_start inet [c', ip, show_int b] k = Inr (Started (n_socket k) (client_addr inet ip b) sel_connected)"
    using assms by (simp add: chat_client_start_def atoi_show_int)
  moreover have "s_port (server_addr a) = sin_port a" "\<And>i. s_port (client_addr inet i b) = sin_port b"
    by (simp_all add: server_addr_def client_addr_def)
  ultimately show ?thesis
    using wire sin_port_eq [of a b]
    by (intro exI [of _ "server_addr a"] exI [of _ "client_addr inet ip b"]) (simp add: connect_to_server_def)
qed

definition all_well :: net where
  "all_well = \<lparr>n_socket = 3, n_bind = True, n_listen = True, n_connect = True\<rparr>"

theorem ports_meet_witness:
  "\<exists>pa pb out1 out2. gui_server_start [''gui_server'', show_int 9190] all_well = Inr (Started 3 pa out1)
     \<and> chat_client_start (\<lambda>_. 16777343) [''chat_client'', ''127.0.0.1'', show_int 74726] all_well = Inr (Started 3 pb out2)
     \<and> s_port pa = s_port pb \<and> wire_bytes (s_port pa) = [35, 230]"
  using ports_meet [of 9190 74726 all_well all_well "''gui_server''" "\<lambda>_. 16777343" "''chat_client''" "''127.0.0.1''"]
  by (auto simp: all_well_def)

text \<open>A client without a server: every failed attempt to connect leaves its descriptor open.\<close>

definition attempts :: "(bytes \<Rightarrow> 32 word) \<Rightarrow> bytes \<Rightarrow> int \<Rightarrow> net list \<Rightarrow> int list" where
  "attempts inet ip port ns = concat (map (\<lambda>n. case connect_to_server inet ip port n of
     (r, a, fds) \<Rightarrow> if r = -1 then fds else []) ns)"

lemma descriptors_leak:
  "\<forall>n \<in> set ns. \<not> n_connect n \<Longrightarrow> attempts inet ip port ns = map n_socket ns"
  by (induction ns) (auto simp: attempts_def connect_to_server_def)

text \<open>The select server from its start: a failed call stops it with exit code 1 before the
  loop, and otherwise no pass faults while the calls deliver what they promise.\<close>

lemma chat_server_main_safe:
  assumes "0 \<le> n_socket n" "n_socket n < FD_SETSIZE" "length buf = SEL_BUF" "\<forall>w \<in> set ws. benign_wake w"
  shows "if n_bind n \<and> n_listen n then \<exists>t. chat_server_main n buf ws = Inr (Inr t) \<and> select_wf t
    else \<exists>e. chat_server_main n buf ws = Inr (Inl (Stopped 1 [] e))"
  using select_loop_wf [OF select_init_wf [OF assms(1-3)] assms(4)] assms(1,2)
  by (auto simp: chat_server_main_def chat_server_start_def fd_set_def)

text \<open>The chat's client from its start: on a port in the argument, what is typed reaches the
  server's socket line by line, as long as the descriptor fits the set.\<close>

lemma chat_client_main_sends:
  assumes "- (2 ^ 31) \<le> a" "a < 2 ^ 31" "n_connect n" "\<forall>l \<in> set ls. chat_line l"
  shows "if 0 \<le> n_socket n \<and> n_socket n < FD_SETSIZE
    then \<exists>t. chat_client_main inet [c, ip, show_int a] n buf (concat (map (\<lambda>l. l @ [NL]) ls)) (replicate (length ls) (None, True))
          = Inr (Inr t) \<and> cl_sent t = map (\<lambda>l. l @ [NL]) ls \<and> running t
    else chat_client_main inet [c, ip, show_int a] n buf (concat (map (\<lambda>l. l @ [NL]) ls)) (replicate (length ls) (None, True))
          = Inl Out_Of_Bounds"
  using keyboard_turns [OF assms(4), of "\<lparr>cl_buf = buf, stdin = concat (map (\<lambda>l. l @ [NL]) ls), shown = [sel_connected],
      cl_sent = [], running = True\<rparr>" "[]"] assms(3)
  by (auto simp: chat_client_main_def chat_client_start_def atoi_show_int [OF assms(1,2)] fd_set_def FD_SETSIZE_def)

text \<open>The web server from its start: a failed call ends it, and otherwise it never ends; every
  connection has a child or is dropped.\<close>

lemma cgi_server_main_ok:
  "case cgi_server_main n es of
     Inl st \<Rightarrow> \<not> (n_bind n \<and> n_listen n) \<and> (\<exists>m. st = Stopped 1 [] m)
   | Inr s \<Rightarrow> n_bind n \<and> n_listen n \<and> wp_ok s"
proof -
  have "wp_ok (wp_run es s)" if "wp_ok s" for s
    using that wp_exec_ok by (induction es arbitrary: s) (simp_all add: wp_run_def)
  moreover have "wp_ok wp_start" by (simp add: wp_ok_def wp_start_def)
  ultimately show ?thesis by (simp add: cgi_server_main_def cgi_server_start_def)
qed

end
