(* ===== verification/Shared_Counter.thy ===== *)
theory Shared_Counter
  imports Transition "HOL-Library.Word"
begin

section \<open>A counter in a shared file mapping\<close>

text \<open>
  \<^verbatim>\<open>lab2/memorymapfile.c\<close> after its setup succeeded: the parent counts from 0 to 50 in the
  first eight bytes of a mapped file, the child prints every change it sees until it has
  seen 50.  Both guard their access with \<^verbatim>\<open>flock\<close> on the descriptor that \<^verbatim>\<open>fork\<close> duplicated;
  the two descriptors refer to one open file description, which owns the lock, so a call
  converts the lock instead of waiting for it.  A step is one process moving from one access
  or call to the next; the eight aligned bytes are loaded and stored as one.
\<close>

subsection \<open>The program\<close>

type_synonym u64 = "64 word"

definition COUNT_TO :: u64 where "COUNT_TO = 50"

datatype flock_mode = Unlocked | Lock_Shared | Lock_Exclusive

datatype reader =
    R_Lock \<comment> \<open>about to call \<^verbatim>\<open>flock(fd, LOCK_SH)\<close>\<close>
  | R_Load \<comment> \<open>about to load the counter\<close>
  | R_Unlock u64 \<comment> \<open>has loaded the value, about to unlock\<close>
  | R_Test u64 \<comment> \<open>about to compare it with the last one\<close>
  | R_Done

datatype writer =
    W_Start \<comment> \<open>about to clear the counter\<close>
  | W_Lock u64 \<comment> \<open>in turn \<open>i\<close> of the loop, about to call \<^verbatim>\<open>flock(fd, LOCK_EX)\<close>\<close>
  | W_Store u64 \<comment> \<open>about to store \<open>i\<close>\<close>
  | W_Unlock u64
  | W_Print u64 \<comment> \<open>about to print, if \<open>i\<close> is a multiple of 5, and to go on\<close>
  | W_Wait \<comment> \<open>in \<^verbatim>\<open>waitpid\<close>\<close>
  | W_Done

record shared =
  counter :: u64
  lock_mode :: flock_mode
  child :: reader
  parent :: writer
  last_seen :: u64 \<comment> \<open>the child's \<^verbatim>\<open>last\<close>\<close>
  observed :: "u64 list" \<comment> \<open>what the child printed\<close>
  wrote :: "u64 list" \<comment> \<open>what the parent printed\<close>

definition shared_init :: shared where
  "shared_init = \<lparr>counter = 0, lock_mode = Unlocked, child = R_Lock, parent = W_Start,
     last_seen = - 1, observed = [], wrote = []\<rparr>"

inductive reader_step :: "shared \<Rightarrow> shared \<Rightarrow> bool" where
  r_lock: "child s = R_Lock \<Longrightarrow> reader_step s (s\<lparr>child := R_Load, lock_mode := Lock_Shared\<rparr>)"
| r_load: "child s = R_Load \<Longrightarrow> reader_step s (s\<lparr>child := R_Unlock (counter s)\<rparr>)"
| r_unlock: "child s = R_Unlock v \<Longrightarrow> reader_step s (s\<lparr>child := R_Test v, lock_mode := Unlocked\<rparr>)"
| r_same: "child s = R_Test v \<Longrightarrow> v = last_seen s \<Longrightarrow> reader_step s (s\<lparr>child := R_Lock\<rparr>)"
| r_new: "child s = R_Test v \<Longrightarrow> v \<noteq> last_seen s \<Longrightarrow>
     reader_step s (s\<lparr>child := (if COUNT_TO \<le> v then R_Done else R_Lock),
       last_seen := v, observed := observed s @ [v]\<rparr>)"

inductive writer_step :: "shared \<Rightarrow> shared \<Rightarrow> bool" where
  w_clear: "parent s = W_Start \<Longrightarrow> writer_step s (s\<lparr>counter := 0, parent := W_Lock 0\<rparr>)"
| w_lock: "parent s = W_Lock i \<Longrightarrow> writer_step s (s\<lparr>parent := W_Store i, lock_mode := Lock_Exclusive\<rparr>)"
| w_store: "parent s = W_Store i \<Longrightarrow> writer_step s (s\<lparr>parent := W_Unlock i, counter := i\<rparr>)"
| w_unlock: "parent s = W_Unlock i \<Longrightarrow> writer_step s (s\<lparr>parent := W_Print i, lock_mode := Unlocked\<rparr>)"
| w_print: "parent s = W_Print i \<Longrightarrow>
     writer_step s (s\<lparr>wrote := (if i mod 5 = 0 then wrote s @ [i] else wrote s),
       parent := (if i + 1 \<le> COUNT_TO then W_Lock (i + 1) else W_Wait)\<rparr>)"
| w_wait: "parent s = W_Wait \<Longrightarrow> child s = R_Done \<Longrightarrow> writer_step s (s\<lparr>parent := W_Done\<rparr>)"

definition counter_step :: "shared \<Rightarrow> shared \<Rightarrow> bool" where
  "counter_step s t \<longleftrightarrow> reader_step s t \<or> writer_step s t"

inductive_cases reader_stepE: "reader_step s t"
inductive_cases writer_stepE: "writer_step s t"

subsection \<open>Invariant\<close>

text \<open>What the counter holds, by the parent's position.\<close>

fun counter_at :: "writer \<Rightarrow> u64" where
  "counter_at W_Start = 0"
| "counter_at (W_Lock i) = (if i = 0 then 0 else i - 1)"
| "counter_at (W_Store i) = (if i = 0 then 0 else i - 1)"
| "counter_at (W_Unlock i) = i"
| "counter_at (W_Print i) = i"
| "counter_at W_Wait = COUNT_TO"
| "counter_at W_Done = COUNT_TO"

fun turn_of :: "writer \<Rightarrow> u64" where
  "turn_of (W_Lock i) = i"
| "turn_of (W_Store i) = i"
| "turn_of (W_Unlock i) = i"
| "turn_of (W_Print i) = i"
| "turn_of _ = 0"

text \<open>The value the child has loaded and not yet compared.\<close>

fun in_hand :: "reader \<Rightarrow> u64 option" where
  "in_hand (R_Unlock v) = Some v"
| "in_hand (R_Test v) = Some v"
| "in_hand _ = None"

definition shared_ok :: "shared \<Rightarrow> bool" where
  "shared_ok s \<longleftrightarrow>
     counter s = counter_at (parent s) \<and> turn_of (parent s) \<le> COUNT_TO \<and>
     sorted_wrt (<) (observed s) \<and>
     last_seen s = (if observed s = [] then - 1 else last (observed s)) \<and>
     (\<forall>v \<in> set (observed s). v \<le> counter s) \<and>
     (\<forall>v. in_hand (child s) = Some v \<longrightarrow> v \<le> counter s \<and> (\<forall>x \<in> set (observed s). x \<le> v)) \<and>
     (child s = R_Done \<longleftrightarrow> observed s \<noteq> [] \<and> last (observed s) = COUNT_TO) \<and>
     (parent s = W_Done \<longrightarrow> child s = R_Done)"

lemma next_turn:
  assumes "i \<le> COUNT_TO"
  shows "i + 1 \<noteq> 0" and "\<not> i + 1 \<le> COUNT_TO \<Longrightarrow> i = COUNT_TO"
proof -
  show "i + 1 \<noteq> 0"
  proof
    assume "i + 1 = 0"
    then have "i = - 1" by (simp add: eq_neg_iff_add_eq_0)
    with assms have "COUNT_TO = - 1" by (simp add: word_order.extremum_unique)
    then show False by (simp add: COUNT_TO_def)
  qed
  show "i = COUNT_TO" if "\<not> i + 1 \<le> COUNT_TO"
    using assms that inc_le [of i COUNT_TO] by (meson order_less_le)
qed

lemma counter_before: "(if i = 0 then 0 else i - 1) \<le> (i :: u64)"
  using measure_unat [of i] by (auto simp: word_le_nat_alt)

lemma counter_at_bound: "turn_of w \<le> COUNT_TO \<Longrightarrow> counter_at w \<le> COUNT_TO"
  using counter_before [of "turn_of w"] by (cases w) (auto simp: COUNT_TO_def split: if_splits)

text \<open>In an increasing list the last element is the greatest.\<close>

lemma increasing_last: "sorted_wrt (<) xs \<Longrightarrow> x \<in> set xs \<Longrightarrow> x \<le> (last xs :: u64)"
  by (induction xs rule: rev_induct) (auto simp: sorted_wrt_append intro: less_imp_le)

lemma writer_keeps:
  assumes "writer_step s t" and "shared_ok s"
  shows "shared_ok t"
proof -
  have up: "shared_ok t"
    if "t = s\<lparr>counter := c, lock_mode := l, parent := w, wrote := x\<rparr>" and "counter s \<le> c"
      and "c = counter_at w" and "turn_of w \<le> COUNT_TO" and "w = W_Done \<longrightarrow> child s = R_Done" for c l w x
    using assms(2) that by (auto simp: shared_ok_def intro: order_trans)
  show ?thesis
    using assms(1)
  proof cases
    case w_clear
    then show ?thesis using assms(2)
      by (intro up [where c = 0 and l = "lock_mode s" and w = "W_Lock 0" and x = "wrote s"]) (auto simp: shared_ok_def COUNT_TO_def)
  next
    case (w_lock i)
    then show ?thesis using assms(2)
      by (intro up [where c = "counter s" and l = Lock_Exclusive and w = "W_Store i" and x = "wrote s"]) (auto simp: shared_ok_def)
  next
    case (w_store i)
    then show ?thesis using assms(2) counter_before [of i]
      by (intro up [where c = i and l = "lock_mode s" and w = "W_Unlock i" and x = "wrote s"]) (auto simp: shared_ok_def)
  next
    case (w_unlock i)
    then show ?thesis using assms(2)
      by (intro up [where c = "counter s" and l = Unlocked and w = "W_Print i" and x = "wrote s"]) (auto simp: shared_ok_def)
  next
    case (w_print i)
    then have i: "i \<le> COUNT_TO" "counter s = i" using assms(2) by (auto simp: shared_ok_def)
    show ?thesis using w_print i next_turn [OF i(1)]
      by (intro up [where c = "counter s" and l = "lock_mode s"
            and w = "if i + 1 \<le> COUNT_TO then W_Lock (i + 1) else W_Wait"
            and x = "if i mod 5 = 0 then wrote s @ [i] else wrote s"]) (auto simp: COUNT_TO_def)
  next
    case w_wait
    then show ?thesis using assms(2)
      by (intro up [where c = "counter s" and l = "lock_mode s" and w = W_Done and x = "wrote s"]) (auto simp: shared_ok_def COUNT_TO_def)
  qed
qed

lemma reader_keeps:
  assumes "reader_step s t" and "shared_ok s"
  shows "shared_ok t"
  using assms(1)
proof cases
  case (r_new v)
  have v: "v \<le> counter s" "\<forall>x \<in> set (observed s). x \<le> v" "v \<noteq> last_seen s"
    using r_new assms(2) by (auto simp: shared_ok_def)
  have "v \<le> COUNT_TO"
    using v(1) assms(2) counter_at_bound [of "parent s"] by (auto simp: shared_ok_def intro: order_trans)
  then have top: "COUNT_TO \<le> v \<longleftrightarrow> v = COUNT_TO" by auto
  have "x < v" if "x \<in> set (observed s)" for x
  proof -
    have "observed s \<noteq> []" using that by auto
    then have "last_seen s = last (observed s)" "last (observed s) \<le> v"
      using assms(2) v(2) by (auto simp: shared_ok_def)
    moreover have "x \<le> last (observed s)"
      using that assms(2) by (auto simp: shared_ok_def intro: increasing_last)
    ultimately show ?thesis using v(3) by (metis order.strict_trans1 order_less_le)
  qed
  with r_new v(1) top assms(2) show ?thesis
    by (auto simp: shared_ok_def sorted_wrt_append)
qed (use assms(2) in \<open>auto simp: shared_ok_def\<close>)

interpretation counting: inductive_invariant "\<lambda>s. s = shared_init" counter_step shared_ok
proof
  show "shared_ok s" if "s = shared_init" for s
    using that by (simp add: shared_ok_def shared_init_def COUNT_TO_def)
  show "shared_ok t" if "shared_ok s" "counter_step s t" for s t
    using that reader_keeps writer_keeps by (auto simp: counter_step_def)
qed

subsection \<open>What the parent reports\<close>

definition fives :: "nat \<Rightarrow> u64 list" where
  "fives n = map of_nat (filter (\<lambda>k. k mod 5 = 0) [0..<n])"

lemma fives_Suc: "fives (Suc n) = (if n mod 5 = 0 then fives n @ [of_nat n] else fives n)"
  by (simp add: fives_def)

fun turns_over :: "writer \<Rightarrow> nat" where
  "turns_over W_Wait = Suc (unat COUNT_TO)"
| "turns_over W_Done = Suc (unat COUNT_TO)"
| "turns_over w = unat (turn_of w)"

definition reports_ok :: "shared \<Rightarrow> bool" where
  "reports_ok s \<longleftrightarrow> turn_of (parent s) \<le> COUNT_TO \<and> wrote s = fives (turns_over (parent s))"

lemma unat_next: "i \<le> COUNT_TO \<Longrightarrow> unat (i + 1) = Suc (unat i)"
  using next_turn(1) [of i] unatSuc [of i] by (simp add: add.commute)

lemma five_unat: "i mod 5 = 0 \<longleftrightarrow> unat i mod 5 = 0" for i :: u64
  using unat_mod [of i 5] by (simp add: unat_0_iff [symmetric])

lemma reports_keep:
  assumes "counter_step s t" and "reports_ok s"
  shows "reports_ok t"
proof -
  have "reports_ok t" if "reader_step s t"
    using that assms(2) by cases (auto simp: reports_ok_def)
  moreover have "reports_ok t" if "writer_step s t"
    using that
  proof cases
    case (w_print i)
    then have i: "i \<le> COUNT_TO" "wrote s = fives (unat i)"
      using assms(2) by (auto simp: reports_ok_def)
    have "wrote t = fives (Suc (unat i))"
      using w_print i(2) by (simp add: fives_Suc five_unat)
    with w_print i(1) next_turn(2) [OF i(1)] show ?thesis
      by (auto simp: reports_ok_def unat_next COUNT_TO_def)
  qed (use assms(2) in \<open>auto simp: reports_ok_def COUNT_TO_def\<close>)
  ultimately show ?thesis using assms(1) by (auto simp: counter_step_def)
qed

interpretation reporting: inductive_invariant "\<lambda>s. s = shared_init" counter_step reports_ok
proof
  show "reports_ok s" if "s = shared_init" for s
    using that by (simp add: reports_ok_def shared_init_def fives_def COUNT_TO_def)
qed (rule reports_keep)

subsection \<open>Coming to an end\<close>

lemma steps_trans:
  "counter_step\<^sup>*\<^sup>* s t \<Longrightarrow> \<exists>u. counter_step\<^sup>*\<^sup>* t u \<and> P u \<Longrightarrow> \<exists>u. counter_step\<^sup>*\<^sup>* s u \<and> P u"
  by (meson rtranclp_trans)

lemma writer_then:
  "writer_step s t \<Longrightarrow> \<exists>u. counter_step\<^sup>*\<^sup>* t u \<and> P u \<Longrightarrow> \<exists>u. counter_step\<^sup>*\<^sup>* s u \<and> P u"
  by (meson counter_step_def converse_rtranclp_into_rtranclp)

lemma reader_then:
  "reader_step s t \<Longrightarrow> \<exists>u. counter_step\<^sup>*\<^sup>* t u \<and> P u \<Longrightarrow> \<exists>u. counter_step\<^sup>*\<^sup>* s u \<and> P u"
  by (meson counter_step_def converse_rtranclp_into_rtranclp)

lemma writer_finishes_lock:
  "parent s = W_Lock i \<Longrightarrow> i \<le> COUNT_TO \<Longrightarrow> \<exists>u. counter_step\<^sup>*\<^sup>* s u \<and> parent u = W_Wait"
proof (induction "unat COUNT_TO - unat i" arbitrary: i s rule: less_induct)
  case less
  let ?a = "s\<lparr>parent := W_Store i, lock_mode := Lock_Exclusive\<rparr>"
  let ?b = "?a\<lparr>parent := W_Unlock i, counter := i\<rparr>"
  let ?c = "?b\<lparr>parent := W_Print i, lock_mode := Unlocked\<rparr>"
  let ?d = "?c\<lparr>wrote := (if i mod 5 = 0 then wrote ?c @ [i] else wrote ?c),
       parent := (if i + 1 \<le> COUNT_TO then W_Lock (i + 1) else W_Wait)\<rparr>"
  have end_d: "\<exists>u. counter_step\<^sup>*\<^sup>* ?d u \<and> parent u = W_Wait"
  proof (cases "i + 1 \<le> COUNT_TO")
    case True
    have "unat COUNT_TO - unat (i + 1) < unat COUNT_TO - unat i"
      using True unat_next [OF less.prems(2)] by (simp add: word_le_nat_alt)
    then show ?thesis by (rule less.hyps) (use True in simp_all)
  next
    case False
    then show ?thesis by (intro exI [of _ ?d]) simp
  qed
  have a: "writer_step s ?a" using less.prems(1) by (intro w_lock)
  have b: "writer_step ?a ?b" by (rule w_store) simp
  have c: "writer_step ?b ?c" by (rule w_unlock) simp
  have d: "writer_step ?c ?d" by (rule w_print) simp
  show ?case
    by (rule writer_then [OF a], rule writer_then [OF b], rule writer_then [OF c],
        rule writer_then [OF d], rule end_d)
qed

text \<open>The parent comes to its \<^verbatim>\<open>waitpid\<close> whatever the child does.\<close>

lemma writer_finishes:
  assumes "turn_of (parent s) \<le> COUNT_TO" and "parent s \<noteq> W_Done"
  shows "\<exists>u. counter_step\<^sup>*\<^sup>* s u \<and> parent u = W_Wait"
proof -
  have print: "\<exists>u. counter_step\<^sup>*\<^sup>* t u \<and> parent u = W_Wait" if t: "parent t = W_Print i" "i \<le> COUNT_TO" for t i
  proof (rule writer_then [OF w_print [OF t(1)]], cases "i + 1 \<le> COUNT_TO")
    case True
    then show "\<exists>u. counter_step\<^sup>*\<^sup>* (t\<lparr>wrote := (if i mod 5 = 0 then wrote t @ [i] else wrote t),
        parent := (if i + 1 \<le> COUNT_TO then W_Lock (i + 1) else W_Wait)\<rparr>) u \<and> parent u = W_Wait"
      by (intro writer_finishes_lock [of _ "i + 1"]) simp_all
  qed auto
  have unlock: "\<exists>u. counter_step\<^sup>*\<^sup>* t u \<and> parent u = W_Wait" if t: "parent t = W_Unlock i" "i \<le> COUNT_TO" for t i
    by (rule writer_then [OF w_unlock [OF t(1)]], rule print [of _ i]) (simp_all add: t)
  have store: "\<exists>u. counter_step\<^sup>*\<^sup>* t u \<and> parent u = W_Wait" if t: "parent t = W_Store i" "i \<le> COUNT_TO" for t i
    by (rule writer_then [OF w_store [OF t(1)]], rule unlock [of _ i]) (simp_all add: t)
  show ?thesis
  proof (cases "parent s")
    case W_Start
    show ?thesis
      by (rule writer_then [OF w_clear [OF W_Start]], rule writer_finishes_lock [of _ 0])
        (simp_all add: COUNT_TO_def)
  qed (use assms print unlock store writer_finishes_lock in auto)
qed

lemma reader_finishes:
  assumes "shared_ok s" and "parent s = W_Wait"
  shows "\<exists>u. counter_step\<^sup>*\<^sup>* s u \<and> parent u = W_Wait \<and> child u = R_Done"
proof -
  let ?P = "\<lambda>u. parent u = W_Wait \<and> child u = R_Done"
  have seen: "\<exists>u. counter_step\<^sup>*\<^sup>* t u \<and> ?P u"
    if "child t = R_Test COUNT_TO" "last_seen t \<noteq> COUNT_TO" "parent t = W_Wait" for t
    by (rule reader_then [OF r_new [OF that(1)]]) (use that in auto)
  have from_lock: "\<exists>u. counter_step\<^sup>*\<^sup>* t u \<and> ?P u"
    if t: "child t = R_Lock" "last_seen t \<noteq> COUNT_TO" "parent t = W_Wait" "counter t = COUNT_TO" for t
    by (rule reader_then [OF r_lock [OF t(1)]], rule reader_then [OF r_load], simp,
        rule reader_then [OF r_unlock], simp, rule seen) (simp_all add: t)
  have fresh: "last_seen t \<noteq> COUNT_TO" if "shared_ok t" "child t \<noteq> R_Done" for t
    using that by (auto simp: shared_ok_def COUNT_TO_def)
  have full: "counter t = COUNT_TO" if "shared_ok t" "parent t = W_Wait" for t
    using that by (auto simp: shared_ok_def)
  have test: "\<exists>u. counter_step\<^sup>*\<^sup>* t u \<and> ?P u"
    if t: "child t = R_Test v" "parent t = W_Wait" "shared_ok t" for t v
  proof -
    obtain t' where t': "reader_step t t'" "parent t' = W_Wait" "child t' = R_Lock \<or> child t' = R_Done"
    proof (cases "v = last_seen t")
      case True
      show ?thesis by (rule that [OF r_same [OF t(1) True]]) (simp_all add: t)
    next
      case False
      show ?thesis by (rule that [OF r_new [OF t(1) False]]) (simp_all add: t)
    qed
    moreover have "shared_ok t'" using reader_keeps [OF t'(1) t(3)] .
    ultimately show ?thesis
      using reader_then [OF t'(1), of ?P] from_lock [of t'] fresh [of t'] full [of t'] by auto
  qed
  have unlock: "\<exists>u. counter_step\<^sup>*\<^sup>* t u \<and> ?P u"
    if t: "child t = R_Unlock v" "parent t = W_Wait" "shared_ok t" for t v
    by (rule reader_then [OF r_unlock [OF t(1)]], rule test [of _ v])
      (use t reader_keeps [OF r_unlock [OF t(1)]] in simp_all)
  have load: "\<exists>u. counter_step\<^sup>*\<^sup>* t u \<and> ?P u"
    if t: "child t = R_Load" "parent t = W_Wait" "shared_ok t" for t
    by (rule reader_then [OF r_load [OF t(1)]], rule unlock [of _ "counter t"])
      (use t reader_keeps [OF r_load [OF t(1)]] in simp_all)
  show ?thesis
    using assms from_lock [of s] fresh [OF assms(1)] full [OF assms] test [of s] unlock [of s] load [of s]
    by (cases "child s") auto
qed

subsection \<open>Properties\<close>

lemma counter_steps_up:
  assumes "shared_ok s" and "counter_step s t"
  shows "counter t = counter s \<or> counter t = counter s + 1"
  using assms(2) unfolding counter_step_def
proof
  assume "reader_step s t"
  then show ?thesis by cases auto
next
  assume "writer_step s t"
  then show ?thesis by cases (use assms(1) in \<open>auto simp: shared_ok_def\<close>)
qed

text \<open>
  Property C18.  In every reachable state the counter holds what the parent's position in its
  loop says: in turn \<open>i\<close> the value of the turn before until the store and \<open>i\<close> after it, 50 when
  the loop is over; every step leaves it or adds one, so it takes the values from 0 to 50 one
  after the other.  What the child has printed is increasing, none twice and none that the
  counter has not reached (hence values the parent stored), and the child is done exactly when
  it has printed 50; the parent is done only after it.
\<close>

theorem counter_observed:
  assumes "reachable (\<lambda>s. s = shared_init) counter_step s"
  shows "counter s = (case parent s of
        W_Start \<Rightarrow> 0
      | W_Lock i \<Rightarrow> if i = 0 then 0 else i - 1
      | W_Store i \<Rightarrow> if i = 0 then 0 else i - 1
      | W_Unlock i \<Rightarrow> i
      | W_Print i \<Rightarrow> i
      | _ \<Rightarrow> 50)
    \<and> (\<forall>t. counter_step s t \<longrightarrow> counter t = counter s \<or> counter t = counter s + 1)
    \<and> sorted_wrt (<) (observed s) \<and> (\<forall>v \<in> set (observed s). v \<le> counter s) \<and> counter s \<le> COUNT_TO
    \<and> (child s = R_Done \<longleftrightarrow> observed s \<noteq> [] \<and> last (observed s) = COUNT_TO)
    \<and> (parent s = W_Done \<longrightarrow> child s = R_Done)"
proof -
  have ok: "shared_ok s" using assms by (rule counting.reachable_inv)
  have at: "counter_at w = (case w of W_Start \<Rightarrow> 0 | W_Lock i \<Rightarrow> if i = 0 then 0 else i - 1
      | W_Store i \<Rightarrow> if i = 0 then 0 else i - 1 | W_Unlock i \<Rightarrow> i | W_Print i \<Rightarrow> i | _ \<Rightarrow> 50)" for w
    by (cases w) (simp_all add: COUNT_TO_def)
  have "counter s = counter_at (parent s)" using ok by (simp add: shared_ok_def)
  note now = this [unfolded at]
  moreover have "\<forall>t. counter_step s t \<longrightarrow> counter t = counter s \<or> counter t = counter s + 1"
    using counter_steps_up [OF ok] by blast
  moreover have "counter s \<le> COUNT_TO" using ok counter_at_bound [of "parent s"] by (simp add: shared_ok_def)
  ultimately show ?thesis
    using ok unfolding shared_ok_def by (elim conjE) (intro conjI, assumption+)
qed

text \<open>A run in which the child reads early and late.\<close>

definition early :: shared where
  "early = shared_init\<lparr>child := R_Lock, last_seen := 0, observed := [0]\<rparr>"

lemma early_reachable: "reachable (\<lambda>s. s = shared_init) counter_step early"
proof -
  have "counter_step shared_init (shared_init\<lparr>child := R_Load, lock_mode := Lock_Shared\<rparr>)" (is "counter_step _ ?a")
    by (simp add: counter_step_def reader_step.simps shared_init_def)
  moreover have "counter_step ?a (?a\<lparr>child := R_Unlock 0\<rparr>)" (is "counter_step _ ?b")
    by (simp add: counter_step_def reader_step.simps shared_init_def)
  moreover have "counter_step ?b (?b\<lparr>child := R_Test 0, lock_mode := Unlocked\<rparr>)" (is "counter_step _ ?c")
    by (simp add: counter_step_def reader_step.simps shared_init_def)
  moreover have "counter_step ?c early"
    by (simp add: counter_step_def reader_step.simps shared_init_def early_def COUNT_TO_def)
  ultimately have "counter_step\<^sup>*\<^sup>* shared_init early" by (meson rtranclp.intros)
  then show ?thesis by (rule reachable_steps [OF reach_start, rotated]) simp
qed

theorem counter_observed_witness: "sorted_wrt (<) (observed early) \<and> observed early = [0] \<and> child early \<noteq> R_Done"
  using counter_observed [OF early_reachable] by (simp add: early_def shared_init_def)

text \<open>
  Property C19.  From every state both processes can come to their ends, and the
  parent has then reported 0, 5, 10, and so on to 50: no order of the steps leads to a state
  from which one of them waits for ever.
\<close>

theorem counter_completes:
  assumes "reachable (\<lambda>s. s = shared_init) counter_step s"
  shows "\<exists>t. counter_step\<^sup>*\<^sup>* s t \<and> parent t = W_Done \<and> child t = R_Done
    \<and> last (observed t) = COUNT_TO \<and> wrote t = map (\<lambda>k. of_nat (5 * k)) [0..<11]"
proof -
  have ok: "shared_ok s" using assms by (rule counting.reachable_inv)
  have fin: "\<exists>t. counter_step\<^sup>*\<^sup>* s t \<and> parent t = W_Done \<and> child t = R_Done"
  proof (cases "parent s = W_Done")
    case True
    with ok show ?thesis by (auto simp: shared_ok_def)
  next
    case False
    with ok obtain t where t: "counter_step\<^sup>*\<^sup>* s t" "parent t = W_Wait"
      using writer_finishes [of s] by (auto simp: shared_ok_def)
    then obtain u where u: "counter_step\<^sup>*\<^sup>* t u" "parent u = W_Wait" "child u = R_Done"
      using reader_finishes [of t] counting.steps_inv [OF t(1) ok] by blast
    then have "\<exists>v. counter_step\<^sup>*\<^sup>* u v \<and> parent v = W_Done \<and> child v = R_Done"
      by (intro writer_then [OF w_wait [OF u(2,3)]] exI [of _ "u\<lparr>parent := W_Done\<rparr>"]) (simp add: u)
    with t u show ?thesis by (meson rtranclp_trans)
  qed
  obtain t where t: "counter_step\<^sup>*\<^sup>* s t" "parent t = W_Done" "child t = R_Done" using fin by blast
  have r: "reachable (\<lambda>s. s = shared_init) counter_step t"
    using assms t(1) by (rule reachable_steps)
  have "wrote t = fives 51"
    using reporting.reachable_inv [OF r] t(2) by (simp add: reports_ok_def COUNT_TO_def)
  then have "wrote t = map (\<lambda>k. of_nat (5 * k)) [0..<11]" by (simp add: fives_def upt_rec)
  moreover have "last (observed t) = COUNT_TO"
    using counting.reachable_inv [OF r] t(3) by (simp add: shared_ok_def)
  ultimately show ?thesis using t by blast
qed

theorem counter_completes_witness:
  "\<exists>t. counter_step\<^sup>*\<^sup>* early t \<and> parent t = W_Done \<and> child t = R_Done"
  using counter_completes [OF early_reachable] by blast

text \<open>
  The lock excludes nothing: the two processes share one open file
  description, so the child's \<^verbatim>\<open>LOCK_UN\<close> drops the lock that the parent took with
  \<^verbatim>\<open>LOCK_EX\<close>, and there is a run in which the parent is about to store while the child is
  inside its own critical section, and one in which it is about to store with no lock held.
\<close>

lemma counter_lock_shared:
  "(\<exists>s. reachable (\<lambda>s. s = shared_init) counter_step s \<and> parent s = W_Store 0 \<and> child s = R_Load)
   \<and> (\<exists>s. reachable (\<lambda>s. s = shared_init) counter_step s \<and> parent s = W_Store 0 \<and> lock_mode s = Unlocked)"
proof -
  let ?R = "reachable (\<lambda>s. s = shared_init) counter_step"
  let ?a = "shared_init\<lparr>counter := 0, parent := W_Lock 0\<rparr>"
  let ?b = "?a\<lparr>child := R_Load, lock_mode := Lock_Shared\<rparr>"
  let ?c = "?b\<lparr>parent := W_Store 0, lock_mode := Lock_Exclusive\<rparr>"
  let ?d = "?c\<lparr>child := R_Unlock (counter ?c)\<rparr>"
  let ?e = "?d\<lparr>child := R_Test (counter ?c), lock_mode := Unlocked\<rparr>"
  have "?R shared_init" by (rule reach_start) simp
  then have "?R ?a" by (rule reach_step) (simp add: counter_step_def writer_step.simps shared_init_def)
  then have "?R ?b" by (rule reach_step) (simp add: counter_step_def reader_step.simps shared_init_def)
  then have c: "?R ?c" by (rule reach_step) (simp add: counter_step_def writer_step.simps shared_init_def)
  then have "?R ?d" by (rule reach_step) (simp add: counter_step_def reader_step.simps shared_init_def)
  then have e: "?R ?e" by (rule reach_step) (simp add: counter_step_def reader_step.simps shared_init_def)
  have "parent ?c = W_Store 0" "child ?c = R_Load" "parent ?e = W_Store 0" "lock_mode ?e = Unlocked"
    by simp_all
  with c e show ?thesis by blast
qed

end
