(* ===== verification/Message_Queue.thy ===== *)
theory Message_Queue
  imports C_Prelude
begin

section \<open>A chat over two message queues\<close>

text \<open>
  \<^verbatim>\<open>lab2/messagequeue.c\<close>: two users run the program, each with a queue it reads and the
  other's queue it writes.  The parent process of a user sends the lines typed there, its
  child prints what arrives.  The queues are those of POSIX: a message is delivered whole,
  messages of one priority in the order they were sent; \<^verbatim>\<open>mq_send\<close> waits while there are
  \<^verbatim>\<open>mq_maxmsg\<close> messages, \<^verbatim>\<open>mq_receive\<close> while there is none.  An event is one turn of a
  parent's loop, one turn of a child's loop, or an interrupt; an event whose call would wait
  changes nothing.
\<close>

subsection \<open>The program\<close>

definition MSG_SIZE :: nat where "MSG_SIZE = 8192"
definition MQ_MAXMSG :: nat where "MQ_MAXMSG = 10"

datatype user = User1 | User2

fun peer :: "user \<Rightarrow> user" where
  "peer User1 = User2"
| "peer User2 = User1"

text \<open>\<^verbatim>\<open>is_user1\<close>, from the argument.\<close>

definition which_user :: "bytes \<Rightarrow> user cres" where
  "which_user arg = cbind (atoi arg) (\<lambda>n. Inr (if n = 1 then User1 else User2))"

definition txt_from_peer :: bytes where
  "txt_from_peer = map char_of [91, 236, 131, 129, 235, 140, 128, 235, 176, 169, 93, 58, 32 :: nat]"

definition txt_prompt :: bytes where
  "txt_prompt = map char_of [235, 130, 152, 58, 32 :: nat]"

record mq_side =
  typed :: bytes \<comment> \<open>what the keyboard will still deliver\<close>
  rcv_buf :: bytes \<comment> \<open>the child's \<^verbatim>\<open>char buf[MSG_SIZE]\<close>\<close>
  prompts :: "bytes list" \<comment> \<open>what the parent printed\<close>
  printed :: "bytes list" \<comment> \<open>what the child printed\<close>
  active :: bool

record mq_chat =
  side :: "user \<Rightarrow> mq_side"
  queue :: "user \<Rightarrow> bytes list" \<comment> \<open>the queue the user reads\<close>
  linked :: "user \<Rightarrow> bool" \<comment> \<open>whether the queue has its name\<close>

definition mq_start :: "(user \<Rightarrow> bytes) \<Rightarrow> (user \<Rightarrow> bytes) \<Rightarrow> mq_chat" where
  "mq_start input junk =
     \<lparr>side = (\<lambda>u. \<lparr>typed = input u, rcv_buf = junk u, prompts = [txt_prompt], printed = [], active = True\<rparr>),
      queue = (\<lambda>u. []), linked = (\<lambda>u. True)\<rparr>"

definition set_side :: "user \<Rightarrow> mq_side \<Rightarrow> mq_chat \<Rightarrow> mq_chat" where
  "set_side u x s = s\<lparr>side := (side s)(u := x)\<rparr>"

text \<open>\<^verbatim>\<open>cleanup\<close>, run by the parent and, on the signal, by the child.\<close>

definition cleanup :: "user \<Rightarrow> mq_chat \<Rightarrow> mq_chat" where
  "cleanup u s = (set_side u ((side s u)\<lparr>active := False, prompts := prompts (side s u) @ [NL # ''Chat ended.'' @ [NL]]\<rparr>) s)
     \<lparr>linked := (linked s)(u := False)\<rparr>"

text \<open>The text of a message: the line up to its newline, as far as \<^verbatim>\<open>strlen\<close> sees it.\<close>

definition message_of :: "bytes \<Rightarrow> bytes" where
  "message_of line = cstr (takeWhile (\<lambda>c. c \<noteq> NL) line)"

definition send_turn :: "user \<Rightarrow> mq_chat \<Rightarrow> mq_chat" where
  "send_turn u s =
     (let me = side s u; line = fgets_chunk MSG_SIZE (typed me) in
      if \<not> active me then s
      else if line = [] then cleanup u s
      else if MQ_MAXMSG \<le> length (queue s (peer u)) then s
      else (set_side u (me\<lparr>typed := fgets_rest MSG_SIZE (typed me), prompts := prompts me @ [txt_prompt]\<rparr>) s)
        \<lparr>queue := (queue s)(peer u := queue s (peer u) @ [message_of line])\<rparr>)"

definition shown_as :: "bytes \<Rightarrow> bytes" where
  "shown_as m = CR # txt_from_peer @ m @ NL # txt_prompt"

definition receive_turn :: "user \<Rightarrow> mq_chat \<Rightarrow> mq_chat cres" where
  "receive_turn u s =
     (let me = side s u in
      if \<not> active me then Inr s
      else case queue s u of
        [] \<Rightarrow> Inr s
      | m # ms \<Rightarrow>
          (let s' = s\<lparr>queue := (queue s)(u := ms)\<rparr> in
           if m = [] then Inr s'
           else cbind (set_byte (fill (rcv_buf me) m) (int (length m)) NUL) (\<lambda>buf.
             Inr (set_side u (me\<lparr>rcv_buf := buf, printed := printed me @ [shown_as (cstr buf)]\<rparr>) s'))))"

datatype mq_event = Type user | Receive user | Interrupt user

fun mq_exec :: "mq_event \<Rightarrow> mq_chat \<Rightarrow> mq_chat cres" where
  "mq_exec (Type u) s = Inr (send_turn u s)"
| "mq_exec (Receive u) s = receive_turn u s"
| "mq_exec (Interrupt u) s = Inr (if active (side s u) then cleanup u s else s)"

fun mq_run :: "mq_event list \<Rightarrow> mq_chat \<Rightarrow> mq_chat cres" where
  "mq_run [] s = Inr s"
| "mq_run (e # es) s = cbind (mq_exec e s) (\<lambda>t. mq_run es t)"

subsection \<open>What is typed, message by message\<close>

function messages :: "bytes \<Rightarrow> bytes list" where
  "messages inp = (if inp = [] then []
     else message_of (fgets_chunk MSG_SIZE inp) # messages (fgets_rest MSG_SIZE inp))"
  by pat_completeness auto
termination
  by (relation "measure length") (auto simp: MSG_SIZE_def fgets_rest_shorter)

declare messages.simps [simp del]

text \<open>The messages that are printed: an empty line is sent, but its arrival is ignored.\<close>

definition heard :: "bytes list \<Rightarrow> bytes list" where
  "heard ms = map shown_as (filter (\<lambda>m. m \<noteq> []) ms)"

definition mq_ok :: "(user \<Rightarrow> bytes) \<Rightarrow> mq_chat \<Rightarrow> bool" where
  "mq_ok input s \<longleftrightarrow> (\<forall>u.
     length (rcv_buf (side s u)) = MSG_SIZE \<and> length (queue s u) \<le> MQ_MAXMSG \<and>
     (\<forall>m \<in> set (queue s u). NUL \<notin> set m \<and> length m < MSG_SIZE) \<and>
     printed (side s u) @ heard (queue s u) @ heard (messages (typed (side s (peer u))))
       = heard (messages (input (peer u))))"

lemma MSG_SIZE_pos: "0 < MSG_SIZE"
  by (simp add: MSG_SIZE_def)

lemma message_of_facts:
  "NUL \<notin> set (message_of (fgets_chunk MSG_SIZE i))" "length (message_of (fgets_chunk MSG_SIZE i)) < MSG_SIZE"
proof -
  have "length (message_of l) \<le> length l" for l
    unfolding message_of_def by (rule order_trans [OF length_cstr_le length_takeWhile_le])
  then show "length (message_of (fgets_chunk MSG_SIZE i)) < MSG_SIZE"
    using fgets_chunk_length [of MSG_SIZE i] by (meson MSG_SIZE_pos order.strict_trans1)
qed (simp add: message_of_def)

lemma heard_simps [simp]:
  "heard [] = []" "heard (xs @ ys) = heard xs @ heard ys"
  "heard (m # ms) = (if m = [] then heard ms else shown_as m # heard ms)"
  by (simp_all add: heard_def)

lemma peer_simps [simp]: "peer (peer u) = u" "peer u \<noteq> u" "u \<noteq> peer u"
  by (cases u; simp)+

lemma peer_eq [simp]: "peer u = v \<longleftrightarrow> u = peer v"
  by (cases u; cases v) simp_all

lemma mq_okD:
  assumes "mq_ok input s"
  shows "length (rcv_buf (side s u)) = MSG_SIZE" and "length (queue s u) \<le> MQ_MAXMSG"
    and "m \<in> set (queue s u) \<Longrightarrow> NUL \<notin> set m \<and> length m < MSG_SIZE"
    and "printed (side s u) @ heard (queue s u) @ heard (messages (typed (side s (peer u))))
       = heard (messages (input (peer u)))"
  using assms unfolding mq_ok_def by blast+

text \<open>A change at one user that leaves the keyboards alone.\<close>

lemma mq_ok_change:
  assumes "mq_ok input s" and "\<forall>v. typed (side t v) = typed (side s v)"
    and "\<forall>v. v \<noteq> u \<longrightarrow> rcv_buf (side t v) = rcv_buf (side s v) \<and> queue t v = queue s v
      \<and> printed (side t v) = printed (side s v)"
    and "length (rcv_buf (side t u)) = MSG_SIZE" and "length (queue t u) \<le> MQ_MAXMSG"
    and "set (queue t u) \<subseteq> set (queue s u)"
    and "printed (side t u) @ heard (queue t u) = printed (side s u) @ heard (queue s u)"
  shows "mq_ok input t"
  unfolding mq_ok_def
proof (rule allI)
  fix v
  have "printed (side t v) @ heard (queue t v) = printed (side s v) @ heard (queue s v)"
    using assms(3,7) by (cases "v = u") auto
  moreover have "length (rcv_buf (side t v)) = MSG_SIZE" "length (queue t v) \<le> MQ_MAXMSG"
    "set (queue t v) \<subseteq> set (queue s v)"
    using assms(3-6) mq_okD(1,2) [OF assms(1), of v] by (cases "v = u"; simp)+
  moreover have "typed (side t (peer v)) = typed (side s (peer v))" using assms(2) by blast
  ultimately show "length (rcv_buf (side t v)) = MSG_SIZE \<and> length (queue t v) \<le> MQ_MAXMSG \<and>
      (\<forall>m \<in> set (queue t v). NUL \<notin> set m \<and> length m < MSG_SIZE) \<and>
      printed (side t v) @ heard (queue t v) @ heard (messages (typed (side t (peer v))))
        = heard (messages (input (peer v)))"
    using mq_okD(3) [OF assms(1), of _ v] mq_okD(4) [OF assms(1), of v] by (metis append_assoc subsetD)
qed

lemma interrupt_ok:
  assumes "mq_ok input s"
  shows "mq_ok input (cleanup u s)"
  by (rule mq_ok_change [OF assms, of _ u])
    (use mq_okD(1,2) [OF assms, of u] in \<open>simp_all add: cleanup_def set_side_def\<close>)

lemma send_ok:
  assumes "mq_ok input s"
  shows "mq_ok input (send_turn u s)"
proof (cases "active (side s u) \<and> typed (side s u) \<noteq> [] \<and> length (queue s (peer u)) < MQ_MAXMSG")
  case True
  let ?i = "typed (side s u)"
  have m: "messages ?i = message_of (fgets_chunk MSG_SIZE ?i) # messages (fgets_rest MSG_SIZE ?i)"
    using True by (simp add: messages.simps [of ?i])
  have "fgets_chunk MSG_SIZE ?i \<noteq> []"
    using True by (simp add: MSG_SIZE_def fgets_chunk_Nil)
  moreover have "printed (side s (peer u)) @ heard (queue s (peer u)) @ heard (messages ?i) = heard (messages (input u))"
    using mq_okD(4) [OF assms, of "peer u"] by simp
  ultimately show ?thesis
    using True assms message_of_facts [of ?i] unfolding m
    by (auto simp: mq_ok_def send_turn_def Let_def set_side_def)
next
  case False
  then consider "\<not> active (side s u)" | "active (side s u)" "typed (side s u) = []"
    | "active (side s u)" "typed (side s u) \<noteq> []" "MQ_MAXMSG \<le> length (queue s (peer u))" by fastforce
  then have "send_turn u s = s \<or> send_turn u s = cleanup u s"
    by cases (simp_all add: send_turn_def Let_def MSG_SIZE_def fgets_chunk_Nil)
  with assms interrupt_ok [OF assms] show ?thesis by metis
qed

text \<open>A message of the other user always fits: a line read by \<^verbatim>\<open>fgets\<close> is shorter than the
  buffer.\<close>

lemma receive_ok:
  assumes "mq_ok input s"
  shows "\<exists>t. receive_turn u s = Inr t \<and> mq_ok input t"
proof (cases "active (side s u) \<and> queue s u \<noteq> []")
  case True
  then obtain m ms where q: "queue s u = m # ms" by (cases "queue s u") auto
  let ?me = "side s u" and ?s = "s\<lparr>queue := (queue s)(u := ms)\<rparr>"
  have m: "NUL \<notin> set m" "length m < length (rcv_buf ?me)"
    using mq_okD(1) [OF assms, of u] mq_okD(3) [OF assms, of m u] q by simp_all
  let ?buf = "m @ NUL # drop (Suc (length m)) (rcv_buf ?me)"
  have eq: "receive_turn u s = Inr (if m = [] then ?s
      else set_side u (?me\<lparr>rcv_buf := ?buf, printed := printed ?me @ [shown_as m]\<rparr>) ?s)" (is "_ = Inr ?t")
    using True q fill_terminate [OF m(2)] cstr_terminator [OF m(1)] by (simp add: receive_turn_def Let_def)
  have "mq_ok input ?t"
  proof (rule mq_ok_change [OF assms, of _ u])
    show "length (rcv_buf (side ?t u)) = MSG_SIZE"
      using m(2) mq_okD(1) [OF assms, of u] by (simp add: set_side_def)
    show "length (queue ?t u) \<le> MQ_MAXMSG"
      using mq_okD(2) [OF assms, of u] q by (simp add: set_side_def)
  qed (use q in \<open>auto simp: set_side_def\<close>)
  with eq show ?thesis by blast
next
  case False
  with assms show ?thesis by (auto simp: receive_turn_def Let_def split: list.split)
qed

lemma run_ok: "mq_ok input s \<Longrightarrow> \<exists>t. mq_run es s = Inr t \<and> mq_ok input t"
proof (induction es arbitrary: s)
  case (Cons e es)
  obtain t where "mq_exec e s = Inr t" "mq_ok input t"
  proof (cases e)
    case (Receive u)
    with receive_ok [OF Cons.prems, of u] show ?thesis by (auto intro: that)
  qed (use send_ok [OF Cons.prems] interrupt_ok [OF Cons.prems] Cons.prems in \<open>auto intro: that\<close>)
  with Cons.IH show ?case by auto
qed simp

lemma start_ok: "\<forall>u. length (junk u) = MSG_SIZE \<Longrightarrow> mq_ok input (mq_start input junk)"
  by (simp add: mq_ok_def mq_start_def)

text \<open>
  Property C17.  Whatever the order in which the processes run, and whenever a user
  leaves, no message overruns the array it is received into, and what a user was shown,
  followed by what waits in the queue and what the other has still to type, is exactly what
  the other typed, line by line and in order, the empty lines left out.
\<close>

theorem queue_chat_delivers:
  assumes "\<forall>u. length (junk u) = MSG_SIZE"
  shows "\<exists>t. mq_run es (mq_start input junk) = Inr t \<and>
    (\<forall>u. printed (side t u) @ heard (queue t u) @ heard (messages (typed (side t (peer u))))
         = heard (messages (input (peer u))) \<and> length (queue t u) \<le> MQ_MAXMSG)"
  using run_ok [OF start_ok [OF assms], of es input] by (auto simp: mq_ok_def)

definition two_lines :: "user \<Rightarrow> bytes" where
  "two_lines u = (if u = User1 then ''hi'' @ [NL, NL] @ ''bye'' @ [NL] else [])"

lemma messages_line:
  "NL \<notin> set l \<Longrightarrow> NUL \<notin> set l \<Longrightarrow> Suc (length l) < MSG_SIZE \<Longrightarrow> messages (l @ NL # r) = l # messages r"
  using messages.simps [of "l @ NL # r"]
  by (simp add: fgets_chunk_line fgets_rest_def message_of_def cstr_no_nul takeWhile_line)

lemma messages_two_lines: "messages (two_lines User1) = [''hi'', [], ''bye'']"
  using messages_line [of "''hi''" "NL # ''bye'' @ [NL]"] messages_line [of "[]" "''bye'' @ [NL]"]
    messages_line [of "''bye''" "[]"] messages.simps [of "[]"]
  by (simp add: two_lines_def MSG_SIZE_def)

theorem queue_chat_delivers_witness:
  "\<exists>t. mq_run [Type User1, Receive User2] (mq_start two_lines (\<lambda>u. replicate MSG_SIZE NUL)) = Inr t
     \<and> printed (side t User2) @ heard (queue t User2) @ heard (messages (typed (side t User1)))
       = [shown_as ''hi'', shown_as ''bye'']"
proof -
  obtain t where "mq_run [Type User1, Receive User2] (mq_start two_lines (\<lambda>u. replicate MSG_SIZE NUL)) = Inr t"
    "\<forall>u. printed (side t u) @ heard (queue t u) @ heard (messages (typed (side t (peer u))))
       = heard (messages (two_lines (peer u))) \<and> length (queue t u) \<le> MQ_MAXMSG"
    using queue_chat_delivers [of "\<lambda>u. replicate MSG_SIZE NUL" "[Type User1, Receive User2]" two_lines]
    by auto
  from this(1) spec [OF this(2), of User2] show ?thesis
    by (auto simp: messages_two_lines simp del: mq_run.simps)
qed

end
