(* ===== verification/Pipe_Chat.thy ===== *)
theory Pipe_Chat
  imports C_Prelude
begin

section \<open>A chat over two pipes\<close>

text \<open>
  \<^verbatim>\<open>lab2/pipe.c\<close>: parent and child run \<^verbatim>\<open>chat_loop\<close>, each with a pipe it reads and a pipe it
  writes.  An event is one turn of a process's loop: what \<^verbatim>\<open>read\<close> on the keyboard delivered,
  if \<^verbatim>\<open>select\<close> reported the keyboard, and how many bytes \<^verbatim>\<open>read\<close> on the pipe asked for could
  be had, if it reported the pipe.  A pipe is the list of the bytes in it; it is reported when it
  holds bytes or its writer has left.  Writing to a pipe whose reader has left ends the
  process (SIGPIPE).
\<close>

definition PIPE_MSG :: nat where "PIPE_MSG = 1024"

datatype side = Parent_Side | Child_Side

fun opposite :: "side \<Rightarrow> side" where
  "opposite Parent_Side = Child_Side"
| "opposite Child_Side = Parent_Side"

lemma side_all: "(\<forall>q. P q) \<longleftrightarrow> P p \<and> P (opposite p)"
  by (metis opposite.simps side.exhaust)

lemma opposite_simps [simp]: "opposite (opposite p) = p" "opposite p \<noteq> p" "p \<noteq> opposite p"
  by (cases p; simp)+

fun side_name :: "side \<Rightarrow> bytes" where
  "side_name Parent_Side = ''Parent''"
| "side_name Child_Side = ''Child''"

definition txt_chat_with :: bytes where
  "txt_chat_with = map char_of [235, 139, 152, 234, 179, 188, 32, 236, 177, 132, 237, 140, 133, 32, 236, 139, 156,
     236, 158, 145, 10 :: nat]"

definition txt_ended :: bytes where
  "txt_ended = map char_of [236, 151, 176, 234, 178, 176, 236, 157, 180, 32, 236, 162, 133, 235, 163, 140, 32, 235,
     144, 152, 236, 151, 136, 236, 138, 181, 235, 139, 136, 235, 139, 164, 46, 10 :: nat]"

record chat_end =
  ce_buf :: bytes \<comment> \<open>\<^verbatim>\<open>char buf[MSGSIZE]\<close>\<close>
  ce_shown :: "bytes list"
  ce_sent :: "bytes list" \<comment> \<open>what was written to the pipe\<close>
  ce_running :: bool

record pipe_chat =
  ends :: "side \<Rightarrow> chat_end"
  pipe_to :: "side \<Rightarrow> bytes" \<comment> \<open>the pipe the process reads\<close>

definition pipe_start :: "(side \<Rightarrow> bytes) \<Rightarrow> pipe_chat" where
  "pipe_start junk = \<lparr>ends = (\<lambda>p. \<lparr>ce_buf = junk p, ce_shown = [side_name p @ txt_chat_with], ce_sent = [], ce_running = True\<rparr>),
     pipe_to = (\<lambda>p. [])\<rparr>"

definition set_end :: "side \<Rightarrow> chat_end \<Rightarrow> pipe_chat \<Rightarrow> pipe_chat" where
  "set_end p x s = s\<lparr>ends := (ends s)(p := x)\<rparr>"

definition leave_loop :: "side \<Rightarrow> pipe_chat \<Rightarrow> pipe_chat" where
  "leave_loop p s = set_end p ((ends s p)\<lparr>ce_running := False\<rparr>) s"

text \<open>\<^verbatim>\<open>FD_ISSET(0)\<close>: \<open>d\<close> was read, nothing at the end of the input or on an error.\<close>

definition from_keys :: "side \<Rightarrow> bytes \<Rightarrow> pipe_chat \<Rightarrow> pipe_chat cres" where
  "from_keys p d s =
     (let me = ends s p in
      if d = [] then Inr (leave_loop p s)
      else cbind (set_byte (fill (ce_buf me) d) (int (length d)) NUL) (\<lambda>buf.
        if ce_running (ends s (opposite p))
        then Inr ((set_end p (me\<lparr>ce_buf := buf, ce_sent := ce_sent me @ [take (length d) buf]\<rparr>) s)
               \<lparr>pipe_to := (pipe_to s)(opposite p := pipe_to s (opposite p) @ take (length d) buf)\<rparr>)
        else Inr (leave_loop p s)))"

definition as_shown :: "side \<Rightarrow> bytes \<Rightarrow> bytes" where
  "as_shown p text = ''['' @ side_name p @ '']: '' @ text"

text \<open>\<^verbatim>\<open>FD_ISSET(read_pipe)\<close>: up to \<open>n\<close> bytes are there.\<close>

definition from_pipe :: "side \<Rightarrow> nat \<Rightarrow> pipe_chat \<Rightarrow> pipe_chat cres" where
  "from_pipe p n s =
     (let me = ends s p; d = take n (pipe_to s p) in
      if d = [] then Inr (leave_loop p (set_end p (me\<lparr>ce_shown := ce_shown me @ [txt_ended]\<rparr>) s))
      else cbind (set_byte (fill (ce_buf me) d) (int (length d)) NUL) (\<lambda>buf.
        Inr ((set_end p (me\<lparr>ce_buf := buf, ce_shown := ce_shown me @ [as_shown p (cstr buf)]\<rparr>) s)
          \<lparr>pipe_to := (pipe_to s)(p := drop n (pipe_to s p))\<rparr>)))"

text \<open>One turn of \<^verbatim>\<open>while (1)\<close>; \<^verbatim>\<open>read\<close> delivers between 1 and \<^verbatim>\<open>MSGSIZE\<close> bytes, or none.\<close>

definition reported :: "side \<Rightarrow> nat \<Rightarrow> pipe_chat \<Rightarrow> bool" where
  "reported p n s \<longleftrightarrow> 0 < n \<and> n \<le> PIPE_MSG \<and> (pipe_to s p \<noteq> [] \<or> \<not> ce_running (ends s (opposite p)))"

definition chat_turn :: "side \<Rightarrow> bytes option \<Rightarrow> nat option \<Rightarrow> pipe_chat \<Rightarrow> pipe_chat cres" where
  "chat_turn p kb rd s =
     (if \<not> ce_running (ends s p) then Inr s
      else
        cbind (case kb of Some d \<Rightarrow> if length d \<le> PIPE_MSG then from_keys p d s else Inr s | None \<Rightarrow> Inr s) (\<lambda>t.
        case rd of
          Some n \<Rightarrow> if ce_running (ends t p) \<and> reported p n s then from_pipe p n t else Inr t
        | None \<Rightarrow> Inr t))"

type_synonym turn_event = "side \<times> bytes option \<times> nat option"

fun chat_turns :: "turn_event list \<Rightarrow> pipe_chat \<Rightarrow> pipe_chat cres" where
  "chat_turns [] s = Inr s"
| "chat_turns ((p, kb, rd) # es) s = cbind (chat_turn p kb rd s) (chat_turns es)"

subsection \<open>What arrives\<close>

text \<open>Between the greeting and the closing line, what a process shows are the pieces \<open>ds\<close> it
  read; with what is still in its pipe they are what the other process wrote.\<close>

definition arrives :: "bytes \<Rightarrow> bytes list \<Rightarrow> bytes \<Rightarrow> side \<Rightarrow> chat_end \<Rightarrow> bool" where
  "arrives in_pipe written buf p x \<longleftrightarrow> (\<exists>ds.
     ce_shown x \<in> {(side_name p @ txt_chat_with) # map (as_shown p) ds,
                   (side_name p @ txt_chat_with) # map (as_shown p) ds @ [txt_ended]}
     \<and> (ce_running x \<longrightarrow> ce_shown x = (side_name p @ txt_chat_with) # map (as_shown p) ds)
     \<and> concat ds @ in_pipe = concat written \<and> length buf = PIPE_MSG \<and> NUL \<notin> set in_pipe)"

definition pipe_ok :: "pipe_chat \<Rightarrow> bool" where
  "pipe_ok s \<longleftrightarrow> (\<forall>p. arrives (pipe_to s p) (ce_sent (ends s (opposite p))) (ce_buf (ends s p)) p (ends s p))"

text \<open>A state is well formed if both directions are.\<close>

lemma pipe_okI:
  assumes "arrives (pipe_to s p) (ce_sent (ends s (opposite p))) (ce_buf (ends s p)) p (ends s p)"
    and "arrives (pipe_to s (opposite p)) (ce_sent (ends s p)) (ce_buf (ends s (opposite p))) (opposite p) (ends s (opposite p))"
  shows "pipe_ok s"
  unfolding pipe_ok_def
proof (rule allI)
  fix q show "arrives (pipe_to s q) (ce_sent (ends s (opposite q))) (ce_buf (ends s q)) q (ends s q)"
    using assms by (cases p; cases q) simp_all
qed

lemma pipe_okD:
  assumes "pipe_ok s"
  shows "arrives (pipe_to s p) (ce_sent (ends s (opposite p))) (ce_buf (ends s p)) p (ends s p)"
    and "arrives (pipe_to s (opposite p)) (ce_sent (ends s p)) (ce_buf (ends s (opposite p))) (opposite p) (ends s (opposite p))"
  using assms [unfolded pipe_ok_def, rule_format, of p] assms [unfolded pipe_ok_def, rule_format, of "opposite p"]
  by simp_all

lemma arrives_stop: "arrives b w f p x \<Longrightarrow> arrives b w f p (x\<lparr>ce_running := False\<rparr>)"
  unfolding arrives_def by auto

lemma arrives_more:
  "arrives b w f p x \<Longrightarrow> NUL \<notin> set d \<Longrightarrow> arrives (b @ d) (w @ [d]) f p x"
  unfolding arrives_def by (elim exE, rule_tac x = ds in exI) auto

lemma leave_ok:
  assumes "pipe_ok s"
  shows "pipe_ok (leave_loop p s)"
  using pipe_okD [OF assms, of p]
  by (intro pipe_okI [of _ p]) (simp_all add: leave_loop_def set_end_def arrives_stop)

lemma from_keys_ok:
  assumes "pipe_ok s" and "ce_running (ends s p)" and "length d < PIPE_MSG" and "NUL \<notin> set d"
  shows "\<exists>t. from_keys p d s = Inr t \<and> pipe_ok t"
proof (cases "d = [] \<or> \<not> ce_running (ends s (opposite p))")
  case True
  have "length d < length (ce_buf (ends s p))"
    using pipe_okD(1) [OF assms(1), of p] assms(3) by (auto simp: arrives_def)
  with True leave_ok [OF assms(1), of p] show ?thesis
    by (cases "d = []") (simp_all add: from_keys_def Let_def fill_terminate)
next
  case False
  let ?me = "ends s p"
  let ?buf = "d @ NUL # drop (Suc (length d)) (ce_buf ?me)"
  have len: "length (ce_buf ?me) = PIPE_MSG"
    using pipe_okD(1) [OF assms(1), of p] by (auto simp: arrives_def)
  let ?t = "(set_end p (?me\<lparr>ce_buf := ?buf, ce_sent := ce_sent ?me @ [d]\<rparr>) s)
               \<lparr>pipe_to := (pipe_to s)(opposite p := pipe_to s (opposite p) @ d)\<rparr>"
  have "from_keys p d s = Inr ?t"
    using False assms(3) len by (simp add: from_keys_def Let_def fill_terminate)
  moreover have "pipe_ok ?t"
  proof (rule pipe_okI [of _ p])
    show "arrives (pipe_to ?t p) (ce_sent (ends ?t (opposite p))) (ce_buf (ends ?t p)) p (ends ?t p)"
      using pipe_okD(1) [OF assms(1), of p] assms(3) len by (auto simp: arrives_def set_end_def)
    show "arrives (pipe_to ?t (opposite p)) (ce_sent (ends ?t p)) (ce_buf (ends ?t (opposite p))) (opposite p) (ends ?t (opposite p))"
      using arrives_more [OF pipe_okD(2) [OF assms(1), of p] assms(4)] by (simp add: set_end_def)
  qed
  ultimately show ?thesis by blast
qed

lemma from_pipe_ok:
  assumes "pipe_ok s" and "ce_running (ends s p)" and "n < PIPE_MSG"
  shows "\<exists>t. from_pipe p n s = Inr t \<and> pipe_ok t"
proof -
  let ?me = "ends s p" and ?d = "take n (pipe_to s p)"
  have a: "arrives (pipe_to s p) (ce_sent (ends s (opposite p))) (ce_buf ?me) p ?me"
    using pipe_okD(1) [OF assms(1)] .
  then obtain ds where ds: "ce_shown ?me = (side_name p @ txt_chat_with) # map (as_shown p) ds"
    "concat ds @ pipe_to s p = concat (ce_sent (ends s (opposite p)))"
    "length (ce_buf ?me) = PIPE_MSG" "NUL \<notin> set (pipe_to s p)"
    using assms(2) by (auto simp: arrives_def)
  show ?thesis
  proof (cases "?d = []")
    case True
    let ?u = "set_end p (?me\<lparr>ce_shown := ce_shown ?me @ [txt_ended]\<rparr>) s"
    have "pipe_ok (leave_loop p ?u)"
      using ds pipe_okD(2) [OF assms(1), of p]
      by (intro pipe_okI [of _ p]) (auto simp: leave_loop_def set_end_def arrives_def)
    with True show ?thesis by (simp add: from_pipe_def Let_def)
  next
    case False
    have d: "length ?d < length (ce_buf ?me)" "NUL \<notin> set ?d"
      using assms(3) ds(3,4) by (auto dest: in_set_takeD)
    let ?buf = "?d @ NUL # drop (Suc (length ?d)) (ce_buf ?me)"
    let ?t = "(set_end p (?me\<lparr>ce_buf := ?buf, ce_shown := ce_shown ?me @ [as_shown p ?d]\<rparr>) s)
          \<lparr>pipe_to := (pipe_to s)(p := drop n (pipe_to s p))\<rparr>"
    have "from_pipe p n s = Inr ?t"
      using False fill_terminate [OF d(1)] cstr_terminator [OF d(2)] by (simp add: from_pipe_def Let_def)
    moreover have "pipe_ok ?t"
    proof (rule pipe_okI [of _ p])
      have "concat (ds @ [?d]) @ drop n (pipe_to s p) = concat (ce_sent (ends s (opposite p)))"
        using ds(2) by simp
      moreover have "length ?buf = PIPE_MSG" using d(1) ds(3) by simp
      ultimately show "arrives (pipe_to ?t p) (ce_sent (ends ?t (opposite p))) (ce_buf (ends ?t p)) p (ends ?t p)"
        unfolding arrives_def
        by (intro exI [of _ "ds @ [?d]"]) (use ds in \<open>auto simp: set_end_def dest: in_set_dropD\<close>)
      show "arrives (pipe_to ?t (opposite p)) (ce_sent (ends ?t p)) (ce_buf (ends ?t (opposite p))) (opposite p) (ends ?t (opposite p))"
        using pipe_okD(2) [OF assms(1), of p] by (simp add: set_end_def)
    qed
    ultimately show ?thesis by blast
  qed
qed

definition calm :: "turn_event \<Rightarrow> bool" where
  "calm e = (case e of (p, kb, rd) \<Rightarrow>
     (case kb of Some d \<Rightarrow> NUL \<notin> set d \<and> length d < PIPE_MSG | None \<Rightarrow> True)
     \<and> (case rd of Some n \<Rightarrow> n < PIPE_MSG | None \<Rightarrow> True))"

lemma chat_turn_ok:
  assumes "pipe_ok s" and "calm (p, kb, rd)"
  shows "\<exists>t. chat_turn p kb rd s = Inr t \<and> pipe_ok t"
proof (cases "ce_running (ends s p)")
  case True
  have "\<exists>t. (case kb of Some d \<Rightarrow> if length d \<le> PIPE_MSG then from_keys p d s else Inr s | None \<Rightarrow> Inr s) = Inr t \<and> pipe_ok t"
    using from_keys_ok [OF assms(1) True] assms by (auto simp: calm_def split: option.splits)
  then obtain t where t: "(case kb of Some d \<Rightarrow> if length d \<le> PIPE_MSG then from_keys p d s else Inr s | None \<Rightarrow> Inr s) = Inr t"
    "pipe_ok t" by blast
  show ?thesis
    using t True assms(2) from_pipe_ok [OF t(2), of p]
    by (auto simp: chat_turn_def calm_def split: option.splits)
qed (use assms(1) in \<open>simp add: chat_turn_def\<close>)

lemma chat_turns_ok:
  "pipe_ok s \<Longrightarrow> \<forall>e \<in> set es. calm e \<Longrightarrow> \<exists>t. chat_turns es s = Inr t \<and> pipe_ok t"
proof (induction es arbitrary: s)
  case (Cons e es)
  obtain p kb rd where e: "e = (p, kb, rd)" by (cases e)
  then obtain t where "chat_turn p kb rd s = Inr t" "pipe_ok t"
    using chat_turn_ok [OF Cons.prems(1), of p kb rd] Cons.prems(2) by auto
  with Cons.IH [of t] Cons.prems(2) e show ?case by auto
qed simp

lemma pipe_start_ok: "\<forall>p. length (junk p) = PIPE_MSG \<Longrightarrow> pipe_ok (pipe_start junk)"
  by (auto simp: pipe_ok_def arrives_def pipe_start_def)

text \<open>
  Runs in which no read fills the whole buffer do not fault, and what a
  process shows, piece by piece under its own name, followed by what is still in its pipe, is
  what the other process wrote, in order.
\<close>

lemma pipe_chat_relays:
  assumes "\<forall>p. length (junk p) = PIPE_MSG" and "\<forall>e \<in> set es. calm e"
  shows "\<exists>t. chat_turns es (pipe_start junk) = Inr t \<and> (\<forall>p. \<exists>ds.
      (ce_shown (ends t p) = (side_name p @ txt_chat_with) # map (as_shown p) ds
       \<or> ce_shown (ends t p) = (side_name p @ txt_chat_with) # map (as_shown p) ds @ [txt_ended])
      \<and> concat ds @ pipe_to t p = concat (ce_sent (ends t (opposite p))))"
proof -
  obtain t where "chat_turns es (pipe_start junk) = Inr t" "pipe_ok t"
    using chat_turns_ok [OF pipe_start_ok [OF assms(1)] assms(2)] by blast
  then show ?thesis unfolding pipe_ok_def arrives_def by blast
qed

lemma pipe_chat_relays_example:
  "\<exists>t. chat_turns [(Parent_Side, Some ''hi'', None), (Child_Side, None, Some 9)] (pipe_start (\<lambda>p. replicate PIPE_MSG NUL)) = Inr t
     \<and> (\<exists>ds. concat ds @ pipe_to t Child_Side = concat (ce_sent (ends t Parent_Side)))"
proof -
  let ?es = "[(Parent_Side, Some ''hi'', None), (Child_Side, None, Some 9)]"
  obtain t where "chat_turns ?es (pipe_start (\<lambda>p. replicate PIPE_MSG NUL)) = Inr t"
    "\<forall>p. \<exists>ds. (ce_shown (ends t p) = (side_name p @ txt_chat_with) # map (as_shown p) ds
       \<or> ce_shown (ends t p) = (side_name p @ txt_chat_with) # map (as_shown p) ds @ [txt_ended])
      \<and> concat ds @ pipe_to t p = concat (ce_sent (ends t (opposite p)))"
    using pipe_chat_relays [of "\<lambda>p. replicate PIPE_MSG NUL" ?es]
    by (auto simp: calm_def PIPE_MSG_def simp del: chat_turns.simps)
  from this(1) spec [OF this(2), of Child_Side] show ?thesis
    by (auto simp del: chat_turns.simps)
qed

text \<open>
  A turn goes wrong exactly when a read fills the buffer: the terminator
  is then written one past the array.
\<close>

lemma pipe_chat_overrun:
  assumes "pipe_ok s" and "ce_running (ends s p)" and "NUL \<notin> set d" and "length d \<le> PIPE_MSG" and "n \<le> PIPE_MSG"
  shows "(c_ok (from_keys p d s) \<longleftrightarrow> length d < PIPE_MSG)
    \<and> (c_ok (from_pipe p n s) \<longleftrightarrow> length (take n (pipe_to s p)) < PIPE_MSG)"
proof -
  have len: "length (ce_buf (ends s p)) = PIPE_MSG" "0 < PIPE_MSG"
    using pipe_okD(1) [OF assms(1), of p] by (auto simp: arrives_def PIPE_MSG_def)
  have "\<not> c_ok (from_keys p d s)" if "length d = PIPE_MSG"
    using that len fill_terminate_overrun [of d "ce_buf (ends s p)"] by (auto simp: from_keys_def Let_def)
  moreover have "c_ok (from_keys p d s)" if "length d < PIPE_MSG"
    using from_keys_ok [OF assms(1,2) that assms(3)] by (auto simp: c_ok_iff)
  moreover have "\<not> c_ok (from_pipe p n s)" if "length (take n (pipe_to s p)) = PIPE_MSG"
    using that len fill_terminate_overrun [of "take n (pipe_to s p)" "ce_buf (ends s p)"]
    by (auto simp: from_pipe_def Let_def)
  moreover have "c_ok (from_pipe p n s)" if "length (take n (pipe_to s p)) < PIPE_MSG"
  proof (cases "n < PIPE_MSG")
    case False
    then have "from_pipe p n s = from_pipe p (PIPE_MSG - 1) s"
      using that assms(5) by (simp add: from_pipe_def Let_def)
    then show ?thesis
      using from_pipe_ok [OF assms(1,2), of "PIPE_MSG - 1"] len by (auto simp: c_ok_iff)
  qed (use from_pipe_ok [OF assms(1,2), of n] in \<open>auto simp: c_ok_iff\<close>)
  ultimately show ?thesis using assms(4,5) by (metis length_take min.cobounded2 min.coboundedI2 order_less_le)
qed

lemma pipe_chat_overrun_example:
  "\<not> c_ok (from_keys Parent_Side (replicate PIPE_MSG (CHR ''a'')) (pipe_start (\<lambda>p. replicate PIPE_MSG NUL)))"
proof -
  let ?s = "pipe_start (\<lambda>p. replicate PIPE_MSG NUL)"
  have "pipe_ok ?s" "ce_running (ends ?s Parent_Side)"
    by (rule pipe_start_ok) (simp_all add: pipe_start_def)
  then show ?thesis
    using pipe_chat_overrun [of ?s Parent_Side "replicate PIPE_MSG (CHR ''a'')" 0] by simp
qed

end
