(* ===== verification/Pipe_Messages.thy ===== *)
theory Pipe_Messages
  imports Pipe_Chat
begin

section \<open>Messages of 16 bytes over pipes\<close>

text \<open>
  \<^verbatim>\<open>lab2/pipetest.c\<close>, \<^verbatim>\<open>nonblockpipe.c\<close> and \<^verbatim>\<open>selectpipe.c\<close> send messages of
  \<^verbatim>\<open>MSGSIZE\<close> bytes.  A message argument is the memory from its pointer on: the last two
  programs pass string literals that are shorter than 16 bytes, so that \<^verbatim>\<open>write\<close> reads past
  them.  A write of 16 bytes to a pipe is atomic (it is below \<^verbatim>\<open>PIPE_BUF\<close>).
\<close>

definition MSGSIZE :: nat where "MSGSIZE = 16"

definition c_literal :: "bytes \<Rightarrow> bytes" where
  "c_literal t = t @ [NUL]"

definition write_msg :: "bytes \<Rightarrow> bytes cres" where
  "write_msg mem = (if length mem < MSGSIZE then Inl Out_Of_Bounds else Inr (take MSGSIZE mem))"

text \<open>Memory that holds a message: 16 bytes, with the string's end among them.\<close>

definition holds_msg :: "bytes \<Rightarrow> bool" where
  "holds_msg mem \<longleftrightarrow> MSGSIZE \<le> length mem \<and> NUL \<in> set (take MSGSIZE mem)"

lemma write_msg_ok: "holds_msg mem \<Longrightarrow> write_msg mem = Inr (take MSGSIZE mem)"
  by (simp add: write_msg_def holds_msg_def)

lemma read_msg:
  assumes "holds_msg mem" "length buf = MSGSIZE"
  shows "take MSGSIZE (take MSGSIZE mem @ q) = take MSGSIZE mem" "drop MSGSIZE (take MSGSIZE mem @ q) = q"
    "fill buf (take MSGSIZE mem) = take MSGSIZE mem" "read_cstr (take MSGSIZE mem) = Inr (cstr mem)"
proof -
  have len: "length (take MSGSIZE mem) = MSGSIZE" using assms(1) by (simp add: holds_msg_def)
  show "take MSGSIZE (take MSGSIZE mem @ q) = take MSGSIZE mem" "drop MSGSIZE (take MSGSIZE mem @ q) = q"
    "fill buf (take MSGSIZE mem) = take MSGSIZE mem"
    using len assms(2) by (simp_all add: fill_def)
  have nul: "NUL \<in> set (take MSGSIZE mem)" using assms(1) by (simp add: holds_msg_def)
  then have "takeWhile (\<lambda>c. c \<noteq> NUL) (take MSGSIZE mem @ drop MSGSIZE mem) = takeWhile (\<lambda>c. c \<noteq> NUL) (take MSGSIZE mem)"
    by (rule takeWhile_append1) simp
  then have "cstr (take MSGSIZE mem) = cstr mem" unfolding cstr_def append_take_drop_id by simp
  with nul show "read_cstr (take MSGSIZE mem) = Inr (cstr mem)" by (simp add: read_cstr_def terminated_def)
qed

subsection \<open>pipetest\<close>

text \<open>The child's \<^verbatim>\<open>sprintf\<close> and \<^verbatim>\<open>write\<close> for \<open>i\<close>, and a \<^verbatim>\<open>read\<close> of the parent, which waits
  until there is something to read.\<close>

definition hello_text :: "nat \<Rightarrow> bytes" where
  "hello_text i = ''Hello, world #'' @ show_nat (i + 1)"

fun test_child :: "nat list \<Rightarrow> bytes \<Rightarrow> bytes list cres" where
  "test_child [] buf = Inr []"
| "test_child (i # is) buf =
     cbind (store_cstr buf (hello_text i)) (\<lambda>buf.
     cbind (write_msg buf) (\<lambda>d.
     cbind (test_child is buf) (\<lambda>ds. Inr (d # ds))))"

fun test_parent :: "nat \<Rightarrow> bytes \<Rightarrow> bytes list \<Rightarrow> bytes cres" where
  "test_parent 0 buf ds = Inr []"
| "test_parent (Suc n) buf ds =
     (let q = concat ds; buf = fill buf (take MSGSIZE q) in
      cbind (read_cstr buf) (\<lambda>text.
      cbind (test_parent n buf [drop MSGSIZE q]) (\<lambda>out. Inr (text @ [NL] @ out))))"

definition pipetest :: "bytes \<Rightarrow> bytes \<Rightarrow> bytes cres" where
  "pipetest child_buf parent_buf = cbind (test_child [0, 1] child_buf) (test_parent 2 parent_buf)"

subsection \<open>nonblockpipe\<close>

fun nb_name :: "side \<Rightarrow> bytes" where
  "nb_name Parent_Side = ''parent''"
| "nb_name Child_Side = ''child''"

fun nb_message :: "side \<Rightarrow> bytes" where
  "nb_message Parent_Side = c_literal ''Hello, child!''"
| "nb_message Child_Side = c_literal ''Hello, parent!''"

datatype ending = Exited int | Killed int

record nb_proc =
  nb_buf :: bytes
  nb_shown :: "bytes list"
  nb_exit :: "ending option"

record nonblock =
  nb_procs :: "side \<Rightarrow> nb_proc"
  nb_pipe :: "side \<Rightarrow> bytes" \<comment> \<open>the pipe the process reads\<close>

definition nb_start :: "(side \<Rightarrow> bytes) \<Rightarrow> nonblock" where
  "nb_start junk = \<lparr>nb_procs = (\<lambda>p. \<lparr>nb_buf = junk p, nb_shown = [], nb_exit = None\<rparr>), nb_pipe = (\<lambda>p. [])\<rparr>"

definition nb_set :: "side \<Rightarrow> nb_proc \<Rightarrow> nonblock \<Rightarrow> nonblock" where
  "nb_set p x s = s\<lparr>nb_procs := (nb_procs s)(p := x)\<rparr>"

definition nb_say :: "side \<Rightarrow> bytes \<Rightarrow> nonblock \<Rightarrow> nonblock" where
  "nb_say p t s = nb_set p ((nb_procs s p)\<lparr>nb_shown := nb_shown (nb_procs s p) @ [t]\<rparr>) s"

definition nb_quit :: "side \<Rightarrow> ending \<Rightarrow> nonblock \<Rightarrow> nonblock" where
  "nb_quit p c s = nb_set p ((nb_procs s p)\<lparr>nb_exit := Some c\<rparr>) s"

text \<open>The write of a turn: refused when the pipe is full (\<open>room\<close> is false), which is not
  looked at; the end of the writer (SIGPIPE, 13) when the reader is gone.\<close>

definition nb_write :: "(side \<Rightarrow> bytes) \<Rightarrow> side \<Rightarrow> bool \<Rightarrow> nonblock \<Rightarrow> nonblock cres" where
  "nb_write msg p room s =
     (if nb_exit (nb_procs s (opposite p)) \<noteq> None then Inr (nb_quit p (Killed 13) s)
      else if \<not> room then Inr s
      else cbind (write_msg (msg p)) (\<lambda>d. Inr (s\<lparr>nb_pipe := (nb_pipe s)(opposite p := nb_pipe s (opposite p) @ d)\<rparr>)))"

definition txt_empty :: bytes where "txt_empty = '': pipe empty!''"
definition txt_closed :: bytes where "txt_closed = '': read pipe closed''"
definition txt_msg :: bytes where "txt_msg = '': MSG=''"

text \<open>One turn of \<^verbatim>\<open>for (;;)\<close>; \<open>err\<close> says that \<^verbatim>\<open>read\<close> failed other than for want of data.\<close>

definition nb_turn :: "(side \<Rightarrow> bytes) \<Rightarrow> side \<Rightarrow> bool \<Rightarrow> bool \<Rightarrow> nonblock \<Rightarrow> nonblock cres" where
  "nb_turn msg p err room s =
     (let me = nb_procs s p; d = take MSGSIZE (nb_pipe s p) in
      if nb_exit me \<noteq> None then Inr s
      else if err then Inr (nb_quit p (Exited 1) s)
      else if d \<noteq> [] then
        let buf = fill (nb_buf me) d; t = (nb_set p (me\<lparr>nb_buf := buf\<rparr>) s)\<lparr>nb_pipe := (nb_pipe s)(p := drop MSGSIZE (nb_pipe s p))\<rparr> in
        cbind (read_cstr buf) (\<lambda>text. nb_write msg p room (nb_say p (nb_name p @ txt_msg @ text) t))
      else if nb_exit (nb_procs s (opposite p)) = None then nb_write msg p room (nb_say p (nb_name p @ txt_empty) s)
      else Inr (nb_quit p (Exited 1) (nb_say p (nb_name p @ txt_closed) s)))"

fun nb_run :: "(side \<Rightarrow> bytes) \<Rightarrow> (side \<times> bool \<times> bool) list \<Rightarrow> nonblock \<Rightarrow> nonblock cres" where
  "nb_run msg [] s = Inr s"
| "nb_run msg ((p, err, room) # es) s = cbind (nb_turn msg p err room s) (nb_run msg es)"

subsection \<open>selectpipe\<close>

definition hello_msg :: bytes where "hello_msg = c_literal ''Hello, parent!''"
definition bye_msg :: bytes where "bye_msg = c_literal ''Bye, parent!''"

text \<open>A child has written so many messages, has exited, or has been waited for.  The parent is
  before \<^verbatim>\<open>select\<close>, at the keyboard or the pipes that were reported, or before \<^verbatim>\<open>waitpid\<close>.\<close>

datatype child_state = Writing nat | Zombie | Reaped

datatype parent_at = At_Select | At_Keys "nat list" | At_Pipes "nat list" | At_Wait | Returned

datatype sp_line = From_Keys char | From_Child nat bytes

record select_pipe =
  sp_pipe :: "nat \<Rightarrow> bytes"
  sp_child :: "nat \<Rightarrow> child_state"
  sp_buf :: bytes
  sp_ch :: char
  sp_at :: parent_at
  sp_out :: "sp_line list"

definition sp_start :: "bytes \<Rightarrow> char \<Rightarrow> select_pipe" where
  "sp_start junk c = \<lparr>sp_pipe = (\<lambda>i. []), sp_child = (\<lambda>i. Writing 0), sp_buf = junk, sp_ch = c,
     sp_at = At_Select, sp_out = []\<rparr>"

datatype sp_event = Child_Writes nat | Child_Exits nat | Select bool | Key "char option" | Take | Wait nat

fun line_of :: "sp_line \<Rightarrow> bytes" where
  "line_of (From_Keys c) = ''From standard input: '' @ [NL, c, NL]"
| "line_of (From_Child i t) = ''message is '' @ t @ '' from child '' @ show_nat i @ [NL]"

fun alive :: "child_state \<Rightarrow> bool" where
  "alive (Writing n) = True"
| "alive Zombie = False"
| "alive Reaped = False"

text \<open>A pipe is reported when it holds bytes or nobody can write to it; a child has the writing
  ends of the pipes made before it was forked.\<close>

definition readable :: "select_pipe \<Rightarrow> nat \<Rightarrow> bool" where
  "readable s i \<longleftrightarrow> sp_pipe s i \<noteq> [] \<or> (\<forall>j \<in> {i..2}. \<not> alive (sp_child s j))"

text \<open>The first pipe of those reported: nothing is printed at the end of the file.\<close>

definition take_msg :: "nat \<Rightarrow> nat list \<Rightarrow> select_pipe \<Rightarrow> select_pipe cres" where
  "take_msg i is s =
     (let d = take MSGSIZE (sp_pipe s i); buf = fill (sp_buf s) d;
          t = s\<lparr>sp_pipe := (sp_pipe s)(i := drop MSGSIZE (sp_pipe s i)), sp_buf := buf, sp_at := At_Pipes is\<rparr> in
      if d = [] then Inr t
      else cbind (read_cstr buf) (\<lambda>text. Inr (t\<lparr>sp_out := sp_out s @ [From_Child i text]\<rparr>)))"

definition sp_message :: "bytes \<Rightarrow> bytes \<Rightarrow> nat \<Rightarrow> bytes" where
  "sp_message hello bye j = (if j < 3 then hello else bye)"

text \<open>An event that cannot happen in a state leaves it as it is.\<close>

fun sp_exec :: "bytes \<Rightarrow> bytes \<Rightarrow> sp_event \<Rightarrow> select_pipe \<Rightarrow> select_pipe cres" where
  "sp_exec hello bye (Child_Writes i) s =
     (case sp_child s i of
        Writing j \<Rightarrow>
          if i < 3 \<and> j < 4 then
            cbind (write_msg (sp_message hello bye j)) (\<lambda>d.
              Inr (s\<lparr>sp_pipe := (sp_pipe s)(i := sp_pipe s i @ d), sp_child := (sp_child s)(i := Writing (j + 1))\<rparr>))
          else Inr s
      | c \<Rightarrow> Inr s)"
| "sp_exec hello bye (Child_Exits i) s =
     (if i < 3 \<and> sp_child s i = Writing 4 then Inr (s\<lparr>sp_child := (sp_child s)(i := Zombie)\<rparr>) else Inr s)"
| "sp_exec hello bye (Select kb) s =
     (let is = filter (readable s) [0, 1, 2] in
      if sp_at s = At_Select \<and> (kb \<or> is \<noteq> []) then Inr (s\<lparr>sp_at := if kb then At_Keys is else At_Pipes is\<rparr>) else Inr s)"
| "sp_exec hello bye (Key k) s =
     (case sp_at s of
        At_Keys is \<Rightarrow>
          let c = (case k of Some c \<Rightarrow> c | None \<Rightarrow> sp_ch s) in
          Inr (s\<lparr>sp_ch := c, sp_out := sp_out s @ [From_Keys c], sp_at := At_Pipes is\<rparr>)
      | a \<Rightarrow> Inr s)"
| "sp_exec hello bye Take s =
     (case sp_at s of
        At_Pipes [] \<Rightarrow> Inr (s\<lparr>sp_at := At_Wait\<rparr>)
      | At_Pipes (i # is) \<Rightarrow> take_msg i is s
      | a \<Rightarrow> Inr s)"
| "sp_exec hello bye (Wait i) s =
     (if sp_at s \<noteq> At_Wait then Inr s
      else if \<forall>j \<in> {0..2}. sp_child s j = Reaped then Inr (s\<lparr>sp_at := Returned\<rparr>)
      else if \<forall>j \<in> {0..2}. sp_child s j \<noteq> Zombie then Inr (s\<lparr>sp_at := At_Select\<rparr>)
      else if i < 3 \<and> sp_child s i = Zombie then Inr (s\<lparr>sp_child := (sp_child s)(i := Reaped), sp_at := At_Select\<rparr>)
      else Inr s)"

fun sp_run :: "bytes \<Rightarrow> bytes \<Rightarrow> sp_event list \<Rightarrow> select_pipe \<Rightarrow> select_pipe cres" where
  "sp_run hello bye [] s = Inr s"
| "sp_run hello bye (e # es) s = cbind (sp_exec hello bye e s) (sp_run hello bye es)"

subsection \<open>What pipetest prints\<close>

text \<open>
  \<^verbatim>\<open>pipetest\<close>: the two messages, of 15 characters and the terminator, just fit
  the buffers, and the parent prints both, whatever the buffers held before.
\<close>

lemma pipetest_prints:
  assumes "length child_buf = MSGSIZE" and "length parent_buf = MSGSIZE"
  shows "pipetest child_buf parent_buf = Inr (''Hello, world #1'' @ [NL] @ ''Hello, world #2'' @ [NL])"
proof -
  have t: "hello_text 0 = ''Hello, world #1''" "hello_text (Suc 0) = ''Hello, world #2''" by code_simp+
  from assms show ?thesis
    by (simp add: pipetest_def t store_cstr_def write_msg_def MSGSIZE_def fill_def read_cstr_def terminated_def
        cstr_def numeral_2_eq_2)
qed

lemma pipetest_prints_example:
  "pipetest (replicate 16 CR) (replicate 16 CR) = Inr (''Hello, world #1'' @ [NL] @ ''Hello, world #2'' @ [NL])"
  by (rule pipetest_prints) (simp_all add: MSGSIZE_def)

subsection \<open>Non-blocking reads\<close>

definition msg_line :: "(side \<Rightarrow> bytes) \<Rightarrow> side \<Rightarrow> bytes" where
  "msg_line msg p = nb_name p @ txt_msg @ cstr (msg (opposite p))"

text \<open>What \<open>p\<close> shows and what is in its pipe: whole messages of the other, no more than the
  other had turns.\<close>

definition nb_ok :: "(side \<Rightarrow> bytes) \<Rightarrow> side \<Rightarrow> bytes list \<Rightarrow> bytes \<Rightarrow> bytes list \<Rightarrow> bool" where
  "nb_ok msg p shown in_pipe other \<longleftrightarrow>
     set shown \<subseteq> {msg_line msg p, nb_name p @ txt_empty, nb_name p @ txt_closed}
     \<and> (\<exists>n. in_pipe = concat (replicate n (take MSGSIZE (msg (opposite p))))
         \<and> count_list shown (msg_line msg p) + n \<le> length other)"

definition nb_inv :: "(side \<Rightarrow> bytes) \<Rightarrow> nonblock \<Rightarrow> bool" where
  "nb_inv msg s \<longleftrightarrow> (\<forall>p. length (nb_buf (nb_procs s p)) = MSGSIZE
     \<and> nb_ok msg p (nb_shown (nb_procs s p)) (nb_pipe s p) (nb_shown (nb_procs s (opposite p))))"

lemma not_msg_line: "nb_name p @ txt_empty \<noteq> msg_line msg p" "nb_name p @ txt_closed \<noteq> msg_line msg p"
  by (simp_all add: msg_line_def txt_empty_def txt_closed_def txt_msg_def)

lemma nb_ok_say:
  "nb_ok msg p shown q other \<Longrightarrow> nb_ok msg p (shown @ [nb_name p @ txt_empty]) q other"
  "nb_ok msg p shown q other \<Longrightarrow> nb_ok msg p (shown @ [nb_name p @ txt_closed]) q other"
  "nb_ok msg p shown q other \<Longrightarrow> nb_ok msg p shown q (other @ [t])"
  using not_msg_line [of p msg] by (auto simp: nb_ok_def intro: le_SucI)

lemma nb_ok_read:
  assumes "nb_ok msg p shown q other" "q \<noteq> []" "holds_msg (msg (opposite p))"
  shows "nb_ok msg p (shown @ [msg_line msg p]) (drop MSGSIZE q) other"
    and "take MSGSIZE q = take MSGSIZE (msg (opposite p))"
proof -
  let ?m = "take MSGSIZE (msg (opposite p))"
  obtain n where n: "q = concat (replicate n ?m)" "count_list shown (msg_line msg p) + n \<le> length other"
    and sh: "set shown \<subseteq> {msg_line msg p, nb_name p @ txt_empty, nb_name p @ txt_closed}"
    using assms(1) by (auto simp: nb_ok_def)
  obtain k where k: "n = Suc k" using n(1) assms(2) by (cases n) auto
  then have q: "q = ?m @ concat (replicate k ?m)" using n(1) by simp
  have len: "length ?m = MSGSIZE" using assms(3) by (simp add: holds_msg_def)
  show "take MSGSIZE q = ?m" using q len by simp
  have "drop MSGSIZE q = concat (replicate k ?m)" using q len by simp
  then show "nb_ok msg p (shown @ [msg_line msg p]) (drop MSGSIZE q) other"
    unfolding nb_ok_def using sh n(2) k by (intro conjI exI [of _ k]) auto
qed

lemma nb_ok_write:
  assumes "nb_ok msg p shown q other"
  shows "nb_ok msg p shown (q @ take MSGSIZE (msg (opposite p))) (other @ [t])"
proof -
  let ?m = "take MSGSIZE (msg (opposite p))"
  obtain n where n: "q = concat (replicate n ?m)" "count_list shown (msg_line msg p) + n \<le> length other"
    using assms by (auto simp: nb_ok_def)
  have "replicate (Suc n) ?m = replicate n ?m @ [?m]" by (simp add: replicate_append_same)
  then have "q @ ?m = concat (replicate (Suc n) ?m)" using n(1) by (simp only: concat_append) simp
  with n(2) assms show ?thesis unfolding nb_ok_def by (intro conjI exI [of _ "Suc n"]) auto
qed

text \<open>Saying a line, and then writing: the two halves of a turn.\<close>

lemma nb_write_inv:
  assumes "\<forall>q. holds_msg (msg q)" and "length (nb_buf (nb_procs s p)) = MSGSIZE"
    and "length (nb_buf (nb_procs s (opposite p))) = MSGSIZE"
    and "nb_ok msg p (nb_shown (nb_procs s p)) (nb_pipe s p) (nb_shown (nb_procs s (opposite p)))"
    and "nb_shown (nb_procs s p) = before @ [t]"
    and "nb_ok msg (opposite p) (nb_shown (nb_procs s (opposite p))) (nb_pipe s (opposite p)) before"
  shows "\<exists>u. nb_write msg p room s = Inr u \<and> nb_inv msg u"
proof -
  have w: "write_msg (msg p) = Inr (take MSGSIZE (msg p))" using assms(1) by (intro write_msg_ok) simp
  have say: "nb_ok msg (opposite p) (nb_shown (nb_procs s (opposite p))) (nb_pipe s (opposite p)) (before @ [t])"
    using assms(6) by (rule nb_ok_say(3))
  have wr: "nb_ok msg (opposite p) (nb_shown (nb_procs s (opposite p)))
      (nb_pipe s (opposite p) @ take MSGSIZE (msg p)) (before @ [t])"
    using nb_ok_write [OF assms(6), of t] by simp
  show ?thesis
    unfolding nb_write_def nb_inv_def side_all [of _ p]
    using assms(2-5) w say wr by (simp add: nb_quit_def nb_set_def)
qed

lemma nb_turn_reads:
  assumes "\<forall>q. holds_msg (msg q)" and "nb_inv msg s"
    and "nb_exit (nb_procs s p) = None" "nb_pipe s p \<noteq> []"
  shows "\<exists>u. nb_turn msg p False room s = Inr u \<and> nb_inv msg u"
proof -
  let ?me = "nb_procs s p" and ?he = "nb_procs s (opposite p)" and ?d = "take MSGSIZE (nb_pipe s p)"
  have me: "length (nb_buf ?me) = MSGSIZE" "length (nb_buf ?he) = MSGSIZE"
    "nb_ok msg p (nb_shown ?me) (nb_pipe s p) (nb_shown ?he)"
    "nb_ok msg (opposite p) (nb_shown ?he) (nb_pipe s (opposite p)) (nb_shown ?me)"
    using assms(2) unfolding nb_inv_def side_all [of _ p] by simp_all
  have h: "holds_msg (msg (opposite p))" using assms(1) by simp
  note rd = nb_ok_read [OF me(3) assms(4) h]
  let ?b = "take MSGSIZE (msg (opposite p))"
  let ?t = "(nb_set p (?me\<lparr>nb_buf := ?b\<rparr>) s)\<lparr>nb_pipe := (nb_pipe s)(p := drop MSGSIZE (nb_pipe s p))\<rparr>"
  let ?u = "nb_say p (msg_line msg p) ?t"
  have "length ?b = MSGSIZE" using h by (simp add: holds_msg_def)
  then have "\<exists>u. nb_write msg p room ?u = Inr u \<and> nb_inv msg u"
    using me rd(1) by (intro nb_write_inv [OF assms(1), where t = "msg_line msg p" and before = "nb_shown ?me"])
      (simp_all add: nb_say_def nb_set_def)
  moreover have "?d \<noteq> []" using assms(4) by (simp add: MSGSIZE_def)
  then have "nb_turn msg p False room s = nb_write msg p room ?u"
    using assms(3) rd(2) read_msg(3,4) [OF h me(1)] by (simp add: nb_turn_def Let_def msg_line_def)
  ultimately show ?thesis by simp
qed

lemma nb_turn_inv:
  assumes "\<forall>q. holds_msg (msg q)" and "nb_inv msg s"
  shows "\<exists>u. nb_turn msg p err room s = Inr u \<and> nb_inv msg u"
proof -
  let ?me = "nb_procs s p" and ?he = "nb_procs s (opposite p)"
  let ?d = "take MSGSIZE (nb_pipe s p)"
  have me: "length (nb_buf ?me) = MSGSIZE" "length (nb_buf ?he) = MSGSIZE"
    "nb_ok msg p (nb_shown ?me) (nb_pipe s p) (nb_shown ?he)"
    "nb_ok msg (opposite p) (nb_shown ?he) (nb_pipe s (opposite p)) (nb_shown ?me)"
    using assms(2) unfolding nb_inv_def side_all [of _ p] by simp_all
  have quit: "nb_inv msg (nb_quit p c s)" for c
    unfolding nb_inv_def side_all [of _ p] using me by (simp add: nb_quit_def nb_set_def)
  have closed: "nb_inv msg (nb_quit p c (nb_say p (nb_name p @ txt_closed) s))" for c
    unfolding nb_inv_def side_all [of _ p] using me nb_ok_say(2) [OF me(3)] nb_ok_say(3) [OF me(4)]
    by (simp add: nb_quit_def nb_say_def nb_set_def)
  have nil: "?d = [] \<longleftrightarrow> nb_pipe s p = []" by (simp add: MSGSIZE_def)
  consider "nb_exit ?me \<noteq> None" | "nb_exit ?me = None" "err" | "nb_exit ?me = None" "\<not> err" "?d \<noteq> []"
    | "nb_exit ?me = None" "\<not> err" "?d = []" "nb_exit ?he = None"
    | "nb_exit ?me = None" "\<not> err" "?d = []" "nb_exit ?he \<noteq> None" by blast
  then show ?thesis
  proof cases
    case 1
    with assms(2) show ?thesis by (auto simp: nb_turn_def Let_def)
  next
    case 2
    with quit show ?thesis by (auto simp: nb_turn_def Let_def)
  next
    case 3
    with nb_turn_reads [OF assms, of p room] nil show ?thesis by simp
  next
    case 4
    let ?u = "nb_say p (nb_name p @ txt_empty) s"
    have "\<exists>u. nb_write msg p room ?u = Inr u \<and> nb_inv msg u"
      using me nb_ok_say(1) [OF me(3)]
      by (intro nb_write_inv [OF assms(1), where t = "nb_name p @ txt_empty" and before = "nb_shown ?me"])
        (simp_all add: nb_say_def nb_set_def)
    with 4 show ?thesis by (simp add: nb_turn_def Let_def)
  next
    case 5
    with closed show ?thesis by (auto simp: nb_turn_def Let_def)
  qed
qed

lemma nb_run_inv:
  "\<forall>q. holds_msg (msg q) \<Longrightarrow> nb_inv msg s \<Longrightarrow> \<exists>u. nb_run msg es s = Inr u \<and> nb_inv msg u"
proof (induction es arbitrary: s)
  case (Cons e es)
  obtain p err room where e: "e = (p, err, room)" by (cases e)
  obtain u where "nb_turn msg p err room s = Inr u" "nb_inv msg u" using nb_turn_inv Cons.prems by blast
  with Cons.IH [of u] Cons.prems(1) e show ?case by simp
qed simp

text \<open>
  \<^verbatim>\<open>nonblockpipe\<close>, with messages that are 16 bytes long in memory: whatever
  turns the two processes have, full pipes and failing reads included, nothing faults, each
  line a process prints is that the pipe is empty, that it is closed, or one whole message of the
  other, and there are no more messages than the other had turns.
\<close>

lemma nonblock_whole_messages:
  assumes "\<forall>q. holds_msg (msg q)" and "\<forall>q. length (junk q) = MSGSIZE"
  shows "\<exists>t. nb_run msg es (nb_start junk) = Inr t \<and> (\<forall>p.
    set (nb_shown (nb_procs t p)) \<subseteq> {nb_name p @ txt_msg @ cstr (msg (opposite p)), nb_name p @ txt_empty, nb_name p @ txt_closed}
    \<and> count_list (nb_shown (nb_procs t p)) (nb_name p @ txt_msg @ cstr (msg (opposite p)))
      \<le> length (nb_shown (nb_procs t (opposite p))))"
proof -
  have "nb_inv msg (nb_start junk)" using assms(2) by (simp add: nb_inv_def nb_start_def nb_ok_def)
  from nb_run_inv [OF assms(1) this, of es] obtain t where t: "nb_run msg es (nb_start junk) = Inr t" "nb_inv msg t"
    by blast
  have "count_list (nb_shown (nb_procs t p)) (msg_line msg p) \<le> length (nb_shown (nb_procs t (opposite p)))" for p
    using t(2) unfolding nb_inv_def nb_ok_def by (meson add_leD1)
  moreover have "set (nb_shown (nb_procs t p)) \<subseteq> {msg_line msg p, nb_name p @ txt_empty, nb_name p @ txt_closed}" for p
    using t(2) unfolding nb_inv_def nb_ok_def by blast
  ultimately show ?thesis using t(1) unfolding msg_line_def by blast
qed

definition padded :: "side \<Rightarrow> bytes" where
  "padded p = nb_message p @ [NUL, NUL]"

lemma nonblock_whole_messages_example:
  "\<exists>t. nb_run padded [(Parent_Side, False, True), (Child_Side, False, True)] (nb_start (\<lambda>q. replicate 16 CR)) = Inr t
     \<and> nb_shown (nb_procs t Child_Side) = [''child: MSG=Hello, child!'']
     \<and> count_list (nb_shown (nb_procs t Child_Side)) ''child: MSG=Hello, child!'' \<le> length (nb_shown (nb_procs t Parent_Side))"
proof -
  let ?es = "[(Parent_Side, False, True), (Child_Side, False, True)]"
  have h: "\<forall>q. holds_msg (padded q)" unfolding side_all [of _ Parent_Side] by code_simp
  have j: "\<forall>q. length ((\<lambda>q :: side. replicate 16 CR) q) = MSGSIZE" by (simp add: MSGSIZE_def)
  have line: "nb_name Child_Side @ txt_msg @ cstr (padded (opposite Child_Side)) = ''child: MSG=Hello, child!''"
    by code_simp
  obtain t where t: "nb_run padded ?es (nb_start (\<lambda>q. replicate 16 CR)) = Inr t"
    "count_list (nb_shown (nb_procs t Child_Side)) ''child: MSG=Hello, child!'' \<le> length (nb_shown (nb_procs t Parent_Side))"
    using nonblock_whole_messages [OF h j, of ?es] line by (metis opposite.simps(2))
  moreover have "case nb_run padded ?es (nb_start (\<lambda>q. replicate 16 CR)) of
      Inr t \<Rightarrow> nb_shown (nb_procs t Child_Side) = [''child: MSG=Hello, child!''] | Inl e \<Rightarrow> False"
    by code_simp
  ultimately show ?thesis by auto
qed

text \<open>
  The messages of \<^verbatim>\<open>nonblockpipe\<close> are string literals of 14 and 15 bytes:
  the first write of either process reads past its literal.
\<close>

lemma nonblock_overread:
  "nb_turn nb_message p False True (nb_start junk) = Inl Out_Of_Bounds"
  by (cases p) (simp_all add: nb_turn_def nb_start_def nb_write_def nb_say_def nb_set_def write_msg_def c_literal_def MSGSIZE_def)

subsection \<open>Several pipes\<close>

text \<open>What child \<open>i\<close> has to say, what it has written, and what was shown of it.\<close>

definition its_messages :: "bytes \<Rightarrow> bytes \<Rightarrow> bytes list" where
  "its_messages hello bye = map (sp_message hello bye) [0, 1, 2, 3]"

fun written :: "child_state \<Rightarrow> nat" where
  "written (Writing n) = n"
| "written Zombie = 4"
| "written Reaped = 4"

fun said_by :: "nat \<Rightarrow> sp_line list \<Rightarrow> bytes list" where
  "said_by i [] = []"
| "said_by i (From_Keys c # ls) = said_by i ls"
| "said_by i (From_Child j t # ls) = (if j = i then [t] else []) @ said_by i ls"

lemma said_by_append [simp]: "said_by i (ls @ ls') = said_by i ls @ said_by i ls'"
  by (induction i ls rule: said_by.induct) auto

definition child_ok :: "bytes list \<Rightarrow> nat \<Rightarrow> bytes list \<Rightarrow> bytes \<Rightarrow> bool" where
  "child_ok ms n said q \<longleftrightarrow> n \<le> 4 \<and> (\<exists>k \<le> n. said = map cstr (take k ms)
     \<and> q = concat (map (take MSGSIZE) (drop k (take n ms))))"

definition sp_inv :: "bytes \<Rightarrow> bytes \<Rightarrow> select_pipe \<Rightarrow> bool" where
  "sp_inv hello bye s \<longleftrightarrow> length (sp_buf s) = MSGSIZE
     \<and> (\<forall>i. child_ok (its_messages hello bye) (written (sp_child s i)) (said_by i (sp_out s)) (sp_pipe s i))
     \<and> (sp_at s = Returned \<longrightarrow> (\<forall>i < 3. sp_child s i = Reaped))"

lemma messages_length [simp]: "length (its_messages hello bye) = 4"
  by (simp add: its_messages_def)

lemma messages_nth: "j < 4 \<Longrightarrow> its_messages hello bye ! j = sp_message hello bye j"
  by (auto simp: its_messages_def less_Suc_eq numeral_eq_Suc)

lemma message_holds: "holds_msg hello \<Longrightarrow> holds_msg bye \<Longrightarrow> holds_msg (sp_message hello bye j)"
  by (simp add: sp_message_def)

lemma child_ok_write:
  assumes "child_ok ms n said q" "n < 4" "length ms = 4"
  shows "child_ok ms (Suc n) said (q @ take MSGSIZE (ms ! n))"
proof -
  obtain k where k: "k \<le> n" "said = map cstr (take k ms)" "q = concat (map (take MSGSIZE) (drop k (take n ms)))"
    using assms(1) by (auto simp: child_ok_def)
  have "drop k (take (Suc n) ms) = drop k (take n ms) @ [ms ! n]"
    using assms(2,3) k(1) by (simp add: take_Suc_conv_app_nth)
  with k assms(2) show ?thesis by (auto simp: child_ok_def intro!: exI [of _ k])
qed

lemma child_ok_read:
  assumes "child_ok ms n said q" "q \<noteq> []" "length ms = 4" "\<forall>j < 4. holds_msg (ms ! j)"
  obtains m where "holds_msg m" "take MSGSIZE q = take MSGSIZE m" "child_ok ms n (said @ [cstr m]) (drop MSGSIZE q)"
proof -
  obtain k where k: "k \<le> n" "n \<le> 4" "said = map cstr (take k ms)" "q = concat (map (take MSGSIZE) (drop k (take n ms)))"
    using assms(1) by (auto simp: child_ok_def)
  have lt: "k < n" using k assms(2) by (cases "k = n") auto
  then have d: "drop k (take n ms) = ms ! k # drop (Suc k) (take n ms)"
    using assms(3) k(2) by (simp add: Cons_nth_drop_Suc [symmetric])
  have m: "holds_msg (ms ! k)" using assms(4) lt k(2) by simp
  then have "length (take MSGSIZE (ms ! k)) = MSGSIZE" by (simp add: holds_msg_def)
  then have q: "take MSGSIZE q = take MSGSIZE (ms ! k)"
    "drop MSGSIZE q = concat (map (take MSGSIZE) (drop (Suc k) (take n ms)))" using k(4) d by simp_all
  moreover have "said @ [cstr (ms ! k)] = map cstr (take (Suc k) ms)"
    using k(2,3) lt assms(3) by (simp add: take_Suc_conv_app_nth)
  ultimately have "child_ok ms n (said @ [cstr (ms ! k)]) (drop MSGSIZE q)"
    using lt k(2) by (auto simp: child_ok_def intro!: exI [of _ "Suc k"])
  with m q(1) that show ?thesis by blast
qed

text \<open>An event keeps the invariant and does not fault.\<close>

lemma take_msg_inv:
  assumes "holds_msg hello" "holds_msg bye" "sp_inv hello bye s" "sp_at s \<noteq> Returned"
  shows "\<exists>u. take_msg i is s = Inr u \<and> sp_inv hello bye u"
proof (cases "sp_pipe s i = []")
  case True
  then have "(sp_pipe s)(i := []) = sp_pipe s" by (simp add: fun_upd_idem)
  with True assms(3,4) show ?thesis by (simp add: take_msg_def Let_def sp_inv_def fill_def)
next
  case False
  let ?ms = "its_messages hello bye"
  have c: "child_ok ?ms (written (sp_child s i)) (said_by i (sp_out s)) (sp_pipe s i)"
    and b: "length (sp_buf s) = MSGSIZE"
    using assms(3) by (simp_all add: sp_inv_def)
  have "\<forall>j < 4. holds_msg (?ms ! j)" using message_holds [OF assms(1,2)] by (simp add: messages_nth)
  from child_ok_read [OF c False _ this] obtain m where m: "holds_msg m" "take MSGSIZE (sp_pipe s i) = take MSGSIZE m"
    "child_ok ?ms (written (sp_child s i)) (said_by i (sp_out s) @ [cstr m]) (drop MSGSIZE (sp_pipe s i))"
    by auto
  have "take MSGSIZE m \<noteq> []" using m(1) by (auto simp: holds_msg_def MSGSIZE_def)
  moreover have "length (take MSGSIZE m) = MSGSIZE" using m(1) by (simp add: holds_msg_def)
  ultimately show ?thesis
    using m(2,3) read_msg(3,4) [OF m(1) b] assms(3) by (simp add: take_msg_def Let_def sp_inv_def)
qed

lemma child_writes_inv:
  assumes "holds_msg hello" "holds_msg bye" "sp_inv hello bye s"
  shows "\<exists>u. sp_exec hello bye (Child_Writes i) s = Inr u \<and> sp_inv hello bye u"
proof (cases "\<exists>j. sp_child s i = Writing j \<and> i < 3 \<and> j < 4")
  case True
  then obtain j where j: "sp_child s i = Writing j" "i < 3" "j < 4" by blast
  have "child_ok (its_messages hello bye) j (said_by i (sp_out s)) (sp_pipe s i)"
    using assms(3) j(1) unfolding sp_inv_def by (metis written.simps(1))
  from child_ok_write [OF this j(3)]
  have "child_ok (its_messages hello bye) (Suc j) (said_by i (sp_out s))
      (sp_pipe s i @ take MSGSIZE (sp_message hello bye j))" using j(3) by (simp add: messages_nth)
  moreover have "sp_at s \<noteq> Returned" using assms(3) j(1,2) by (auto simp: sp_inv_def)
  ultimately show ?thesis
    using j assms(3) write_msg_ok [OF message_holds [OF assms(1,2)], of j] by (simp add: sp_inv_def)
next
  case False
  then have "sp_exec hello bye (Child_Writes i) s = Inr s" by (auto split: child_state.split)
  with assms(3) show ?thesis by simp
qed

lemma sp_exec_inv:
  assumes "holds_msg hello" "holds_msg bye" "sp_inv hello bye s"
  shows "\<exists>u. sp_exec hello bye e s = Inr u \<and> sp_inv hello bye u"
proof (cases e)
  case (Child_Writes i)
  with child_writes_inv [OF assms] show ?thesis by simp
next
  case (Child_Exits i)
  have "child_ok (its_messages hello bye) (written (sp_child s i)) (said_by i (sp_out s)) (sp_pipe s i)"
    using assms(3) by (simp add: sp_inv_def)
  then have "child_ok (its_messages hello bye) 4 (said_by i (sp_out s)) (sp_pipe s i)" if "sp_child s i = Writing 4"
    using that by simp
  with Child_Exits assms(3) show ?thesis by (auto simp: sp_inv_def)
next
  case (Select kb)
  then show ?thesis using assms(3) by (auto simp: sp_inv_def Let_def)
next
  case (Key k)
  then show ?thesis using assms(3) by (auto simp: sp_inv_def Let_def split: parent_at.split)
next
  case Take
  show ?thesis
  proof (cases "\<exists>i rest. sp_at s = At_Pipes (i # rest)")
    case True
    then obtain i rest where "sp_at s = At_Pipes (i # rest)" by blast
    then show ?thesis using take_msg_inv [OF assms, of i rest] Take by auto
  next
    case False
    then show ?thesis using assms(3) Take by (auto simp: sp_inv_def split: parent_at.split list.split)
  qed
next
  case (Wait i)
  have "i < 3 \<Longrightarrow> i = 0 \<or> i = 1 \<or> i = 2" for i :: nat by auto
  moreover have "child_ok (its_messages hello bye) (written (sp_child s i)) (said_by i (sp_out s)) (sp_pipe s i)"
    using assms(3) by (simp add: sp_inv_def)
  then have "child_ok (its_messages hello bye) 4 (said_by i (sp_out s)) (sp_pipe s i)" if "sp_child s i = Zombie"
    using that by simp
  ultimately show ?thesis using Wait assms(3) by (auto simp: sp_inv_def)
qed

lemma sp_run_inv:
  "holds_msg hello \<Longrightarrow> holds_msg bye \<Longrightarrow> sp_inv hello bye s \<Longrightarrow> \<exists>u. sp_run hello bye es s = Inr u \<and> sp_inv hello bye u"
proof (induction es arbitrary: s)
  case (Cons e es)
  obtain u where "sp_exec hello bye e s = Inr u" "sp_inv hello bye u" using sp_exec_inv Cons.prems by blast
  with Cons.IH [of u] Cons.prems show ?case by simp
qed simp

text \<open>The program's literals have 15 and 13 bytes: what is in memory behind them is written too.\<close>

lemma literal_lengths: "length hello_msg = 15" "length bye_msg = 13"
  by (simp_all add: hello_msg_def bye_msg_def c_literal_def)

lemma literal_memory:
  "1 \<le> length h \<Longrightarrow> holds_msg (hello_msg @ h)" "cstr (hello_msg @ h) = ''Hello, parent!''"
  "take MSGSIZE (hello_msg @ h) = hello_msg @ take 1 h"
  "3 \<le> length b \<Longrightarrow> holds_msg (bye_msg @ b)" "cstr (bye_msg @ b) = ''Bye, parent!''"
  "take MSGSIZE (bye_msg @ b) = bye_msg @ take 3 b"
  by (simp_all add: holds_msg_def MSGSIZE_def hello_msg_def bye_msg_def c_literal_def)

lemma literal_overrun:
  "length b < 3 \<Longrightarrow> write_msg (bye_msg @ b) = Inl Out_Of_Bounds" "write_msg hello_msg = Inl Out_Of_Bounds"
  by (simp_all add: write_msg_def MSGSIZE_def literal_lengths)

text \<open>
  Property C30.  \<^verbatim>\<open>selectpipe\<close> writes 16 bytes from the literals of its two messages, which
  have 15 and 13 bytes; \<open>h\<close> and \<open>b\<close> are what can be read in memory behind them.  If these are at
  least one and three bytes, then in every run nothing faults, what the parent has shown of a
  child are its first messages, in order and whole (\<^verbatim>\<open>Hello, parent!\<close> three times, then
  \<^verbatim>\<open>Bye, parent!\<close>), what is unread, foreign bytes included, is in its pipe, and the parent
  returns only after all children have been waited for.  If there is nothing behind the first
  literal, every greeting reads out of bounds, and if there are fewer than three bytes behind
  the second, every farewell does.
\<close>

theorem selectpipe_in_order:
  assumes "length junk = MSGSIZE"
  shows "(1 \<le> length h \<longrightarrow> 3 \<le> length b \<longrightarrow>
      (\<exists>s. sp_run (hello_msg @ h) (bye_msg @ b) es (sp_start junk c) = Inr s \<and> (\<forall>i. \<exists>k n. k \<le> n \<and> n \<le> 4
        \<and> said_by i (sp_out s) = take k [''Hello, parent!'', ''Hello, parent!'', ''Hello, parent!'', ''Bye, parent!'']
        \<and> sp_pipe s i = concat (drop k (take n
            [hello_msg @ take 1 h, hello_msg @ take 1 h, hello_msg @ take 1 h, bye_msg @ take 3 b])))
      \<and> (sp_at s = Returned \<longrightarrow> sp_child s 0 = Reaped \<and> sp_child s 1 = Reaped \<and> sp_child s 2 = Reaped)))
    \<and> (h = [] \<longrightarrow> (\<forall>s i j. i < 3 \<longrightarrow> j < 3 \<longrightarrow> sp_child s i = Writing j \<longrightarrow>
        sp_exec (hello_msg @ h) (bye_msg @ b) (Child_Writes i) s = Inl Out_Of_Bounds))
    \<and> (length b < 3 \<longrightarrow> (\<forall>s i. i < 3 \<longrightarrow> sp_child s i = Writing 3 \<longrightarrow>
        sp_exec (hello_msg @ h) (bye_msg @ b) (Child_Writes i) s = Inl Out_Of_Bounds))"
proof (intro conjI impI)
  let ?hello = "hello_msg @ h" and ?bye = "bye_msg @ b"
  assume "1 \<le> length h" "3 \<le> length b"
  note ok = literal_memory(1) [OF this(1)] literal_memory(4) [OF this(2)]
  have "sp_inv ?hello ?bye (sp_start junk c)" using assms by (simp add: sp_inv_def sp_start_def child_ok_def)
  from sp_run_inv [OF ok this] obtain s where s: "sp_run ?hello ?bye es (sp_start junk c) = Inr s" "sp_inv ?hello ?bye s"
    by blast
  have ms: "its_messages ?hello ?bye = [?hello, ?hello, ?hello, ?bye]" by (simp add: its_messages_def sp_message_def)
  have texts: "map cstr [?hello, ?hello, ?hello, ?bye]
      = [''Hello, parent!'', ''Hello, parent!'', ''Hello, parent!'', ''Bye, parent!'']"
    by (simp only: list.map literal_memory)
  have blocks: "map (take MSGSIZE) [?hello, ?hello, ?hello, ?bye]
      = [hello_msg @ take 1 h, hello_msg @ take 1 h, hello_msg @ take 1 h, bye_msg @ take 3 b]"
    by (simp only: list.map literal_memory)
  have "\<exists>k n. k \<le> n \<and> n \<le> 4 \<and> said_by i (sp_out s) = take k (map cstr [?hello, ?hello, ?hello, ?bye])
      \<and> sp_pipe s i = concat (drop k (take n (map (take MSGSIZE) [?hello, ?hello, ?hello, ?bye])))" for i
    using s(2) unfolding sp_inv_def child_ok_def ms take_map drop_map by blast
  note its = this [unfolded texts blocks]
  have "sp_at s = Returned \<longrightarrow> sp_child s 0 = Reaped \<and> sp_child s 1 = Reaped \<and> sp_child s 2 = Reaped"
    using s(2) by (auto simp: sp_inv_def)
  with s(1) its
  show "\<exists>s. sp_run ?hello ?bye es (sp_start junk c) = Inr s \<and> (\<forall>i. \<exists>k n. k \<le> n \<and> n \<le> 4
      \<and> said_by i (sp_out s) = take k [''Hello, parent!'', ''Hello, parent!'', ''Hello, parent!'', ''Bye, parent!'']
      \<and> sp_pipe s i = concat (drop k (take n
          [hello_msg @ take 1 h, hello_msg @ take 1 h, hello_msg @ take 1 h, bye_msg @ take 3 b])))
    \<and> (sp_at s = Returned \<longrightarrow> sp_child s 0 = Reaped \<and> sp_child s 1 = Reaped \<and> sp_child s 2 = Reaped)"
    by (intro exI [of _ s] conjI allI)
next
  assume "h = []"
  then show "\<forall>s i j. i < 3 \<longrightarrow> j < 3 \<longrightarrow> sp_child s i = Writing j \<longrightarrow>
      sp_exec (hello_msg @ h) (bye_msg @ b) (Child_Writes i) s = Inl Out_Of_Bounds"
    by (simp add: sp_message_def literal_overrun)
next
  assume "length b < 3"
  then show "\<forall>s i. i < 3 \<longrightarrow> sp_child s i = Writing 3 \<longrightarrow>
      sp_exec (hello_msg @ h) (bye_msg @ b) (Child_Writes i) s = Inl Out_Of_Bounds"
    by (simp add: sp_message_def literal_overrun)
qed

definition hello_mem :: bytes where "hello_mem = hello_msg @ [NUL]"
definition bye_mem :: bytes where "bye_mem = bye_msg @ [NUL, NUL, NUL]"

definition child_runs :: "nat \<Rightarrow> sp_event list" where
  "child_runs i = replicate 4 (Child_Writes i) @ [Child_Exits i]"

text \<open>A first run with zeros behind the literals, and a first write with nothing behind them.\<close>

theorem selectpipe_in_order_witness:
  "(\<exists>s. sp_run hello_mem bye_mem (child_runs 0 @ [Select False, Take, Take]) (sp_start (replicate 16 CR) CR) = Inr s
     \<and> said_by 0 (sp_out s) = [''Hello, parent!''] \<and> (\<exists>k n. k \<le> n \<and> n \<le> 4
        \<and> said_by 0 (sp_out s) = take k [''Hello, parent!'', ''Hello, parent!'', ''Hello, parent!'', ''Bye, parent!'']))
   \<and> sp_exec hello_msg bye_msg (Child_Writes 0) (sp_start (replicate 16 CR) CR) = Inl Out_Of_Bounds"
proof
  let ?es = "child_runs 0 @ [Select False, Take, Take]" and ?s = "sp_start (replicate 16 CR) CR"
  have len: "length (replicate 16 CR) = MSGSIZE" by (simp add: MSGSIZE_def)
  note run = selectpipe_in_order [OF len]
  have p: "1 \<le> length [NUL]" "3 \<le> length [NUL, NUL, NUL]" by simp_all
  have m: "hello_mem = hello_msg @ [NUL]" "bye_mem = bye_msg @ [NUL, NUL, NUL]"
    by (simp_all add: hello_mem_def bye_mem_def)
  obtain s where "sp_run hello_mem bye_mem ?es ?s = Inr s" "\<exists>k n. k \<le> n \<and> n \<le> 4
      \<and> said_by 0 (sp_out s) = take k [''Hello, parent!'', ''Hello, parent!'', ''Hello, parent!'', ''Bye, parent!'']"
  proof (rule exE [OF run [THEN conjunct1, THEN mp, OF p(1), THEN mp, OF p(2)]], elim conjE)
    fix s assume s: "sp_run (hello_msg @ [NUL]) (bye_msg @ [NUL, NUL, NUL]) ?es ?s = Inr s"
      and "\<forall>i. \<exists>k n. k \<le> n \<and> n \<le> 4
        \<and> said_by i (sp_out s) = take k [''Hello, parent!'', ''Hello, parent!'', ''Hello, parent!'', ''Bye, parent!'']
        \<and> sp_pipe s i = concat (drop k (take n [hello_msg @ take 1 [NUL], hello_msg @ take 1 [NUL],
            hello_msg @ take 1 [NUL], bye_msg @ take 3 [NUL, NUL, NUL]]))"
    from spec [OF this(2), of 0] have "\<exists>k n. k \<le> n \<and> n \<le> 4
      \<and> said_by 0 (sp_out s) = take k [''Hello, parent!'', ''Hello, parent!'', ''Hello, parent!'', ''Bye, parent!'']"
      by (elim exE conjE) (intro exI conjI)
    with s show thesis unfolding m [symmetric] by (rule that)
  qed
  moreover have "case sp_run hello_mem bye_mem ?es ?s of
      Inr s \<Rightarrow> said_by 0 (sp_out s) = [''Hello, parent!''] | Inl e \<Rightarrow> False"
    by code_simp
  ultimately show "\<exists>s. sp_run hello_mem bye_mem ?es ?s = Inr s
     \<and> said_by 0 (sp_out s) = [''Hello, parent!''] \<and> (\<exists>k n. k \<le> n \<and> n \<le> 4
        \<and> said_by 0 (sp_out s) = take k [''Hello, parent!'', ''Hello, parent!'', ''Hello, parent!'', ''Bye, parent!''])"
    by auto
  have w: "sp_child ?s 0 = Writing 0" by (simp add: sp_start_def)
  show "sp_exec hello_msg bye_msg (Child_Writes 0) ?s = Inl Out_Of_Bounds"
    using run [THEN conjunct2, THEN conjunct1, of "[]" "[]", THEN mp, OF refl, THEN spec [of _ ?s], THEN spec [of _ 0],
      THEN spec [of _ 0]] w
    by (simp del: sp_exec.simps)
qed

definition lossy_run :: "sp_event list" where
  "lossy_run = [Select True] @ child_runs 0 @ child_runs 1 @ child_runs 2 @ [Key (Some CR), Take, Wait 0]
     @ [Select False, Take, Take, Take, Take, Wait 1] @ [Select False, Take, Take, Take, Take, Wait 2]
     @ [Select False, Take, Take, Take, Take, Wait 0]"

text \<open>
  The parent of \<^verbatim>\<open>selectpipe\<close> may return before it has read everything: it
  waits for one child per turn and leaves when there is none, so that when the children write
  and exit during its first turn the farewells are still in the pipes.
\<close>

lemma selectpipe_loses:
  "case sp_run hello_mem bye_mem lossy_run (sp_start (replicate 16 CR) CR) of
     Inr s \<Rightarrow> sp_at s = Returned
       \<and> said_by 0 (sp_out s) = replicate 3 (cstr hello_mem) \<and> sp_pipe s 0 = bye_mem
       \<and> said_by 1 (sp_out s) = replicate 3 (cstr hello_mem) \<and> sp_pipe s 1 = bye_mem
       \<and> said_by 2 (sp_out s) = replicate 3 (cstr hello_mem) \<and> sp_pipe s 2 = bye_mem
   | Inl e \<Rightarrow> False"
  by code_simp

end
