(* ===== verification/Signals.thy ===== *)
theory Signals
  imports Pipe_Chat Transition
begin

section \<open>Signals between processes\<close>

text \<open>
  \<^verbatim>\<open>lab2/ch8/sendsignal.c\<close> (two processes that wake each other with SIGUSR1) and
  \<^verbatim>\<open>lab2/ch8/pibonacci.c\<close> (a Fibonacci sequence that SIGINT restarts).  The members of
  \<^verbatim>\<open>struct sigaction\<close> that the programs do not initialise are taken to be zero.
\<close>

subsection \<open>sendsignal\<close>

text \<open>Where a process stands: before \<^verbatim>\<open>sigaction\<close>, at the calls of its loop, in \<^verbatim>\<open>pause\<close>,
  ended by a signal.\<close>

datatype sig_at = Installing | At_Sleep | At_Kill | At_Pause | In_Pause | Ended

record sig_proc =
  sig_at :: sig_at
  sig_pending :: bool
  sig_i :: nat \<comment> \<open>the counter of the handler\<close>

type_synonym sig_state = "side \<Rightarrow> sig_proc"

definition sig_start :: sig_state where
  "sig_start = (\<lambda>p. \<lparr>sig_at = Installing, sig_pending = False, sig_i = 0\<rparr>)"

text \<open>One call of a process returns; \<^verbatim>\<open>pause\<close> returns after a handler only.\<close>

fun sig_move :: "side \<Rightarrow> sig_at \<Rightarrow> sig_at" where
  "sig_move p Installing = (if p = Parent_Side then At_Pause else At_Sleep)"
| "sig_move p At_Sleep = At_Kill"
| "sig_move p At_Kill = At_Pause"
| "sig_move p At_Pause = In_Pause"
| "sig_move p In_Pause = In_Pause"
| "sig_move p Ended = Ended"

definition sig_call :: "side \<Rightarrow> sig_state \<Rightarrow> sig_state" where
  "sig_call p s =
     (let t = s(p := (s p)\<lparr>sig_at := sig_move p (sig_at (s p))\<rparr>) in
      if sig_at (s p) = At_Kill \<and> sig_at (s (opposite p)) \<noteq> Ended
      then t(opposite p := (s (opposite p))\<lparr>sig_pending := True\<rparr>)
      else t)"

text \<open>The delivery of a pending signal: the default action ends a process that has no handler
  yet; the handler counts, prints, and ends a \<^verbatim>\<open>pause\<close> that has begun.\<close>

definition sig_deliver :: "side \<Rightarrow> sig_state \<Rightarrow> sig_state" where
  "sig_deliver p s =
     (let x = (s p)\<lparr>sig_pending := False\<rparr> in
      s(p := if sig_at x = Installing then x\<lparr>sig_at := Ended\<rparr>
             else x\<lparr>sig_i := sig_i x + 1, sig_at := if sig_at x = In_Pause then At_Sleep else sig_at x\<rparr>))"

datatype sig_event = Call side | Deliver side

fun sig_exec :: "sig_event \<Rightarrow> sig_state \<Rightarrow> sig_state" where
  "sig_exec (Call p) s = sig_call p s"
| "sig_exec (Deliver p) s = (if sig_pending (s p) \<and> sig_at (s p) \<noteq> Ended then sig_deliver p s else s)"

definition sig_run :: "sig_event list \<Rightarrow> sig_state \<Rightarrow> sig_state" where
  "sig_run es s = fold sig_exec es s"

text \<open>\<^verbatim>\<open>main\<close>: without a child the program ends, and otherwise both processes are before
  their \<^verbatim>\<open>sigaction\<close>.\<close>

definition sendsignal_main :: "int \<Rightarrow> sig_event list \<Rightarrow> (int \<times> string) + sig_state" where
  "sendsignal_main pid es = (if pid < 0 then Inl (1, ''Error'') else Inr (sig_run es sig_start))"

text \<open>The turn: the child has it from the start, a process that was woken has it until it
  has sent its signal, and then the signal is it.\<close>

definition awake :: "side \<Rightarrow> sig_state \<Rightarrow> bool" where
  "awake p s \<longleftrightarrow> sig_at (s p) \<in> {At_Sleep, At_Kill} \<or> p = Child_Side \<and> sig_at (s p) = Installing"

definition sig_ok :: "sig_state \<Rightarrow> bool" where
  "sig_ok s \<longleftrightarrow>
     (let i = sig_i (s Parent_Side); j = sig_i (s Child_Side) in
      (i = j \<or> i = Suc j)
      \<and> (awake Child_Side s \<or> sig_pending (s Parent_Side) \<longrightarrow> i = j)
      \<and> (awake Parent_Side s \<or> sig_pending (s Child_Side) \<longrightarrow> i = Suc j)
      \<and> \<not> (awake Child_Side s \<and> sig_pending (s Parent_Side))
      \<and> \<not> (awake Parent_Side s \<and> sig_pending (s Child_Side)))"

lemmas sig_defs = sig_ok_def awake_def Let_def

lemma sig_call_ok: "sig_ok s \<Longrightarrow> sig_ok (sig_call p s)"
  by (cases p; cases "sig_at (s p)") (auto simp: sig_call_def sig_defs)

lemma sig_deliver_ok: "sig_ok s \<Longrightarrow> sig_pending (s p) \<Longrightarrow> sig_ok (sig_deliver p s)"
  by (cases p; cases "sig_at (s p)") (auto simp: sig_deliver_def sig_defs)

lemma sig_exec_ok: "sig_ok s \<Longrightarrow> sig_ok (sig_exec e s)"
  by (cases e) (auto simp: sig_call_ok sig_deliver_ok)

interpretation signalling: inductive_invariant "\<lambda>s. s = sig_start" "\<lambda>s t. \<exists>e. t = sig_exec e s" sig_ok
  by unfold_locales (auto simp: sig_exec_ok, simp add: sig_start_def sig_defs)

lemma sig_run_steps: "(\<lambda>s t. \<exists>e. t = sig_exec e s)\<^sup>*\<^sup>* s (sig_run es s)"
  by (induction es arbitrary: s) (auto simp: sig_run_def intro: converse_rtranclp_into_rtranclp)

text \<open>
  Property C37.  In every run of the two processes the handlers are called in turn, the
  parent's first, and at no time are both processes between waking up and sending.
\<close>

theorem signals_alternate:
  "(let s = sig_run es sig_start; i = sig_i (s Parent_Side); j = sig_i (s Child_Side) in
     (i = j \<or> i = Suc j) \<and> \<not> (awake Parent_Side s \<and> awake Child_Side s))"
proof -
  have "sig_ok (sig_run es sig_start)"
    using signalling.steps_inv [OF sig_run_steps] by (simp add: sig_start_def sig_defs)
  then show ?thesis unfolding sig_ok_def Let_def by auto
qed

text \<open>
  The exchange can stop: a signal that arrives before the receiver has
  called \<^verbatim>\<open>pause\<close> is handled and forgotten, and then both processes wait for ever; one that
  arrives before the receiver's \<^verbatim>\<open>sigaction\<close> ends it.
\<close>

definition lost_wakeup :: "sig_event list" where
  "lost_wakeup = [Call Parent_Side, Call Child_Side, Call Child_Side, Call Child_Side, Deliver Parent_Side,
     Call Parent_Side, Call Child_Side]"

definition early_signal :: "sig_event list" where
  "early_signal = [Call Child_Side, Call Child_Side, Call Child_Side, Deliver Parent_Side]"

lemma signals_get_lost:
  "(\<forall>es. let s = sig_run (lost_wakeup @ es) sig_start in
      sig_at (s Parent_Side) = In_Pause \<and> sig_at (s Child_Side) = In_Pause
      \<and> \<not> sig_pending (s Parent_Side) \<and> \<not> sig_pending (s Child_Side))
   \<and> sig_at (sig_run early_signal sig_start Parent_Side) = Ended"
proof -
  let ?stuck = "\<lambda>s. sig_at (s Parent_Side) = In_Pause \<and> sig_at (s Child_Side) = In_Pause
      \<and> \<not> sig_pending (s Parent_Side) \<and> \<not> sig_pending (s Child_Side)"
  have step: "?stuck (sig_exec e s)" if "?stuck s" for e s
  proof (cases e)
    case (Call p)
    with that show ?thesis by (cases p) (simp_all add: sig_call_def)
  next
    case (Deliver p)
    with that show ?thesis by (cases p) simp_all
  qed
  have "?stuck (sig_run es s)" if "?stuck s" for es s
    using that step by (induction es arbitrary: s) (simp_all add: sig_run_def)
  moreover have "?stuck (sig_run lost_wakeup sig_start)" by code_simp
  moreover have "sig_run (lost_wakeup @ es) sig_start = sig_run es (sig_run lost_wakeup sig_start)" for es
    by (simp add: sig_run_def)
  moreover have "sig_at (sig_run early_signal sig_start Parent_Side) = Ended" by code_simp
  ultimately show ?thesis by (simp add: Let_def)
qed

subsection \<open>pibonacci\<close>

text \<open>One turn of \<^verbatim>\<open>while (1)\<close>: what is printed, and the two numbers after it.  After
  an interrupt the loop starts again with locals that \<^verbatim>\<open>siglongjmp\<close> has left indeterminate.\<close>

definition pib_turn :: "int \<times> int \<Rightarrow> (int \<times> int) cres" where
  "pib_turn v = (case v of (cur_i, past_i) \<Rightarrow> cbind (c_int (cur_i + past_i)) (\<lambda>cur. Inr (cur, cur_i)))"

datatype pib_event = Second | Interrupt

fun pib_run :: "pib_event list \<Rightarrow> (int \<times> int) option \<Rightarrow> int list cres" where
  "pib_run [] v = Inr []"
| "pib_run (Second # es) v =
     (case v of
        None \<Rightarrow> Inl Uninitialised
      | Some w \<Rightarrow> cbind (pib_turn w) (\<lambda>u. cbind (pib_run es (Some u)) (\<lambda>out. Inr (fst w # out))))"
| "pib_run (Interrupt # es) v = pib_run es None"

definition pibonacci :: "pib_event list \<Rightarrow> int list cres" where
  "pibonacci es = pib_run es (Some (1, 0))"

fun fib :: "nat \<Rightarrow> nat" where
  "fib 0 = 0"
| "fib (Suc 0) = 1"
| "fib (Suc (Suc n)) = fib (Suc n) + fib n"

lemma fib_mono: "m \<le> n \<Longrightarrow> fib m \<le> fib n"
proof (induction n rule: fib.induct)
  case (3 n)
  then show ?case by (cases "m = Suc (Suc n)") (auto simp: le_Suc_eq)
qed (auto simp: le_Suc_eq)

fun fib_pair :: "nat \<Rightarrow> int \<times> int \<Rightarrow> int \<times> int" where
  "fib_pair 0 v = v"
| "fib_pair (Suc n) (a, b) = fib_pair n (b, a + b)"

lemma fib_pair_eq: "fib_pair n (int (fib k), int (fib (Suc k))) = (int (fib (k + n)), int (fib (Suc (k + n))))"
proof (induction n arbitrary: k)
  case (Suc n)
  have "int (fib k) + int (fib (Suc k)) = int (fib (Suc (Suc k)))" by simp
  with Suc [of "Suc k"] show ?case by (simp del: fib.simps)
qed simp

lemma fib_46_47: "fib 46 < 2 ^ 31 \<and> 2 ^ 31 \<le> fib 47"
proof -
  have "fib_pair 46 (0, 1) = (1836311903, 2971215073)" by code_simp
  moreover have "fib_pair 46 (0, 1) = (int (fib 46), int (fib 47))"
    using fib_pair_eq [of 46 0] by simp
  ultimately have "fib 46 = 1836311903" "fib 47 = 2971215073" by simp_all
  then show ?thesis by simp
qed

lemma fib_fits: "fib n < 2 ^ 31 \<longleftrightarrow> n \<le> 46"
  using fib_mono [of n 46] fib_mono [of 47 n] fib_46_47 by (cases "n \<le> 46") auto

lemma pib_seconds:
  "pib_run (replicate n Second) (Some (int (fib (Suc k)), int (fib k)))
    = (if n = 0 \<or> n + k \<le> 45 then Inr (map (\<lambda>i. int (fib i)) [Suc k..<Suc k + n]) else Inl Signed_Overflow)"
proof (induction n arbitrary: k)
  case (Suc n)
  have sum: "int (fib (Suc k)) + int (fib k) = int (fib (Suc (Suc k)))" by simp
  have fits: "pib_turn (int (fib (Suc k)), int (fib k))
      = (if Suc k \<le> 45 then Inr (int (fib (Suc (Suc k))), int (fib (Suc k))) else Inl Signed_Overflow)"
    using fib_fits [of "Suc (Suc k)"] by (simp add: pib_turn_def sum c_int_def del: fib.simps)
  show ?case
  proof (cases "Suc k \<le> 45")
    case True
    have upt: "[Suc k..<Suc k + Suc n] = Suc k # [Suc (Suc k)..<Suc (Suc k) + n]" by (simp add: upt_rec)
    from True show ?thesis unfolding upt using fits Suc.IH [of "Suc k"] by (auto simp del: fib.simps)
  next
    case False
    with fits show ?thesis by (simp del: fib.simps)
  qed
qed simp

text \<open>
  Uninterrupted, \<^verbatim>\<open>pibonacci\<close> prints the Fibonacci numbers from the first
  on, and the sum overflows \<^verbatim>\<open>int\<close> in its forty-sixth second.
\<close>

lemma pibonacci_prints:
  "pibonacci (replicate n Second)
    = (if n \<le> 45 then Inr (map (\<lambda>i. int (fib i)) [1..<Suc n]) else Inl Signed_Overflow)"
  using pib_seconds [of n 0] by (simp add: pibonacci_def)

end
