(* ===== verification/Dir_Listing.thy ===== *)
theory Dir_Listing
  imports Command_Laws
begin

section \<open>Listing directories\<close>

text \<open>
  \<^verbatim>\<open>lab2/ls_R.c\<close>, the recursive listing, and \<^verbatim>\<open>lab2/ch7/file_dir.c\<close>, three names to a line,
  over the file system of \<open>File_Store\<close>.  The recursion is bounded by fuel; a result \<open>None\<close>
  means that it was not enough, and the property shows how much is.
\<close>

subsection \<open>ls\_R\<close>

definition dot_entry :: "bytes \<Rightarrow> bool" where
  "dot_entry e \<longleftrightarrow> e = ''.'' \<or> e = ''..''"

text \<open>The first loop: the names of a directory under its path.\<close>

definition dir_block :: "bytes \<Rightarrow> bytes list \<Rightarrow> bytes" where
  "dir_block base_path es =
     NL # base_path @ '':'' @ [NL] @ concat (map (\<lambda>e. e @ [SP, SP]) (filter (\<lambda>e. \<not> dot_entry e) es)) @ [NL]"

text \<open>The second loop; \<open>rec\<close> lists the directory of a path.\<close>

fun sub_loop :: "(bytes \<Rightarrow> bytes cres option) \<Rightarrow> fs \<Rightarrow> bytes \<Rightarrow> bytes list \<Rightarrow> bytes cres option" where
  "sub_loop rec f base_path [] = Some (Inr [])"
| "sub_loop rec f base_path (e # es) =
     (if dot_entry e then sub_loop rec f base_path es
      else case store_cstr (replicate 1024 NUL) (base_path @ ''/'' @ e) of
          Inl x \<Rightarrow> Some (Inl x)
        | Inr path \<Rightarrow> (case sys_lstat (cstr path) f of
              None \<Rightarrow> sub_loop rec f base_path es
            | Some (i, nlink) \<Rightarrow>
                if i_kind i = K_Dir then
                  (case rec (cstr path) of
                     None \<Rightarrow> None
                   | Some t \<Rightarrow> map_option (\<lambda>r. cbind t (\<lambda>t. cbind r (\<lambda>r. Inr (t @ r)))) (sub_loop rec f base_path es))
                else sub_loop rec f base_path es))"

fun list_recursive :: "nat \<Rightarrow> fs \<Rightarrow> bytes \<Rightarrow> bytes cres option" where
  "list_recursive 0 f base_path = None"
| "list_recursive (Suc n) f base_path =
     (case sys_readdir base_path f of
        Inl e \<Rightarrow> Some (Inr [])
      | Inr es \<Rightarrow> map_option (\<lambda>r. cbind r (\<lambda>r. Inr (dir_block base_path es @ r)))
          (sub_loop (list_recursive n f) f base_path es))"

definition ls_R :: "nat \<Rightarrow> fs \<Rightarrow> bytes cres option" where
  "ls_R n f = list_recursive n f ''.''"

subsection \<open>Paths below a directory\<close>

text \<open>The text of a path relative to a directory named \<open>base\<close>.\<close>

definition below :: "bytes \<Rightarrow> path \<Rightarrow> bytes" where
  "below base q = base @ concat (map (\<lambda>c. CHR ''/'' # c) q)"

lemma below_simps [simp]: "below base [] = base" "below (base @ CHR ''/'' # e) q = below base (e # q)"
  by (simp_all add: below_def)

lemma components_snoc:
  "component_ok e \<Longrightarrow> components w (s @ CHR ''/'' # e) = components w s @ [e]"
proof (induction w s rule: components.induct)
  have plain: "components v e' = [v @ e']" if "CHR ''/'' \<notin> set e'" "v @ e' \<noteq> []" for v e'
    using that by (induction e' arbitrary: v) auto
  case (1 w)
  then show ?case using plain [of e "[]"] by (auto simp: component_ok_def)
next
  case (2 w c s)
  then show ?case by auto
qed

lemma walk_into:
  assumes "walk f n True cur cs = Inr p" and "kind_at f p = Some K_Dir"
    and "kind_at f (p @ [e]) \<noteq> None" and "name_ok e"
  shows "walk f n False cur (cs @ [e]) = Inr (p @ [e])"
    and "kind_at f (p @ [e]) = Some K_Dir \<Longrightarrow> walk f n True cur (cs @ [e]) = Inr (p @ [e])"
proof -
  have "walk f n False cur (cs @ [e]) = Inr (p @ [e])
    \<and> (kind_at f (p @ [e]) = Some K_Dir \<longrightarrow> walk f n True cur (cs @ [e]) = Inr (p @ [e]))"
    using assms
  proof (induction f n "True" cur cs rule: walk.induct)
    case (1 f n cur)
    then show ?case by (auto simp: walk.simps(2) name_ok_def split: option.split kind.split)
  next
    case (2 f n cur c cs)
    note w = walk.simps(2) [of f n _ cur c]
    note res = "2.prems"(1) [unfolded w]
    consider "c = ''.'' \<or> c = ''..''" | "c \<noteq> ''.''" "c \<noteq> ''..''" by blast
    then show ?case
    proof cases
      case 1
      then show ?thesis using w res "2.hyps"(1,2) "2.prems"(2-4) by auto
    next
      case 2
      note IH = "2.hyps"(3,4) [OF 2]
      show ?thesis
      proof (cases "kind_at f (cur @ [c])")
        case None
        then show ?thesis using res 2 "2.prems"(2) by (auto split: if_splits)
      next
        case (Some k)
        show ?thesis
        proof (cases k)
          case K_Dir
          then show ?thesis using w res 2 Some IH(1) [OF Some K_Dir] "2.prems"(2-4) by simp
        next
          case (K_File d)
          then show ?thesis using res 2 Some "2.prems"(2) by (auto split: if_splits)
        next
          case (K_Link t)
          then obtain m where m: "n = Suc m"
            using res 2 Some by (cases n) auto
          then show ?thesis
            using w res 2 Some K_Link IH(2) [OF Some K_Link _ m] "2.prems"(2-4) by auto
        qed
      qed
    qed
  qed
  then show "walk f n False cur (cs @ [e]) = Inr (p @ [e])"
    "kind_at f (p @ [e]) = Some K_Dir \<Longrightarrow> walk f n True cur (cs @ [e]) = Inr (p @ [e])" by blast+
qed

text \<open>A path that leads to a directory, with the name of an entry appended, leads to the entry.\<close>

lemma find_into:
  assumes "find True base f = Inr (p, n)" and "kind_at f p = Some K_Dir"
    and "lookup (names f) (p @ [e]) = Some m" and "kind_at f (p @ [e]) \<noteq> None" and "name_ok e"
  shows "find False (base @ CHR ''/'' # e) f = Inr (p @ [e], m)"
    and "kind_at f (p @ [e]) = Some K_Dir \<Longrightarrow> find True (base @ CHR ''/'' # e) f = Inr (p @ [e], m)"
proof -
  have r: "resolve True base f = Inr p" using assms(1) by (auto simp: find_def split: sum.splits option.splits)
  then have "base \<noteq> []" by (auto simp: resolve_def)
  then have s: "starts ''/'' (base @ x) = starts ''/'' base" for x by (cases base) simp_all
  have e: "components [] (base @ CHR ''/'' # e) = components [] base @ [e]"
    using assms(5) components_snoc [of e "[]" base] by (simp add: name_ok_def)
  have "resolve False (base @ CHR ''/'' # e) f = Inr (p @ [e])
    \<and> (kind_at f (p @ [e]) = Some K_Dir \<longrightarrow> resolve True (base @ CHR ''/'' # e) f = Inr (p @ [e]))"
    using r walk_into [OF _ assms(2,4,5)] unfolding resolve_def s e by (auto split: if_splits)
  then show "find False (base @ CHR ''/'' # e) f = Inr (p @ [e], m)"
    "kind_at f (p @ [e]) = Some K_Dir \<Longrightarrow> find True (base @ CHR ''/'' # e) f = Inr (p @ [e], m)"
    using assms(3) by (simp_all add: find_def)
qed

subsection \<open>The directories of a tree\<close>

text \<open>The directories below one, in the order of the listing, each with the path under which it
  is listed; \<open>n\<close> is more than their depth.\<close>

fun dirs_below :: "nat \<Rightarrow> fs \<Rightarrow> bytes \<Rightarrow> path \<Rightarrow> (bytes \<times> path) list" where
  "dirs_below 0 f base p = []"
| "dirs_below (Suc n) f base p = (base, p) # concat (map (\<lambda>e.
     if kind_at f (p @ [e]) = Some K_Dir then dirs_below n f (base @ CHR ''/'' # e) (p @ [e]) else [])
     (children p f))"

text \<open>The tree at \<open>p\<close>: less than \<open>n\<close> deep, its paths under \<open>base\<close> fit an array of 1024 bytes, no
  name has a NUL.\<close>

definition tree_fits :: "nat \<Rightarrow> fs \<Rightarrow> bytes \<Rightarrow> path \<Rightarrow> bool" where
  "tree_fits n f base p \<longleftrightarrow> NUL \<notin> set base \<and>
     (\<forall>q. lookup (names f) (p @ q) \<noteq> None \<longrightarrow> length q < n \<and> length (below base q) < 1024 \<and> (\<forall>c \<in> set q. NUL \<notin> set c))"

lemma tree_fits_child:
  assumes "tree_fits (Suc n) f base p" and "lookup (names f) (p @ [e]) \<noteq> None"
  shows "tree_fits n f (base @ CHR ''/'' # e) (p @ [e])"
  unfolding tree_fits_def
proof (intro conjI allI impI)
  show "NUL \<notin> set (base @ CHR ''/'' # e)"
    using assms(1) [unfolded tree_fits_def, THEN conjunct2, rule_format, OF assms(2)] assms(1)
    by (simp add: tree_fits_def)
next
  fix q assume "lookup (names f) ((p @ [e]) @ q) \<noteq> None"
  then have "lookup (names f) (p @ e # q) \<noteq> None" by simp
  then have "length (e # q) < Suc n \<and> length (below base (e # q)) < 1024 \<and> (\<forall>c \<in> set (e # q). NUL \<notin> set c)"
    using assms(1) unfolding tree_fits_def by blast
  then show "length q < n" "length (below (base @ CHR ''/'' # e) q) < 1024" "\<forall>c \<in> set q. NUL \<notin> set c"
    by simp_all
qed

text \<open>What stands above an existing name is a directory.\<close>

lemma above_is_dir:
  assumes "fs_wf f"
  shows "lookup (names f) (p @ q) \<noteq> None \<Longrightarrow> q \<noteq> [] \<Longrightarrow> kind_at f p = Some K_Dir"
proof (induction q rule: rev_induct)
  case (snoc x q)
  have "kind_at f (p @ q) = Some K_Dir"
    using fs_wf_parent [OF assms, of "p @ q @ [x]"] snoc.prems by (simp add: butlast_append)
  with snoc.IH kind_at_lookup [of f "p @ q"] show ?case by (cases "q = []") auto
qed simp

text \<open>The directories below one: itself, and those below the directories in it.\<close>

lemma dirs_unfold:
  assumes "fs_wf f" and "kind_at f p = Some K_Dir"
  shows "{(below base q, p @ q) | q. kind_at f (p @ q) = Some K_Dir}
    = insert (base, p) (\<Union>e \<in> {e. kind_at f (p @ [e]) = Some K_Dir}.
        {(below (base @ CHR ''/'' # e) q, (p @ [e]) @ q) | q. kind_at f ((p @ [e]) @ q) = Some K_Dir})"
    (is "?D = insert _ ?U")
proof (rule set_eqI)
  fix x show "x \<in> ?D \<longleftrightarrow> x \<in> insert (base, p) ?U"
  proof
    assume "x \<in> ?D"
    then obtain q where q: "x = (below base q, p @ q)" "kind_at f (p @ q) = Some K_Dir" by blast
    show "x \<in> insert (base, p) ?U"
    proof (cases q)
      case (Cons e r)
      have "kind_at f (p @ [e]) = Some K_Dir"
        using q(2) Cons above_is_dir [OF assms(1), of "p @ [e]" r] kind_at_lookup [OF q(2)] by (cases "r = []") auto
      with q Cons show ?thesis by (auto simp: below_def)
    qed (use q in simp)
  next
    assume "x \<in> insert (base, p) ?U"
    then show "x \<in> ?D"
    proof
      assume "x = (base, p)"
      then show ?thesis using assms(2) by (auto intro: exI [of _ "[]"])
    next
      assume "x \<in> ?U"
      then obtain e q where "x = (below base (e # q), p @ e # q)" "kind_at f (p @ e # q) = Some K_Dir" by auto
      then show ?thesis by blast
    qed
  qed
qed

lemma dirs_below_set:
  assumes "fs_wf f"
  shows "kind_at f p = Some K_Dir \<Longrightarrow> \<forall>q. lookup (names f) (p @ q) \<noteq> None \<longrightarrow> length q < n \<Longrightarrow>
    set (dirs_below n f base p) = {(below base q, p @ q) | q. kind_at f (p @ q) = Some K_Dir}"
proof (induction n arbitrary: base p)
  case 0
  then show ?case using kind_at_lookup [of f p] by (auto dest: spec [of _ "[]"])
next
  case (Suc n)
  let ?D = "\<lambda>base p. {(below base q, p @ q) | q. kind_at f (p @ q) = Some K_Dir}"
  have IH: "set (dirs_below n f (base @ CHR ''/'' # e) (p @ [e])) = ?D (base @ CHR ''/'' # e) (p @ [e])"
    if "kind_at f (p @ [e]) = Some K_Dir" for e
  proof (rule Suc.IH [OF that], intro allI impI)
    fix q assume "lookup (names f) ((p @ [e]) @ q) \<noteq> None"
    then show "length q < n" using Suc.prems(2) [rule_format, of "e # q"] by simp
  qed
  have kids: "e \<in> set (children p f) \<longleftrightarrow> lookup (names f) (p @ [e]) \<noteq> None" for e
    using children_set [OF assms] by simp
  note dirs_unfold [OF assms Suc.prems(1), of base]
  moreover have "{e \<in> set (children p f). kind_at f (p @ [e]) = Some K_Dir} = {e. kind_at f (p @ [e]) = Some K_Dir}"
    using kids kind_at_lookup by blast
  moreover have "set (dirs_below (Suc n) f base p) = insert (base, p)
      (\<Union>e \<in> {e \<in> set (children p f). kind_at f (p @ [e]) = Some K_Dir}. set (dirs_below n f (base @ CHR ''/'' # e) (p @ [e])))"
    by auto
  ultimately show ?case using IH by auto
qed

lemma dirs_below_prefix: "(t, r) \<in> set (dirs_below n f base p) \<Longrightarrow> take (length p) r = p"
proof (induction n arbitrary: base p)
  case (Suc n)
  show ?case
  proof (cases "r = p")
    case False
    with Suc.prems obtain e where "(t, r) \<in> set (dirs_below n f (base @ CHR ''/'' # e) (p @ [e]))"
      by (auto split: if_splits)
    from Suc.IH [OF this] show ?thesis by (metis append_eq_conv_conj length_append min.absorb1 le_add1 take_take)
  qed simp
qed simp

lemma distinct_concat_below:
  assumes "distinct es" and "\<And>e. distinct (map snd (g e))"
    and "\<And>e t r. (t, r) \<in> set (g e) \<Longrightarrow> take (Suc (length p)) r = p @ [e]"
  shows "distinct (map snd (concat (map g es)))"
  using assms(1)
proof (induction es)
  case (Cons e es)
  have off: "snd x \<notin> snd ` set (concat (map g es))" if x: "x \<in> set (g e)" for x
  proof
    obtain t r where x': "x = (t, r)" by (cases x)
    with x have that: "(t, r) \<in> set (g e)" by simp
    assume "snd x \<in> snd ` set (concat (map g es))"
    with x' have "r \<in> snd ` set (concat (map g es))" by simp
    then obtain t' e' where e': "e' \<in> set es" "(t', r) \<in> set (g e')" by auto
    from assms(3) [OF this(2)] assms(3) [OF that] have "e = e'" by simp
    with e'(1) Cons.prems show False by simp
  qed
  have "\<forall>r \<in> snd ` set (g e). r \<notin> snd ` set (concat (map g es))"
    by (intro ballI, elim imageE, hypsubst, rule off)
  then have "set (map snd (g e)) \<inter> set (map snd (concat (map g es))) = {}" unfolding set_map by blast
  moreover have "distinct (map snd (concat (map g es)))" using Cons by simp
  moreover have "map snd (concat (map g (e # es))) = map snd (g e) @ map snd (concat (map g es))" by simp
  ultimately show ?case using assms(2) [of e] by (simp only: distinct_append)
qed simp

lemma dirs_below_distinct:
  assumes "fs_wf f"
  shows "distinct (map snd (dirs_below n f base p))"
proof (induction n arbitrary: base p)
  case (Suc n)
  let ?g = "\<lambda>e. if kind_at f (p @ [e]) = Some K_Dir then dirs_below n f (base @ CHR ''/'' # e) (p @ [e]) else []"
  have pre: "take (Suc (length p)) r = p @ [e]" if "(t, r) \<in> set (?g e)" for e t r
    using that dirs_below_prefix [of t r n f "base @ CHR ''/'' # e" "p @ [e]"] by (auto split: if_splits)
  have "distinct (map snd (concat (map ?g (children p f))))"
    by (rule distinct_concat_below [where p = p, OF children_distinct [OF assms]])
      (use Suc.IH pre in \<open>auto split: if_splits\<close>)
  moreover have "p \<notin> snd ` set (concat (map ?g (children p f)))"
  proof
    assume "p \<in> snd ` set (concat (map ?g (children p f)))"
    then obtain t e where "(t, p) \<in> set (?g e)" by (auto split: if_splits)
    from pre [OF this] show False by simp
  qed
  ultimately show ?case by simp
qed simp

subsection \<open>The listing\<close>

definition tree_text :: "fs \<Rightarrow> (bytes \<times> path) list \<Rightarrow> bytes" where
  "tree_text f ds = concat (map (\<lambda>(t, q). dir_block t (children q f)) ds)"

lemma tree_text_simps [simp]:
  "tree_text f [] = []" "tree_text f ((t, q) # ds) = dir_block t (children q f) @ tree_text f ds"
  "tree_text f (ds @ es) = tree_text f ds @ tree_text f es"
  by (simp_all add: tree_text_def)

lemma dir_block_dots: "dir_block t (''.'' # ''..'' # es) = dir_block t es"
  by (simp add: dir_block_def dot_entry_def)

text \<open>An entry is examined: its path fits the array, and \<^verbatim>\<open>lstat\<close> finds it.\<close>

lemma entry_found:
  assumes "fs_wf f" and "find True base f = Inr (p, n)" and "kind_at f p = Some K_Dir"
    and "tree_fits k f base p" and "e \<in> set (children p f)"
  shows "\<not> dot_entry e"
    and "\<exists>buf. store_cstr (replicate 1024 NUL) (base @ ''/'' @ e) = Inr buf \<and> cstr buf = base @ CHR ''/'' # e"
    and "\<exists>i l. sys_lstat (base @ CHR ''/'' # e) f = Some (i, l) \<and> kind_at f (p @ [e]) = Some (i_kind i)"
    and "kind_at f (p @ [e]) = Some K_Dir \<Longrightarrow> \<exists>m. find True (base @ CHR ''/'' # e) f = Inr (p @ [e], m)"
proof -
  have l: "lookup (names f) (p @ [e]) \<noteq> None" using assms(5) children_set [OF assms(1)] by simp
  then obtain m where m: "lookup (names f) (p @ [e]) = Some m" by auto
  then obtain i where i: "inodes f m = Some i" using fs_wf_inode [OF assms(1) m] by auto
  then have k: "kind_at f (p @ [e]) = Some (i_kind i)" using m by (simp add: kind_at_def inode_at_def)
  have nm: "name_ok e" using fs_wf_parent [OF assms(1) _ l] by simp
  then show "\<not> dot_entry e" by (simp add: name_ok_def dot_entry_def)
  have "length (base @ ''/'' @ e) < 1024 \<and> NUL \<notin> set (base @ ''/'' @ e)"
    using assms(4) l unfolding tree_fits_def by (auto simp: below_def dest: spec [of _ "[e]"])
  then show "\<exists>buf. store_cstr (replicate 1024 NUL) (base @ ''/'' @ e) = Inr buf \<and> cstr buf = base @ CHR ''/'' # e"
    using cstr_terminator [of "base @ ''/'' @ e"] by (auto simp: store_cstr_def)
  note into = find_into [OF assms(2,3) m _ nm]
  show "\<exists>i l. sys_lstat (base @ CHR ''/'' # e) f = Some (i, l) \<and> kind_at f (p @ [e]) = Some (i_kind i)"
    using into(1) k i by (simp add: sys_lstat_def)
  show "\<exists>m. find True (base @ CHR ''/'' # e) f = Inr (p @ [e], m)" if "kind_at f (p @ [e]) = Some K_Dir"
    using into(2) that by auto
qed

lemma sub_loop_eq:
  assumes "fs_wf f" and "find True base f = Inr (p, n)" and "kind_at f p = Some K_Dir" and "tree_fits k f base p"
    and "set es \<subseteq> set (children p f)"
    and "\<And>e. e \<in> set es \<Longrightarrow> kind_at f (p @ [e]) = Some K_Dir \<Longrightarrow> rec (base @ CHR ''/'' # e) = Some (Inr (tree_text f (g e)))"
  shows "sub_loop rec f base es
    = Some (Inr (tree_text f (concat (map (\<lambda>e. if kind_at f (p @ [e]) = Some K_Dir then g e else []) es))))"
  using assms(5,6)
proof (induction es)
  case (Cons e es)
  have e: "e \<in> set (children p f)" using Cons.prems by simp
  note found = entry_found [OF assms(1-4) e]
  obtain buf where buf: "store_cstr (replicate 1024 NUL) (base @ ''/'' @ e) = Inr buf" "cstr buf = base @ CHR ''/'' # e"
    using found(2) by blast
  obtain i l where i: "sys_lstat (base @ CHR ''/'' # e) f = Some (i, l)" "kind_at f (p @ [e]) = Some (i_kind i)"
    using found(3) by blast
  have IH: "sub_loop rec f base es
    = Some (Inr (tree_text f (concat (map (\<lambda>e. if kind_at f (p @ [e]) = Some K_Dir then g e else []) es))))"
    using Cons by simp
  show ?case
  proof (cases "i_kind i = K_Dir")
    case True
    with i(2) have "rec (base @ CHR ''/'' # e) = Some (Inr (tree_text f (g e)))" using Cons.prems(2) by simp
    with True found(1) buf i IH show ?thesis by simp
  next
    case False
    with found(1) buf i IH show ?thesis by simp
  qed
qed simp

lemma list_recursive_eq:
  assumes "fs_wf f"
  shows "find True base f = Inr (p, m) \<Longrightarrow> kind_at f p = Some K_Dir \<Longrightarrow> tree_fits n f base p \<Longrightarrow>
    list_recursive n f base = Some (Inr (tree_text f (dirs_below n f base p)))"
proof (induction n arbitrary: base p m)
  case 0
  have "lookup (names f) (p @ []) \<noteq> None" using kind_at_lookup [OF 0(2)] by simp
  then show ?case using 0(3) unfolding tree_fits_def by blast
next
  case (Suc n)
  have "list_recursive n f (base @ CHR ''/'' # e) = Some (Inr (tree_text f (dirs_below n f (base @ CHR ''/'' # e) (p @ [e]))))"
    if e: "e \<in> set (children p f)" "kind_at f (p @ [e]) = Some K_Dir" for e
  proof -
    obtain k where "find True (base @ CHR ''/'' # e) f = Inr (p @ [e], k)"
      using entry_found(4) [OF assms Suc.prems e] by blast
    moreover have "tree_fits n f (base @ CHR ''/'' # e) (p @ [e])"
      using tree_fits_child [OF Suc.prems(3) kind_at_lookup [OF e(2)]] .
    ultimately show ?thesis using e(2) by (intro Suc.IH)
  qed
  then have sub: "sub_loop (list_recursive n f) f base (children p f)
    = Some (Inr (tree_text f (concat (map (\<lambda>e. if kind_at f (p @ [e]) = Some K_Dir
        then dirs_below n f (base @ CHR ''/'' # e) (p @ [e]) else []) (children p f)))))"
    by (intro sub_loop_eq [OF assms Suc.prems]) auto
  have "sys_readdir base f = Inr (''.'' # ''..'' # children p f)"
    using Suc.prems(1,2) by (simp add: sys_readdir_def)
  moreover have "dot_entry ''.''" "dot_entry ''..''" by (simp_all add: dot_entry_def)
  ultimately show ?case using sub by (simp add: dir_block_dots)
qed

subsection \<open>The order of the blocks\<close>

text \<open>No path of a later entry stands above the path of an earlier one.\<close>

definition parents_first :: "path list \<Rightarrow> bool" where
  "parents_first qs \<longleftrightarrow> sorted_wrt (\<lambda>x y. \<not> (\<exists>r. r \<noteq> [] \<and> x = y @ r)) qs"

lemma parents_first_concat:
  assumes "distinct es" and "\<And>e. e \<in> set es \<Longrightarrow> parents_first (map snd (g e))"
    and "\<And>e t r. (t, r) \<in> set (g e) \<Longrightarrow> take (Suc (length p)) r = p @ [e]"
  shows "parents_first (map snd (concat (map g es)))"
  using assms(1,2)
proof (induction es)
  case (Cons e es)
  have apart: "\<not> (\<exists>r. r \<noteq> [] \<and> snd x = snd y @ r)"
    if x: "x \<in> set (g e)" and y: "y \<in> set (g e')" "e' \<in> set es" for x y e'
  proof
    assume "\<exists>r. r \<noteq> [] \<and> snd x = snd y @ r"
    then obtain r where r: "snd x = snd y @ r" by blast
    have tx: "take (Suc (length p)) (snd x) = p @ [e]" using assms(3) [of "fst x" "snd x" e] x by simp
    have ty: "take (Suc (length p)) (snd y) = p @ [e']" using assms(3) [of "fst y" "snd y" e'] y(1) by simp
    then have "Suc (length p) \<le> length (snd y)" by (metis length_append_singleton length_take min.cobounded1 nat_le_linear min.absorb2)
    then have "p @ [e] = p @ [e']" using tx ty r by simp
    then show False using Cons.prems(1) y(2) by simp
  qed
  have "parents_first (map snd (concat (map g es)))" using Cons by simp
  moreover have "parents_first (map snd (g e))" using Cons.prems(2) by simp
  ultimately show ?case
    using apart by (auto simp: parents_first_def sorted_wrt_append)
qed (simp add: parents_first_def)

lemma dirs_below_parents_first:
  assumes "fs_wf f"
  shows "parents_first (map snd (dirs_below n f base p))"
proof (induction n arbitrary: base p)
  case (Suc n)
  let ?g = "\<lambda>e. if kind_at f (p @ [e]) = Some K_Dir then dirs_below n f (base @ CHR ''/'' # e) (p @ [e]) else []"
  have pre: "take (Suc (length p)) r = p @ [e]" if "(t, r) \<in> set (?g e)" for e t r
    using that dirs_below_prefix [of t r n f "base @ CHR ''/'' # e" "p @ [e]"] by (auto split: if_splits)
  have "parents_first (map snd (concat (map ?g (children p f))))"
    by (rule parents_first_concat [where p = p, OF children_distinct [OF assms] _ pre])
      (use Suc.IH in \<open>simp add: parents_first_def\<close>)
  moreover have "\<not> (\<exists>r. r \<noteq> [] \<and> p = q @ r)" if "q \<in> snd ` set (concat (map ?g (children p f)))" for q
  proof -
    from that obtain t e where "(t, q) \<in> set (?g e)" by (auto split: if_splits)
    from pre [OF this] show ?thesis by (metis append_eq_conv_conj length_append_singleton less_irrefl_nat
        length_append length_take lessI min_less_iff_conj not_add_less1)
  qed
  ultimately show ?case by (auto simp: parents_first_def)
qed (simp add: parents_first_def)

text \<open>A block, as it is printed: the names of a well-formed file system are never dots.\<close>

lemma tree_text_plain:
  assumes "fs_wf f"
  shows "tree_text f ds = concat (map (\<lambda>(t, q).
    [NL] @ t @ '':'' @ [NL] @ concat (map (\<lambda>e. e @ [SP, SP]) (children q f)) @ [NL]) ds)"
proof -
  have "\<not> dot_entry e" if "e \<in> set (children q f)" for q e
    using that fs_wf_parent [OF assms, of "q @ [e]"] children_set [OF assms] by (auto simp: dot_entry_def name_ok_def)
  then have "filter (\<lambda>e. \<not> dot_entry e) (children q f) = children q f" for q
    by (simp add: filter_id_conv)
  then show ?thesis by (simp add: tree_text_def dir_block_def)
qed

text \<open>
  Property C20.  The recursive listing of a directory prints one block for every
  directory at or below it, each exactly once, and nothing else, a directory always before
  the directories below it.  A block is an empty line, the directory's path and a colon, and
  on the next line its names, each followed by two blanks.  Symbolic links are not followed, so
  it ends on every file system; the fuel has to exceed the depth of the tree only.
\<close>

theorem ls_R_lists:
  assumes "fs_wf f" and "find True base f = Inr (p, m)" and "kind_at f p = Some K_Dir" and "tree_fits n f base p"
  shows "\<exists>ds. list_recursive n f base = Some (Inr (concat (map (\<lambda>(t, q).
        [NL] @ t @ '':'' @ [NL] @ concat (map (\<lambda>e. e @ [SP, SP]) (children q f)) @ [NL]) ds)))
    \<and> distinct (map snd ds) \<and> set ds = {(below base q, p @ q) | q. kind_at f (p @ q) = Some K_Dir}
    \<and> (\<forall>i j r. i < j \<longrightarrow> j < length ds \<longrightarrow> r \<noteq> [] \<longrightarrow> snd (ds ! i) \<noteq> snd (ds ! j) @ r)"
proof -
  have "\<forall>q. lookup (names f) (p @ q) \<noteq> None \<longrightarrow> length q < n" using assms(4) by (simp add: tree_fits_def)
  moreover have "\<forall>i j r. i < j \<longrightarrow> j < length (dirs_below n f base p) \<longrightarrow> r \<noteq> [] \<longrightarrow>
      snd (dirs_below n f base p ! i) \<noteq> snd (dirs_below n f base p ! j) @ r"
    using dirs_below_parents_first [OF assms(1), of n base p]
    by (auto simp: parents_first_def sorted_wrt_iff_nth_less)
  ultimately show ?thesis
    using list_recursive_eq [OF assms] dirs_below_distinct [OF assms(1)] dirs_below_set [OF assms(1,3)]
    unfolding tree_text_plain [OF assms(1)] by blast
qed

definition nested_files :: fs where
  "nested_files = demo_files\<lparr>names := names demo_files @ [([''home'', ''d''], 4), ([''home'', ''d'', ''e''], 5)],
     inodes := (inodes demo_files)(4 \<mapsto> \<lparr>i_kind = K_Dir, i_mode = 493, i_uid = 0, i_gid = 0, i_mtime = 0\<rparr>,
       5 \<mapsto> \<lparr>i_kind = K_Dir, i_mode = 493, i_uid = 0, i_gid = 0, i_mtime = 0\<rparr>), next_ino := 6\<rparr>"

lemma nested_lookup: "lookup (names nested_files) =
  [[] \<mapsto> 0, [''home''] \<mapsto> 1, [''home'', ''a''] \<mapsto> 2, [''home'', ''b''] \<mapsto> 3, [''home'', ''d''] \<mapsto> 4, [''home'', ''d'', ''e''] \<mapsto> 5]"
  by (rule ext) (simp add: nested_files_def demo_files_def lookup_def)

lemma nested_wf: "fs_wf nested_files"
  unfolding fs_wf_def nested_lookup
  by (simp add: kind_at_def inode_at_def nested_lookup)
    (simp add: nested_files_def demo_files_def name_ok_def component_ok_def)

lemma nested_fits: "tree_fits 4 nested_files ''.'' [''home'']"
  unfolding tree_fits_def nested_lookup below_def by simp

lemma nested_found: "find True ''.'' nested_files = Inr ([''home''], 1)" "kind_at nested_files [''home''] = Some K_Dir"
  "kind_at nested_files [''home'', ''d'', ''e''] = Some K_Dir"
  by code_simp+

text \<open>Three directories, one inside the other: the only order is from the outside in.\<close>

theorem ls_R_lists_witness:
  "\<exists>ds. ls_R 4 nested_files = Some (Inr (concat (map (\<lambda>(t, q).
        [NL] @ t @ '':'' @ [NL] @ concat (map (\<lambda>e. e @ [SP, SP]) (children q nested_files)) @ [NL]) ds)))
    \<and> (''./d/e'', [''home'', ''d'', ''e'']) \<in> set ds \<and> distinct (map snd ds)
    \<and> (\<forall>i j r. i < j \<longrightarrow> j < length ds \<longrightarrow> r \<noteq> [] \<longrightarrow> snd (ds ! i) \<noteq> snd (ds ! j) @ r)"
proof -
  have "below ''.'' [''d'', ''e''] = ''./d/e''" by (simp add: below_def)
  then have mem: "(''./d/e'', [''home'', ''d'', ''e''])
      \<in> {(below ''.'' q, [''home''] @ q) | q. kind_at nested_files ([''home''] @ q) = Some K_Dir}"
    using nested_found(3) by (intro CollectI exI [of _ "[''d'', ''e'']"]) simp
  show ?thesis
    using ls_R_lists [OF nested_wf nested_found(1,2) nested_fits]
  proof (elim exE conjE, intro exI conjI)
    fix ds assume "set ds = {(below ''.'' q, [''home''] @ q) | q. kind_at nested_files ([''home''] @ q) = Some K_Dir}"
    with mem show "(''./d/e'', [''home'', ''d'', ''e'']) \<in> set ds" by (rule ssubst [rotated])
  qed (unfold ls_R_def, assumption+)
qed

end
