(* ===== verification/File_Programs.thy ===== *)
theory File_Programs
  imports Command_Laws
begin

section \<open>Small programs over files\<close>

text \<open>
  \<^verbatim>\<open>lab2/ch7/file_copy.c\<close> (and \<^verbatim>\<open>target.c\<close>, a copy of its text), \<^verbatim>\<open>textCount.c\<close>,
  \<^verbatim>\<open>file_dir.c\<close> and \<^verbatim>\<open>lab2/mmapcopy.c\<close>, each as a function from its arguments and the file
  system to what it leaves: the files, the output, the error messages, the exit code.
\<close>

record prog_run =
  pr_files :: fs
  pr_out :: bytes
  pr_err :: bytes
  pr_perror :: "(bytes \<times> errno) list"
  pr_exit :: int

definition finish :: "int \<Rightarrow> bytes \<Rightarrow> fs \<Rightarrow> prog_run" where
  "finish x t f = \<lparr>pr_files = f, pr_out = t, pr_err = [], pr_perror = [], pr_exit = x\<rparr>"

definition fail_usage :: "bytes \<Rightarrow> fs \<Rightarrow> prog_run" where
  "fail_usage t f = (finish 1 [] f)\<lparr>pr_err := t\<rparr>"

definition fail_call :: "bytes \<Rightarrow> errno \<Rightarrow> fs \<Rightarrow> prog_run" where
  "fail_call t e f = (finish 1 [] f)\<lparr>pr_perror := [(t, e)]\<rparr>"

subsection \<open>file\_copy\<close>

definition MAX_READ :: nat where "MAX_READ = 10"

text \<open>The loop with its total.\<close>

function copy_count :: "nat \<Rightarrow> nat \<Rightarrow> nat \<Rightarrow> nat \<Rightarrow> fs \<Rightarrow> nat \<times> fs" where
  "copy_count src_fd dst_fd off tot_cnt f =
     (let chunk = next_chunk MAX_READ src_fd off f in
      if chunk = [] then (tot_cnt, f)
      else copy_count src_fd dst_fd (off + length chunk) (tot_cnt + length chunk) (write_chunk dst_fd off chunk f))"
  by pat_completeness auto
termination
  by (relation "measure (\<lambda>(src_fd, dst_fd, off, tot_cnt, f). size_of src_fd f - off)") (simp_all add: copy_measure)

declare copy_count.simps [simp del]

text \<open>\<^verbatim>\<open>%d\<close> prints the low 32 bits of the total.\<close>

definition file_copy :: "bytes list \<Rightarrow> fs \<Rightarrow> prog_run" where
  "file_copy argv f =
     (if length argv < 3 then fail_usage (''Usage: file_copy src_file dest_file'' @ [NL]) f
      else case sys_open_read (argv ! 1) f of
          Inl e \<Rightarrow> fail_call ''src open'' e f
        | Inr src_fd \<Rightarrow> (case sys_open_write (argv ! 2) 420 f of
              Inl e \<Rightarrow> fail_call ''dst open'' e f
            | Inr (dst_fd, g) \<Rightarrow>
                if content g src_fd = None then fail_call ''read'' EISDIR g
                else let (tot_cnt, h) = copy_count src_fd dst_fd 0 0 g in
                  finish 0 (''total write count = '' @ show_int (signed_take_bit 31 (int tot_cnt)) @ [NL]) h))"

text \<open>\<^verbatim>\<open>target.c\<close> has the same text.\<close>

definition target_copy :: "bytes list \<Rightarrow> fs \<Rightarrow> prog_run" where
  "target_copy argv f = file_copy argv f"

subsection \<open>textCount\<close>

lemma less_to_read: "0 < k \<Longrightarrow> off + k \<le> n \<Longrightarrow> n - (off + k) < n - (off :: nat)"
  by arith

function count_loop :: "nat \<Rightarrow> nat \<Rightarrow> nat \<Rightarrow> fs \<Rightarrow> nat" where
  "count_loop fd off tot f =
     (let nread = length (next_chunk 512 fd off f) in
      if nread = 0 then tot else count_loop fd (off + nread) (tot + nread) f)"
  by pat_completeness auto
termination
proof (relation "measure (\<lambda>(fd, off, tot, f). size_of fd f - off)", goal_cases)
  case (2 fd off tot f nread)
  then have "0 < length (next_chunk 512 fd off f)" by simp
  with 2 chunk_fits [of 512 fd off f] show ?case by (simp add: less_to_read)
qed simp

declare count_loop.simps [simp del]

definition textCount :: "fs \<Rightarrow> prog_run" where
  "textCount f = (case sys_open_read ''anotherfile'' f of
      Inl e \<Rightarrow> finish 1 (''error in opening anotherfile'' @ [NL]) f
    | Inr filedes \<Rightarrow> finish 0 (''total chars in anotherfile: '' @ show_nat (count_loop filedes 0 0 f) @ [NL]) f)"

subsection \<open>file\_dir\<close>

fun dir_columns :: "nat \<Rightarrow> bytes list \<Rightarrow> bytes" where
  "dir_columns i [] = [NL]"
| "dir_columns i (e # es) = pad 20 e @ [SP] @ (if Suc i mod 3 = 0 then [NL] else []) @ dir_columns (Suc i) es"

definition file_dir :: "bytes list \<Rightarrow> fs \<Rightarrow> prog_run" where
  "file_dir argv f =
     (if length argv < 2 then fail_usage (''Usage: file_dir dirname'' @ [NL]) f
      else case sys_readdir (argv ! 1) f of
          Inl e \<Rightarrow> fail_call ''opendir'' e f
        | Inr es \<Rightarrow> finish 0 (dir_columns 0 es) f)"

subsection \<open>mmapcopy\<close>

definition txt_mmap_usage :: bytes where
  "txt_mmap_usage = map char_of [236, 130, 172, 236, 154, 169, 235, 178, 149, 58, 32 :: nat]"

definition txt_mmap_usage_2 :: bytes where
  "txt_mmap_usage_2 = map char_of [32, 60, 236, 155, 144, 235, 179, 184, 237, 140, 140, 236, 157, 188, 62, 32, 60, 235,
     179, 181, 236, 130, 172, 235, 179, 184, 237, 140, 140, 236, 157, 188, 62, 10 :: nat]"

definition txt_copied :: bytes where
  "txt_copied = map char_of [235, 179, 181, 236, 130, 172, 234, 176, 128, 32, 236, 153, 132, 235, 163, 140, 235, 144,
     152, 236, 151, 136, 236, 138, 181, 235, 139, 136, 235, 139, 164, 33, 32, 40 :: nat]"

text \<open>No call is checked.  Without a source the size is that of an uninitialised structure; a
  destination that cannot be opened, or a source that is a directory, is not mapped, and the
  copy reads or writes at \<^verbatim>\<open>MAP_FAILED\<close>.  A mapping of no bytes is not made, nor accessed.
  The destination is first given the size of the source, in zeros.\<close>

definition mmapcopy :: "bytes list \<Rightarrow> fs \<Rightarrow> prog_run cres" where
  "mmapcopy argv f =
     (if length argv \<noteq> 3 then Inr (finish 1 (txt_mmap_usage @ hd argv @ txt_mmap_usage_2) f)
      else case sys_open_read (argv ! 1) f of
          Inl e \<Rightarrow> Inl Uninitialised
        | Inr src_fd \<Rightarrow> (case content f src_fd of
              None \<Rightarrow> Inl Out_Of_Bounds
            | Some src \<Rightarrow> (case sys_open_write (argv ! 2) 420 f of
                  Inl e \<Rightarrow> if src = [] then Inr (finish 0 (txt_copied @ ''0 bytes)'' @ [NL]) f) else Inl Out_Of_Bounds
                | Inr (dst_fd, g) \<Rightarrow>
                    let h = set_content dst_fd (replicate (length src) NUL) g;
                        src_ptr = (case content h src_fd of Some d \<Rightarrow> d | None \<Rightarrow> [])
                    in Inr (finish 0 (txt_copied @ show_nat (length src) @ '' bytes)'' @ [NL])
                         (set_content dst_fd src_ptr h)))))"

subsection \<open>What they do\<close>

text \<open>The loop with a total is the shell's copying loop with a smaller buffer, and the total is
  the number of bytes from where it starts.\<close>

lemma copy_count_files: "snd (copy_count n m off tot f) = cp_loop MAX_READ n m off f"
proof (induction n m off tot f rule: copy_count.induct)
  case (1 n m off tot f)
  then show ?case
    by (simp add: copy_count.simps [of n m off tot f] cp_loop.simps [of MAX_READ n m off f] Let_def)
qed

lemma copy_count_total:
  assumes "n \<noteq> m" "content f n = Some d" "content f m \<noteq> None" "off \<le> length d"
  shows "fst (copy_count n m off tot f) = tot + (length d - off)"
  using assms
proof (induction n m off tot f rule: copy_count.induct)
  case (1 n m off tot f)
  let ?c = "next_chunk MAX_READ n off f"
  have c: "?c = take MAX_READ (drop off d)" using "1.prems" by (simp add: next_chunk_def)
  show ?case
  proof (cases "?c = []")
    case True
    then have "length d \<le> off" using c by (simp add: MAX_READ_def)
    with True show ?thesis by (simp add: copy_count.simps [of n m off tot f])
  next
    case False
    let ?g = "write_chunk m off ?c f"
    obtain x where "content f m = Some x" using "1.prems"(3) by auto
    then have "content ?g n = Some d" "content ?g m \<noteq> None"
      using "1.prems"(1,2) by (simp_all add: content_write_chunk)
    moreover have len: "off + length ?c \<le> length d" using c "1.prems"(4) by simp
    ultimately have "fst (copy_count n m (off + length ?c) (tot + length ?c) ?g)
        = tot + length ?c + (length d - (off + length ?c))"
      by (intro "1.IH" [OF refl False "1.prems"(1)])
    with False len show ?thesis by (simp add: copy_count.simps [of n m off tot f] Let_def)
  qed
qed

lemma count_loop_total: "content f n = Some d \<Longrightarrow> off \<le> length d \<Longrightarrow> count_loop n off tot f = tot + (length d - off)"
proof (induction n off tot f rule: count_loop.induct)
  case (1 n off tot f)
  let ?k = "length (next_chunk 512 n off f)"
  have k: "?k = min 512 (length d - off)" using "1.prems" by (simp add: next_chunk_def)
  show ?case
  proof (cases "?k = 0")
    case True
    with k "1.prems"(2) show ?thesis by (simp add: count_loop.simps [of n off tot f] Let_def)
  next
    case False
    have "count_loop n (off + ?k) (tot + ?k) f = tot + ?k + (length d - (off + ?k))"
      using False k "1.prems" by (intro "1.IH") auto
    with False k show ?thesis by (simp add: count_loop.simps [of n off tot f] Let_def min_def split: if_splits)
  qed
qed

text \<open>
  Property C21.  Three ways to copy: from a regular file to another file that can be
  opened, \<^verbatim>\<open>cp\<close> of the shell, \<^verbatim>\<open>file_copy\<close> and \<^verbatim>\<open>mmapcopy\<close> leave the same contents, and
  \<^verbatim>\<open>file_copy\<close> reports the number of bytes.  When both names mean one file the first two empty
  it, and \<^verbatim>\<open>mmapcopy\<close> fills it with zeros.
\<close>

theorem copies_agree:
  assumes "fs_wf f" and "src \<noteq> ''-i''" and "dest \<noteq> ''-i''" and "sys_open_read src f = Inr n"
    and "content f n = Some d" and "sys_open_write dest 420 f = Inr (m, g)" and "length d < 2 ^ 31"
  shows "content (pr_files (file_copy [c, src, dest] f)) = (content f)(m := Some (if m = n then [] else d))
    \<and> pr_out (file_copy [c, src, dest] f) = ''total write count = '' @ show_nat (if m = n then 0 else length d) @ [NL]
    \<and> content (files (cmd_cp [c, src, dest] \<lparr>files = f, sin = i, sout = out, serr = er\<rparr>))
        = (content f)(m := Some (if m = n then [] else d))
    \<and> map_sum (\<lambda>e. e) (\<lambda>r. content (pr_files r)) (mmapcopy [c, src, dest] f)
        = Inr ((content f)(m := Some (if m = n then replicate (length d) NUL else d)))"
proof -
  have g: "content g = (content f)(m := Some [])"
    using open_write_effect [OF assms(1,6)] by blast
  have file_copy: "file_copy [c, src, dest] f = finish 0 (''total write count = ''
      @ show_int (signed_take_bit 31 (int (fst (copy_count n m 0 0 g)))) @ [NL]) (cp_loop MAX_READ n m 0 g)"
    using assms(4-6) g copy_count_files [of n m 0 0 g]
    by (simp add: file_copy_def Let_def split: prod.split) auto
  have cp: "files (cmd_cp [c, src, dest] \<lparr>files = f, sin = i, sout = out, serr = er\<rparr>) = cp_loop 4096 n m 0 g"
    using assms by (simp add: cmd_cp_def asked_def)
  let ?h = "set_content m (replicate (length d) NUL) g"
  have h: "content ?h = (content f)(m := Some (replicate (length d) NUL))"
    using content_set_content [of g m] g by simp
  have mm: "map_sum (\<lambda>e. e) (\<lambda>r. content (pr_files r)) (mmapcopy [c, src, dest] f)
      = Inr (content (set_content m (case content ?h n of Some x \<Rightarrow> x | None \<Rightarrow> []) ?h))"
    using assms(4-6) by (simp add: mmapcopy_def Let_def finish_def)
  have total: "show_int (signed_take_bit 31 (int k)) = show_nat k" if "k < 2 ^ 31" for k
    using that by (simp add: show_int_def signed_take_bit_int_eq_self)
  show ?thesis
  proof (cases "m = n")
    case True
    have nil: "next_chunk k n 0 g = []" for k using True g by (simp add: next_chunk_def)
    have loop: "cp_loop k n m 0 g = g" for k using nil by (simp add: cp_loop.simps [of k n m 0 g])
    have "copy_count n m 0 0 g = (0, g)" using nil by (simp add: copy_count.simps [of n m 0 0 g])
    with True g h assms(5) show ?thesis
      unfolding file_copy cp mm loop by (simp add: finish_def show_int_def content_set_content fun_upd_idem)
  next
    case False
    then have c: "content g n = Some d" "content g m = Some (take 0 d)" using g assms(5) by simp_all
    have loop: "content (cp_loop k n m 0 g) = (content f)(m := Some d)" if "0 < k" for k
      using cp_loop_copies [OF that _ c, of True dest] False g by simp
    have "fst (copy_count n m 0 0 g) = length d"
      using copy_count_total [of n m g d 0 0] False c by simp
    with False g h assms(5,7) loop [of 4096] loop [of MAX_READ] show ?thesis
      unfolding file_copy cp mm by (simp add: finish_def total content_set_content MAX_READ_def)
  qed
qed

theorem copies_agree_witness:
  "pr_out (file_copy [''file_copy'', ''a'', ''c''] demo_files) = ''total write count = 4'' @ [NL]"
proof -
  obtain g where g: "sys_open_write ''c'' 420 demo_files = Inr (4, g)" using demo_open_new by blast
  have "show_nat (Suc (Suc (Suc (Suc 0)))) = ''4''" by code_simp
  with copies_agree [OF demo_wf _ _ demo_opens g, of "''file_copy''" "[]" "[]" "[]"] show ?thesis by simp
qed

text \<open>\<^verbatim>\<open>textCount\<close> reports the size of the file.\<close>

lemma textCount_size:
  assumes "sys_open_read ''anotherfile'' f = Inr n" and "content f n = Some d"
  shows "textCount f = finish 0 (''total chars in anotherfile: '' @ show_nat (length d) @ [NL]) f"
  using assms count_loop_total [OF assms(2), of 0 0] by (simp add: textCount_def)

end
