(* ===== verification/Calculator.thy ===== *)
theory Calculator
  imports Widgets
begin

section \<open>The calculator\<close>

text \<open>
  \<^verbatim>\<open>lab3/9/my_calc_gtk.c\<close>: the display, the flag \<^verbatim>\<open>has_operator\<close> and the callbacks of
  the sixteen buttons.  The arithmetic of \<^verbatim>\<open>double\<close> and its conversions are the record \<open>fpu\<close>,
  a parameter; GTK's part is that a click calls the callback connected to the button and that
  the entry holds the text it was given.
\<close>

record 'd fpu =
  strtod :: "bytes \<Rightarrow> ('d \<times> bytes) option" \<comment> \<open>\<^verbatim>\<open>%lf\<close>: the number at the front, and the rest\<close>
  d_zero :: 'd
  d_is_zero :: "'d \<Rightarrow> bool"
  d_add :: "'d \<Rightarrow> 'd \<Rightarrow> 'd"
  d_sub :: "'d \<Rightarrow> 'd \<Rightarrow> 'd"
  d_mul :: "'d \<Rightarrow> 'd \<Rightarrow> 'd"
  d_div :: "'d \<Rightarrow> 'd \<Rightarrow> 'd"
  d_eq :: "'d \<Rightarrow> 'd \<Rightarrow> bool"
  d_of_int :: "int \<Rightarrow> 'd"
  d_to_int :: "'d \<Rightarrow> int option" \<comment> \<open>\<^verbatim>\<open>(int)\<close>; undefined for a value out of its range\<close>
  d_fixed :: "'d \<Rightarrow> bytes" \<comment> \<open>\<^verbatim>\<open>%.2f\<close>\<close>

record calc =
  display :: bytes
  has_operator :: bool

definition TEXT_SIZE :: nat where "TEXT_SIZE = 100"

definition on_number_clicked :: "bytes \<Rightarrow> calc \<Rightarrow> calc cres" where
  "on_number_clicked num_str s =
     (if display s = ''0'' then Inr (s\<lparr>display := num_str\<rparr>)
      else
        let new_text = display s @ num_str in
        if length new_text < TEXT_SIZE then Inr (s\<lparr>display := new_text\<rparr>) else Inl Out_Of_Bounds)"

definition on_operator_clicked :: "bytes \<Rightarrow> calc \<Rightarrow> calc cres" where
  "on_operator_clicked op_str s =
     (if has_operator s then Inr s
      else
        let new_text = display s @ [SP] @ op_str @ [SP] in
        if length new_text < TEXT_SIZE then Inr (s\<lparr>display := new_text, has_operator := True\<rparr>)
        else Inl Out_Of_Bounds)"

definition on_clear_clicked :: "calc \<Rightarrow> calc" where
  "on_clear_clicked s = s\<lparr>display := ''0'', has_operator := False\<rparr>"

text \<open>\<^verbatim>\<open>sscanf(text, "%lf %c %lf", ...) == 3\<close>.\<close>

definition scan_terms :: "'d fpu \<Rightarrow> bytes \<Rightarrow> ('d \<times> char \<times> 'd) option" where
  "scan_terms f text =
     (case strtod f (skip_space text) of
        None \<Rightarrow> None
      | Some (n1, r) \<Rightarrow> (case skip_space r of
            [] \<Rightarrow> None
          | op # q \<Rightarrow> (case strtod f (skip_space q) of None \<Rightarrow> None | Some (n2, r) \<Rightarrow> Some (n1, op, n2))))"

definition compute :: "'d fpu \<Rightarrow> char \<Rightarrow> 'd \<Rightarrow> 'd \<Rightarrow> 'd" where
  "compute f op n1 n2 =
     (if op = CHR ''+'' then d_add f n1 n2
      else if op = CHR ''-'' then d_sub f n1 n2
      else if op = CHR ''*'' then d_mul f n1 n2
      else if op = CHR ''/'' then (if d_is_zero f n2 then d_zero f else d_div f n1 n2)
      else d_zero f)"

definition result_text :: "'d fpu \<Rightarrow> 'd \<Rightarrow> bytes cres" where
  "result_text f v =
     (case d_to_int f v of
        None \<Rightarrow> Inl Signed_Overflow
      | Some i \<Rightarrow> Inr (if d_eq f v (d_of_int f i) then show_int i else d_fixed f v))"

definition on_equals_clicked :: "'d fpu \<Rightarrow> calc \<Rightarrow> calc cres" where
  "on_equals_clicked f s =
     (case scan_terms f (display s) of
        None \<Rightarrow> Inr s
      | Some (n1, op, n2) \<Rightarrow>
          cbind (result_text f (compute f op n1 n2)) (\<lambda>result_str.
          if length result_str < TEXT_SIZE then Inr (s\<lparr>display := result_str, has_operator := False\<rparr>)
          else Inl Out_Of_Bounds))"

text \<open>The table of the buttons, and the callback that \<^verbatim>\<open>main\<close> connects to each.\<close>

definition buttons :: "bytes list list" where
  "buttons = [[''7'', ''8'', ''9'', ''/''], [''4'', ''5'', ''6'', ''*''], [''1'', ''2'', ''3'', ''-''], [''C'', ''0'', ''='', ''+'']]"

datatype calc_action = Clear | Equals | Digit bytes | Operator bytes | Leave_Main

definition action_of :: "bytes \<Rightarrow> calc_action" where
  "action_of label =
     (if label = ''C'' then Clear
      else if label = ''='' then Equals
      else if is_digit (hd label) then Digit label
      else Operator label)"

text \<open>\<^verbatim>\<open>main\<close>: the display over the four columns, and below it the table.\<close>

definition calc_grid :: "(calc_action widget \<times> nat \<times> nat \<times> nat \<times> nat) list" where
  "calc_grid = (Display ''0'', 0, 0, 4, 1)
     # concat (map (\<lambda>i. map (\<lambda>j. (Button (buttons ! i ! j) (action_of (buttons ! i ! j)), j, i + 1, 1, 1)) [0..<4]) [0..<4])"

definition calc_tree :: "calc_action widget" where
  "calc_tree = Window ''GTK Calculator'' (250, 300) (Grid calc_grid) (Some Leave_Main)"

definition do_action :: "'d fpu \<Rightarrow> calc_action \<Rightarrow> calc \<Rightarrow> calc cres" where
  "do_action f a s = (case a of
      Clear \<Rightarrow> Inr (on_clear_clicked s)
    | Equals \<Rightarrow> on_equals_clicked f s
    | Digit l \<Rightarrow> on_number_clicked l s
    | Operator l \<Rightarrow> on_operator_clicked l s
    | Leave_Main \<Rightarrow> Inr s)"

definition clicked :: "'d fpu \<Rightarrow> bytes \<Rightarrow> calc \<Rightarrow> calc cres" where
  "clicked f label s = do_action f (action_of label) s"

lemma clicked_eq:
  "clicked f label s =
     (if label = ''C'' then Inr (on_clear_clicked s)
      else if label = ''='' then on_equals_clicked f s
      else if is_digit (hd label) then on_number_clicked label s
      else on_operator_clicked label s)"
  by (simp add: clicked_def do_action_def action_of_def)

fun clicks :: "'d fpu \<Rightarrow> bytes list \<Rightarrow> calc \<Rightarrow> calc cres" where
  "clicks f [] s = Inr s"
| "clicks f (l # ls) s = cbind (clicked f l s) (clicks f ls)"

definition calc_start :: calc where
  "calc_start = \<lparr>display = ''0'', has_operator = False\<rparr>"

text \<open>The grid is full and nothing overlaps: the children cover each of its twenty cells once.
  The sixteen buttons have sixteen labels, and each calls the callback of its label.\<close>

lemma calc_cells: "grid_cells calc_grid = concat (map (\<lambda>r. map (\<lambda>c. (c, r)) [0..<4]) [0..<5])"
  by code_simp

lemma calc_grid_full: "distinct (grid_cells calc_grid)" "set (grid_cells calc_grid) = {0..<4} \<times> {0..<5}"
proof -
  show "distinct (grid_cells calc_grid)" unfolding calc_cells by code_simp
  show "set (grid_cells calc_grid) = {0..<4} \<times> {0..<5}" unfolding calc_cells by auto
qed

lemma calc_buttons:
  "map fst (buttons_of calc_tree) = concat buttons" "distinct (concat buttons)"
  "\<forall>(t, a) \<in> set (buttons_of calc_tree). a = action_of t"
  by code_simp+

subsection \<open>Typing\<close>

lemma clicks_append: "clicks f (ls @ ls') s = cbind (clicks f ls s) (clicks f ls')"
proof (induction ls arbitrary: s)
  case (Cons l ls)
  then show ?case by (cases "clicked f l s") auto
qed simp

lemma clicked_digit: "is_digit c \<Longrightarrow> clicked f [c] s = on_number_clicked [c] s"
  by (auto simp: clicked_eq is_digit_def)

text \<open>Digits after a display that is not \<^verbatim>\<open>0\<close> are added to it.\<close>

lemma type_digits:
  assumes "\<forall>c \<in> set ds. is_digit c" and "display s \<noteq> ''0''" and "display s \<noteq> []"
  shows "clicks f (map (\<lambda>c. [c]) ds) s
    = (if ds = [] \<or> length (display s) + length ds < TEXT_SIZE then Inr (s\<lparr>display := display s @ ds\<rparr>) else Inl Out_Of_Bounds)"
  using assms
proof (induction ds arbitrary: s)
  case (Cons c ds)
  have c: "clicked f [c] s = (if length (display s) + 1 < TEXT_SIZE then Inr (s\<lparr>display := display s @ [c]\<rparr>) else Inl Out_Of_Bounds)"
    using Cons.prems by (simp add: clicked_digit on_number_clicked_def)
  let ?t = "s\<lparr>display := display s @ [c]\<rparr>"
  have "display ?t \<noteq> ''0''" using Cons.prems(3) by simp
  then have "clicks f (map (\<lambda>c. [c]) ds) ?t = (if ds = [] \<or> length (display ?t) + length ds < TEXT_SIZE
      then Inr (?t\<lparr>display := display ?t @ ds\<rparr>) else Inl Out_Of_Bounds)"
    using Cons.prems by (intro Cons.IH) auto
  with c show ?case by auto
qed simp

text \<open>A number typed from the start appears as its digits.\<close>

lemma show_nat_head: "0 < n \<Longrightarrow> \<exists>c ds. show_nat n = c # ds \<and> c \<noteq> CHR ''0''"
proof (induction n rule: show_nat.induct)
  case (1 n)
  show ?case
  proof (cases "n < 10")
    case True
    have "digit n \<noteq> CHR ''0''"
    proof
      assume "digit n = CHR ''0''"
      then have "digit_val (CHR ''0'') = n" using digit_props(2) [OF True] by simp
      with 1(2) show False by (simp add: digit_val_def)
    qed
    with True show ?thesis by (simp add: show_nat.simps [of n])
  next
    case False
    then have "0 < n div 10" by simp
    with 1 False obtain c ds where "show_nat (n div 10) = c # ds" "c \<noteq> CHR ''0''" by blast
    with False show ?thesis by (simp add: show_nat.simps [of n])
  qed
qed

lemma type_number:
  assumes "display s = ''0''" and "length (show_nat n) < TEXT_SIZE"
  shows "clicks f (map (\<lambda>c. [c]) (show_nat n)) s = Inr (s\<lparr>display := show_nat n\<rparr>)"
proof (cases "n = 0")
  case True
  have "show_nat 0 = ''0''" by code_simp
  with True assms show ?thesis by (simp add: clicked_digit is_digit_def on_number_clicked_def)
next
  case False
  then obtain c ds where c: "show_nat n = c # ds" "c \<noteq> CHR ''0''" using show_nat_head [of n] by blast
  have d: "is_digit c" "\<forall>c \<in> set ds. is_digit c" using show_nat_digits [of n] c(1) by simp_all
  let ?t = "s\<lparr>display := [c]\<rparr>"
  have "clicks f (map (\<lambda>c. [c]) ds) ?t = Inr (?t\<lparr>display := display ?t @ ds\<rparr>)"
    using type_digits [OF d(2), of ?t f] c assms(2) by simp
  moreover have "clicked f [c] s = Inr ?t" using assms(1) d(1) by (simp add: clicked_digit on_number_clicked_def)
  ultimately show ?thesis using c(1) by simp
qed

text \<open>
  The display has no bound but the callbacks' buffers have: the hundredth
  digit overruns \<^verbatim>\<open>new_text\<close>.
\<close>

lemma digits_overrun:
  assumes "is_digit c" and "c \<noteq> CHR ''0''" and "0 < n"
  shows "clicks f (replicate n [c]) calc_start
    = (if n < TEXT_SIZE then Inr (calc_start\<lparr>display := replicate n c\<rparr>) else Inl Out_Of_Bounds)"
proof -
  obtain m where m: "n = Suc m" using assms(3) by (cases n) auto
  let ?t = "calc_start\<lparr>display := [c]\<rparr>"
  have "clicked f [c] calc_start = Inr ?t"
    using assms(1) by (simp add: clicked_digit on_number_clicked_def calc_start_def)
  moreover have "clicks f (map (\<lambda>c. [c]) (replicate m c)) ?t
      = (if replicate m c = [] \<or> length (display ?t) + length (replicate m c) < TEXT_SIZE
         then Inr (?t\<lparr>display := display ?t @ replicate m c\<rparr>) else Inl Out_Of_Bounds)"
    using assms(1,2) by (intro type_digits) auto
  ultimately show ?thesis by (auto simp: m map_replicate_const TEXT_SIZE_def)
qed

text \<open>Integers as an \<open>fpu\<close>, for examples.\<close>

definition int_fpu :: "int fpu" where
  "int_fpu = \<lparr>strtod = (\<lambda>s. if s \<noteq> [] \<and> is_digit (hd s) then Some (int (digits_val s), dropWhile is_digit s) else None),
     d_zero = 0, d_is_zero = (\<lambda>v. v = 0), d_add = (+), d_sub = (-), d_mul = (*), d_div = (div), d_eq = (=), d_of_int = (\<lambda>i. i),
     d_to_int = (\<lambda>i. if - (2 ^ 31) \<le> i \<and> i < 2 ^ 31 then Some i else None), d_fixed = (\<lambda>v. show_int v @ ''.00'')\<rparr>"

lemma digits_overrun_example: "clicks int_fpu (replicate 100 ''7'') calc_start = Inl Out_Of_Bounds"
  using digits_overrun [of "CHR ''7''" 100 int_fpu] by (simp add: is_digit_def TEXT_SIZE_def)

subsection \<open>Computing\<close>

text \<open>What is asked of the conversion \<^verbatim>\<open>%lf\<close>: it reads a decimal number up to a blank or the
  end.\<close>

definition reads_numbers :: "'d fpu \<Rightarrow> bool" where
  "reads_numbers f \<longleftrightarrow> (\<forall>n r. strtod f (show_nat n) = Some (d_of_int f (int n), [])
     \<and> strtod f (show_nat n @ SP # r) = Some (d_of_int f (int n), SP # r))"

lemma skip_space_number: "skip_space (show_nat n @ r) = show_nat n @ r"
proof -
  obtain c ds where c: "show_nat n = c # ds" by (cases "show_nat n") simp_all
  then have "\<not> is_space c" using show_nat_digits [of n] is_digit_plain by simp
  with c show ?thesis by (simp add: skip_space_def)
qed

lemma scan_terms_typed:
  assumes "reads_numbers f" and "op \<in> set ''+-*/''"
  shows "scan_terms f (show_nat a @ [SP, op, SP] @ show_nat b) = Some (d_of_int f (int a), op, d_of_int f (int b))"
proof -
  have "skip_space (SP # op # SP # show_nat b) = op # SP # show_nat b"
    "skip_space (SP # show_nat b) = show_nat b"
    using assms(2) skip_space_number [of b "[]"] by (auto simp: skip_space_def is_space_def)
  then show ?thesis
    using assms(1) skip_space_number [of a "SP # op # SP # show_nat b"] by (simp add: scan_terms_def reads_numbers_def)
qed

text \<open>
  Property C36.  A calculation: pressing \<^verbatim>\<open>C\<close> and then typing a number, an operator, a number
  and \<^verbatim>\<open>=\<close> displays the sum for \<^verbatim>\<open>+\<close>, the difference for \<^verbatim>\<open>-\<close>, the product for \<^verbatim>\<open>*\<close> and
  the quotient for \<^verbatim>\<open>/\<close>, or 0 when the divisor is 0, as an integer when the value is one and
  with two decimals otherwise, and leaves the calculator ready for the next operator.  What is
  typed has to fit the callbacks' arrays; a value that cannot be converted to an \<^verbatim>\<open>int\<close> is an
  undefined conversion, a text of a hundred bytes overruns \<^verbatim>\<open>result_str\<close>.
\<close>

theorem calc_computes:
  assumes "reads_numbers f" and "op \<in> set ''+-*/''" and "length (show_nat a) + length (show_nat b) + 3 < TEXT_SIZE"
    and "x = d_of_int f (int a)" and "y = d_of_int f (int b)"
    and "op = CHR ''+'' \<Longrightarrow> v = d_add f x y" and "op = CHR ''-'' \<Longrightarrow> v = d_sub f x y"
    and "op = CHR ''*'' \<Longrightarrow> v = d_mul f x y"
    and "op = CHR ''/'' \<Longrightarrow> v = (if d_is_zero f y then d_zero f else d_div f x y)"
  shows "clicks f ([''C''] @ map (\<lambda>c. [c]) (show_nat a) @ [[op]] @ map (\<lambda>c. [c]) (show_nat b) @ [''='']) s
    = (case d_to_int f v of
         None \<Rightarrow> Inl Signed_Overflow
       | Some i \<Rightarrow>
           if length (if d_eq f v (d_of_int f i) then show_int i else d_fixed f v) < TEXT_SIZE
           then Inr (s\<lparr>display := (if d_eq f v (d_of_int f i) then show_int i else d_fixed f v),
                       has_operator := False\<rparr>)
           else Inl Out_Of_Bounds)"
proof -
  let ?s0 = "on_clear_clicked s" and ?m = "show_nat a @ [SP, op, SP]"
  let ?s1 = "?s0\<lparr>display := show_nat a\<rparr>" and ?s2 = "?s0\<lparr>display := ?m, has_operator := True\<rparr>"
  let ?s3 = "?s0\<lparr>display := ?m @ show_nat b, has_operator := True\<rparr>"
  have v: "compute f op x y = v" using assms(2,6-9) by (auto simp: compute_def)
  have "clicked f ''C'' s = Inr ?s0" by (simp add: clicked_eq)
  moreover have "clicks f (map (\<lambda>c. [c]) (show_nat a)) ?s0 = Inr ?s1"
    using assms(3) by (intro type_number) (simp_all add: on_clear_clicked_def)
  moreover have "clicked f [op] ?s1 = Inr ?s2"
    using assms(2,3) by (auto simp: clicked_eq is_digit_def on_operator_clicked_def on_clear_clicked_def Let_def)
  moreover have "clicks f (map (\<lambda>c. [c]) (show_nat b)) ?s2 = Inr ?s3"
    using type_digits [OF show_nat_digits, of ?s2 f b] assms(3) by simp
  moreover have "scan_terms f (display ?s3) = Some (x, op, y)"
    using scan_terms_typed [OF assms(1,2), of a b] assms(4,5) by simp
  then have "clicked f ''='' ?s3 = (case d_to_int f v of
         None \<Rightarrow> Inl Signed_Overflow
       | Some i \<Rightarrow>
           if length (if d_eq f v (d_of_int f i) then show_int i else d_fixed f v) < TEXT_SIZE
           then Inr (s\<lparr>display := (if d_eq f v (d_of_int f i) then show_int i else d_fixed f v),
                       has_operator := False\<rparr>)
           else Inl Out_Of_Bounds)"
    using v by (simp add: clicked_eq on_equals_clicked_def on_clear_clicked_def result_text_def split: option.split)
  moreover have "cbind m (clicks f []) = m" for m by (cases m) simp_all
  ultimately show ?thesis by (simp add: clicks_append)
qed

lemma digits_end: "takeWhile is_digit (show_nat n @ SP # r) = show_nat n" "dropWhile is_digit (show_nat n @ SP # r) = SP # r"
  "dropWhile is_digit (show_nat n) = []"
  using show_nat_digits [of n] by (simp_all add: is_digit_def dropWhile_append2 dropWhile_eq_Nil_conv takeWhile_append2)

lemma int_fpu_reads: "reads_numbers int_fpu"
proof -
  have "is_digit (hd (show_nat n @ r))" for n r
    using show_nat_digits [of n] by (cases "show_nat n") simp_all
  from this [of _ "[]"] this have "is_digit (hd (show_nat n @ r))" "is_digit (hd (show_nat n))" for n r by simp_all
  moreover have "digits_val (show_nat n @ SP # r) = n" for n r
    using foldl_show_nat [of n] by (simp add: digits_val_def digits_end)
  ultimately show ?thesis
    using digits_end digits_val_show_nat by (simp add: reads_numbers_def int_fpu_def)
qed

lemma int_fpu_simps:
  "d_of_int int_fpu i = i" "d_add int_fpu i j = i + j" "d_sub int_fpu i j = i - j"
  "d_mul int_fpu i j = i * j" "d_div int_fpu i j = i div j" "d_is_zero int_fpu i = (i = 0)"
  "d_zero int_fpu = 0" "d_eq int_fpu i j = (i = j)"
  "- (2 ^ 31) \<le> i \<Longrightarrow> i < 2 ^ 31 \<Longrightarrow> d_to_int int_fpu i = Some i"
  by (simp_all add: int_fpu_def)

theorem calc_computes_witness:
  "clicks int_fpu [''C'', ''6'', ''*'', ''7'', ''=''] calc_start = Inr \<lparr>display = ''42'', has_operator = False\<rparr>
   \<and> clicks int_fpu [''C'', ''6'', ''-'', ''7'', ''=''] calc_start = Inr \<lparr>display = ''-1'', has_operator = False\<rparr>
   \<and> clicks int_fpu [''C'', ''6'', ''/'', ''0'', ''=''] calc_start = Inr \<lparr>display = ''0'', has_operator = False\<rparr>"
proof -
  have digits: "digit 0 = CHR ''0''" "digit (Suc 0) = CHR ''1''" "digit 2 = CHR ''2''" "digit 4 = CHR ''4''"
    "digit 6 = CHR ''6''" "digit 7 = CHR ''7''"
    by code_simp+
  have n: "show_nat 6 = ''6''" "show_nat 7 = ''7''" "show_nat 0 = ''0''" "show_nat 1 = ''1''" "show_nat 42 = ''42''"
    by (simp_all add: show_nat.simps digits)
  then have i: "show_int 42 = ''42''" "show_int (- 1) = ''-1''" "show_int 0 = ''0''"
    by (simp_all add: show_int_def)
  have run: "clicks int_fpu ([''C''] @ map (\<lambda>c. [c]) (show_nat a) @ [[op]] @ map (\<lambda>c. [c]) (show_nat b) @ [''='']) calc_start
      = Inr \<lparr>display = show_int v, has_operator = False\<rparr>"
    if "op \<in> set ''+-*/''" "length (show_nat a) + length (show_nat b) + 3 < TEXT_SIZE"
      "op = CHR ''+'' \<Longrightarrow> v = int a + int b" "op = CHR ''-'' \<Longrightarrow> v = int a - int b"
      "op = CHR ''*'' \<Longrightarrow> v = int a * int b" "op = CHR ''/'' \<Longrightarrow> v = (if int b = 0 then 0 else int a div int b)"
      "- (2 ^ 31) \<le> v" "v < 2 ^ 31" "length (show_int v) < TEXT_SIZE" for op a b v
    using calc_computes [OF int_fpu_reads that(1,2) refl refl, unfolded int_fpu_simps, OF that(3-6), where s = calc_start]
      int_fpu_simps(9) [OF that(7,8)] that(9) by (simp add: calc_start_def del: clicks.simps)
  have 1: "clicks int_fpu ([''C''] @ map (\<lambda>c. [c]) (show_nat 6) @ [[CHR ''*'']] @ map (\<lambda>c. [c]) (show_nat 7) @ [''='']) calc_start
      = Inr \<lparr>display = show_int 42, has_operator = False\<rparr>"
    by (rule run) (simp_all add: n i TEXT_SIZE_def)
  have 2: "clicks int_fpu ([''C''] @ map (\<lambda>c. [c]) (show_nat 6) @ [[CHR ''-'']] @ map (\<lambda>c. [c]) (show_nat 7) @ [''='']) calc_start
      = Inr \<lparr>display = show_int (- 1), has_operator = False\<rparr>"
    by (rule run) (simp_all add: n i TEXT_SIZE_def)
  have 3: "clicks int_fpu ([''C''] @ map (\<lambda>c. [c]) (show_nat 6) @ [[CHR ''/'']] @ map (\<lambda>c. [c]) (show_nat 0) @ [''='']) calc_start
      = Inr \<lparr>display = show_int 0, has_operator = False\<rparr>"
    by (rule run) (simp_all add: n i TEXT_SIZE_def)
  show ?thesis using 1 2 3 unfolding n i by (simp only: list.map append.simps)
qed

subsection \<open>The shape of the display\<close>

definition expression :: "bytes \<Rightarrow> bool" where
  "expression d \<longleftrightarrow> (\<exists>n op m. d = n @ [SP, op, SP] @ m \<and> n \<noteq> [] \<and> SP \<notin> set n \<and> op \<in> set ''+-*/'' \<and> (\<forall>c \<in> set m. is_digit c))"

lemma expression_digit: "expression d \<Longrightarrow> is_digit c \<Longrightarrow> expression (d @ [c])"
proof -
  assume "expression d" and c: "is_digit c"
  then obtain n op m where d: "d = n @ [SP, op, SP] @ m" "n \<noteq> []" "SP \<notin> set n" "op \<in> set ''+-*/''" "\<forall>c \<in> set m. is_digit c"
    unfolding expression_def by blast
  have "d @ [c] = n @ [SP, op, SP] @ (m @ [c])" "\<forall>c \<in> set (m @ [c]). is_digit c" using d(1,5) c by auto
  with d(2-4) show ?thesis unfolding expression_def by blast
qed

lemma expression_operator: "n \<noteq> [] \<Longrightarrow> SP \<notin> set n \<Longrightarrow> op \<in> set ''+-*/'' \<Longrightarrow> expression (n @ [SP, op, SP])"
  unfolding expression_def by (rule exI [of _ n], rule exI [of _ op], rule exI [of _ "[]"]) simp

lemma not_expression: "\<not> expression ''0''"
  by (auto simp: expression_def append_eq_Cons_conv)

definition calc_ok :: "calc \<Rightarrow> bool" where
  "calc_ok s \<longleftrightarrow> display s \<noteq> [] \<and> length (display s) < TEXT_SIZE \<and>
     (if has_operator s then expression (display s)
      else SP \<notin> set (display s))"

lemma number_ok:
  assumes "calc_ok s" "is_digit c" "on_number_clicked [c] s = Inr t"
  shows "calc_ok t"
proof (cases "display s = ''0''")
  case True
  then have "\<not> has_operator s" using assms(1) not_expression by (auto simp: calc_ok_def)
  with True assms(2,3) show ?thesis by (auto simp: on_number_clicked_def calc_ok_def is_digit_def TEXT_SIZE_def)
next
  case False
  then have t: "t = s\<lparr>display := display s @ [c]\<rparr>" "length (display s) + 1 < TEXT_SIZE"
    using assms(3) by (auto simp: on_number_clicked_def Let_def split: if_splits)
  with assms(1,2) show ?thesis by (auto simp: calc_ok_def is_digit_def expression_digit)
qed

lemma operator_ok:
  assumes "calc_ok s" "op \<in> set ''+-*/''" "on_operator_clicked [op] s = Inr t"
  shows "calc_ok t"
proof (cases "has_operator s")
  case False
  then have "t = s\<lparr>display := display s @ [SP, op, SP], has_operator := True\<rparr>" "length (display s) + 3 < TEXT_SIZE"
    using assms(3) by (auto simp: on_operator_clicked_def Let_def split: if_splits)
  with False assms(1,2) show ?thesis
    using expression_operator [of "display s" op] by (simp add: calc_ok_def)
qed (use assms in \<open>simp add: on_operator_clicked_def\<close>)

lemma equals_ok:
  assumes "calc_ok s" "\<forall>v. d_fixed f v \<noteq> [] \<and> SP \<notin> set (d_fixed f v)" "on_equals_clicked f s = Inr t"
  shows "calc_ok t"
proof (cases "scan_terms f (display s)")
  case (Some r)
  then obtain n1 op n2 where r: "r = (n1, op, n2)" by (cases r)
  have "is_space SP" by (simp add: is_space_def)
  then have int: "show_int i \<noteq> []" "SP \<notin> set (show_int i)" for i
    using show_int_plain [of i] by (simp add: show_int_def, blast)
  obtain x where x: "result_text f (compute f op n1 n2) = Inr x"
    "(if length x < TEXT_SIZE then Inr (s\<lparr>display := x, has_operator := False\<rparr>) else Inl Out_Of_Bounds) = Inr t"
    using assms(3) Some r by (simp add: on_equals_clicked_def) blast
  then have t: "length x < TEXT_SIZE" "t = s\<lparr>display := x, has_operator := False\<rparr>" by (simp_all split: if_splits)
  let ?v = "compute f op n1 n2"
  obtain i where "x = show_int i \<or> x = d_fixed f ?v"
    using x(1) by (cases "d_to_int f ?v") (simp_all add: result_text_def split: if_splits, blast+)
  moreover have "d_fixed f ?v \<noteq> []" "SP \<notin> set (d_fixed f ?v)" using assms(2) by blast+
  ultimately have "x \<noteq> []" "SP \<notin> set x" using int [of i] by auto
  with t show ?thesis by (simp add: calc_ok_def)
qed (use assms in \<open>simp add: on_equals_clicked_def\<close>)

lemma button_kinds:
  "list_all (\<lambda>l. l = ''C'' \<or> l = ''='' \<or> l = [hd l] \<and> (is_digit (hd l) \<or> hd l \<in> set ''+-*/'')) (concat buttons)"
  by code_simp

lemma clicked_ok:
  assumes "calc_ok s" "\<forall>v. d_fixed f v \<noteq> [] \<and> SP \<notin> set (d_fixed f v)" "l \<in> set (concat buttons)" "clicked f l s = Inr t"
  shows "calc_ok t"
proof -
  consider "l = ''C''" | "l = ''=''" | c where "l = [c]" "is_digit c" | op where "l = [op]" "op \<in> set ''+-*/''"
    using button_kinds assms(3) unfolding list_all_iff by metis
  then show ?thesis
  proof cases
    case 1
    with assms(4) have "t = on_clear_clicked s" by (simp add: clicked_eq)
    then show ?thesis by (simp add: on_clear_clicked_def calc_ok_def TEXT_SIZE_def)
  next
    case 2
    with assms(4) have "on_equals_clicked f s = Inr t" by (simp add: clicked_eq)
    with assms(1,2) show ?thesis by (rule equals_ok)
  next
    case 3
    with assms(4) have "on_number_clicked [c] s = Inr t" by (simp add: clicked_digit)
    with assms(1) 3(2) show ?thesis by (rule number_ok)
  next
    case 4
    then have "clicked f [op] s = on_operator_clicked [op] s" by (auto simp: clicked_eq is_digit_def)
    with 4(1) assms(4) have "on_operator_clicked [op] s = Inr t" by simp
    with assms(1) 4(2) show ?thesis by (rule operator_ok)
  qed
qed

text \<open>
  Property C35.  Whatever buttons are pressed, the display is a text without blanks, or,
  when \<^verbatim>\<open>has_operator\<close> is set, such a text, one operator between two blanks, and digits.
\<close>

theorem calc_display_shape:
  assumes "\<forall>v. d_fixed f v \<noteq> [] \<and> SP \<notin> set (d_fixed f v)" and "set ls \<subseteq> set (concat buttons)"
    and "clicks f ls calc_start = Inr t"
  shows "if has_operator t
    then expression (display t)
    else display t \<noteq> [] \<and> SP \<notin> set (display t)"
proof -
  have "calc_ok s \<Longrightarrow> set ls \<subseteq> set (concat buttons) \<Longrightarrow> clicks f ls s = Inr t \<Longrightarrow> calc_ok t" for s
  proof (induction ls arbitrary: s)
    case (Cons l ls)
    from Cons.prems(3) obtain u where u: "clicked f l s = Inr u" "clicks f ls u = Inr t" by auto
    have "calc_ok u" using clicked_ok [OF Cons.prems(1) assms(1) _ u(1)] Cons.prems(2) by simp
    with Cons u(2) show ?case by simp
  qed simp
  moreover have "calc_ok calc_start" by (simp add: calc_ok_def calc_start_def TEXT_SIZE_def)
  ultimately have "calc_ok t" using assms(2,3) by blast
  then show ?thesis unfolding calc_ok_def by presburger
qed

theorem calc_display_shape_witness:
  "\<exists>t. clicks int_fpu [''4'', ''+'', ''2'', ''-''] calc_start = Inr t \<and> has_operator t
     \<and> expression (display t)"
proof -
  have f: "\<forall>v. d_fixed int_fpu v \<noteq> [] \<and> SP \<notin> set (d_fixed int_fpu v)"
    using show_int_plain by (auto simp: int_fpu_def is_space_def)
  let ?t = "\<lparr>display = ''4 + 2'', has_operator = True\<rparr>"
  have run: "clicks int_fpu [''4'', ''+'', ''2'', ''-''] calc_start = Inr \<lparr>display = ''4 + 2'', has_operator = True\<rparr>" by code_simp
  have "set [''4'', ''+'', ''2'', ''-''] \<subseteq> set (concat buttons)" by (simp add: buttons_def)
  from calc_display_shape [OF f this run] have "expression (display ?t)" by simp
  then show ?thesis by (intro exI [of _ ?t] conjI run) simp_all
qed

end
