(* ===== verification/Click_Counter.thy ===== *)
theory Click_Counter
  imports Widgets
begin

section \<open>The window that counts its clicks\<close>

text \<open>
  \<^verbatim>\<open>lab3/8/my_gtk.c\<close>: the global count, the label, the callback of the button, and the
  window that \<^verbatim>\<open>main\<close> builds.
\<close>

record clicker =
  cl_count :: int
  cl_label :: bytes

text \<open>\<^verbatim>\<open>count++\<close>, printed into \<^verbatim>\<open>buffer[50]\<close>.\<close>

definition on_button_clicked :: "clicker \<Rightarrow> clicker cres" where
  "on_button_clicked s =
     cbind (c_int (cl_count s + 1)) (\<lambda>c.
       let text = ''Button clicked: '' @ show_int c @ '' times'' in
       if length text < 50 then Inr \<lparr>cl_count = c, cl_label = text\<rparr> else Inl Out_Of_Bounds)"

datatype click_action = Close | Click

definition click_start :: clicker where
  "click_start = \<lparr>cl_count = 0, cl_label = ''Button clicked: 0 times''\<rparr>"

definition click_tree :: "click_action widget" where
  "click_tree = Window ''My Simple GTK'' (250, 150)
     (VBox 10 [(Label (cl_label click_start), True, 0), (Button ''Click Me!'' Click, False, 10)])
     (Some Close)"

fun press :: "nat \<Rightarrow> clicker \<Rightarrow> clicker cres" where
  "press 0 s = Inr s"
| "press (Suc n) s = cbind (press n s) on_button_clicked"

text \<open>The label always says how often the button was clicked; the text fits its array for
  every \<^verbatim>\<open>int\<close>, and the click after the largest one overflows.\<close>

lemma label_counts_clicks:
  "press n click_start = (if int n < 2 ^ 31
     then Inr \<lparr>cl_count = int n, cl_label = ''Button clicked: '' @ show_nat n @ '' times''\<rparr>
     else Inl Signed_Overflow)"
proof (induction n)
  case 0
  have "show_nat 0 = ''0''" by code_simp
  then show ?case by (simp add: click_start_def)
next
  case (Suc n)
  show ?case
  proof (cases "int (Suc n) < 2 ^ 31")
    case True
    then have "length (show_int (int (Suc n))) \<le> 11" by (intro length_show_int) simp_all
    moreover have "show_int (int (Suc n)) = show_nat (Suc n)" by (simp add: show_int_def del: of_nat_Suc)
    ultimately show ?thesis using Suc True
      by (simp add: on_button_clicked_def c_int_def add.commute)
  next
    case False
    then show ?thesis using Suc by (auto simp: on_button_clicked_def c_int_def)
  qed
qed

end
