(* ===== verification/Terminal_Programs.thy ===== *)
theory Terminal_Programs
  imports C_Prelude
begin

section \<open>Two programs at the terminal\<close>

text \<open>
  \<^verbatim>\<open>lab2/ch7/password.c\<close> and \<^verbatim>\<open>lab2/typingtest.c\<close>, as functions from what their reads
  deliver.  The characters typed are echoed by the terminal or not; \<open>echo\<close> is that flag.
\<close>

subsection \<open>The password\<close>

definition PASSWORDSIZE :: nat where "PASSWORDSIZE = 12"

definition passwd :: bytes where "passwd = ''secret''"

record terminal =
  echo :: bool
  screen :: bytes

definition put :: "bytes \<Rightarrow> terminal \<Rightarrow> terminal" where
  "put t s = s\<lparr>screen := screen s @ t\<rparr>"

definition txt_no_attr :: bytes where
  "txt_no_attr = map char_of [237, 132, 176, 235, 175, 184, 235, 132, 144, 32, 236, 134, 141, 236, 132, 177, 236, 157,
     132, 32, 236, 132, 164, 236, 160, 149, 237, 149, 160, 32, 236, 136, 152, 32, 236, 151,
     134, 236, 157, 140, 46, 10 :: nat]"

definition txt_wrong :: bytes where
  "txt_wrong = map char_of [237, 140, 168, 236, 138, 164, 236, 155, 140, 235, 147, 156, 234, 176, 128, 32, 237, 139,
     128, 235, 160, 184, 236, 138, 181, 235, 139, 136, 235, 139, 164, 46, 10 :: nat]"

definition txt_success :: bytes where
  "txt_success = map char_of [237, 140, 168, 236, 138, 164, 236, 155, 140, 235, 147, 156, 32, 236, 158, 133, 235, 160,
     165, 236, 157, 180, 32, 236, 132, 177, 234, 179, 181, 237, 150, 136, 236, 138, 181, 235,
     139, 136, 235, 139, 164, 46, 10 :: nat]"

text \<open>The loop, over what the successive calls of \<^verbatim>\<open>read\<close> deliver; nothing more is the end of
  the input, or an error.  \<^verbatim>\<open>write\<close> of 11 bytes sends the terminator of the prompt, too.\<close>

fun ask :: "bytes list \<Rightarrow> bytes \<Rightarrow> terminal \<Rightarrow> terminal cres" where
  "ask [] buf s = Inr s"
| "ask (d # ds) buf s =
     (if d = [] then Inr s
      else
        cbind (set_byte (fill buf d) (int (length d) - 1) NUL) (\<lambda>buf.
        cbind (read_cstr buf) (\<lambda>given.
        let s = put [NL] s in
        if given = passwd then Inr s
        else ask ds buf (put (''Password: '' @ [NUL]) (put txt_wrong s)))))"

text \<open>\<open>attr\<close> says whether the terminal accepts attributes.\<close>

definition password :: "bool \<Rightarrow> bytes list \<Rightarrow> bytes \<Rightarrow> terminal \<Rightarrow> terminal cres" where
  "password attr ds junk s =
     (let init_attr = echo s;
          s = (if attr then s\<lparr>echo := False\<rparr> else put txt_no_attr s);
          s = put ''Password: '' s in
      cbind (ask ds junk s) (\<lambda>s.
      let s = put txt_success s in
      Inr (if attr then s\<lparr>echo := init_attr\<rparr> else s)))"

text \<open>The terminal hands over a line in pieces of at most \<^verbatim>\<open>PASSWORDSIZE\<close> bytes.\<close>

definition pieces_ok :: "bytes list \<Rightarrow> bool" where
  "pieces_ok ds \<longleftrightarrow> (\<forall>d \<in> set ds. length d \<le> PASSWORDSIZE)"

text \<open>What the program compares: a piece without its last byte, up to a NUL.\<close>

definition given_by :: "bytes \<Rightarrow> bytes" where
  "given_by d = cstr (butlast d)"

lemma set_last:
  assumes "d \<noteq> []" "length d \<le> length buf"
  shows "set_byte (fill buf d) (int (length d) - 1) NUL = Inr (butlast d @ NUL # drop (length d) buf)"
proof -
  obtain x c where d: "d = x @ [c]" using assms(1) by (cases d rule: rev_cases) auto
  have i: "nat (int (length d) - 1) = length x" using d by simp
  show ?thesis using assms(2) d i by (simp add: set_byte_def fill_def list_update_append)
qed

lemma cstr_cut: "cstr (b @ NUL # r) = cstr b"
  by (induction b) (simp_all add: cstr_def)

lemma ask_step:
  assumes "d \<noteq> []" "length d \<le> length buf"
  shows "ask (d # ds) buf s = (if given_by d = passwd then Inr (put [NL] s)
    else ask ds (butlast d @ NUL # drop (length d) buf) (put (''Password: '' @ [NUL]) (put txt_wrong (put [NL] s))))"
proof -
  have "cstr (butlast d @ NUL # drop (length d) buf) = cstr (butlast d)"
    by (rule cstr_cut)
  then show ?thesis
    using assms by (simp add: set_last read_cstr_def terminated_def given_by_def Let_def)
qed

text \<open>What one wrong answer adds to the screen.\<close>

definition refusal :: bytes where
  "refusal = [NL] @ txt_wrong @ ''Password: '' @ [NUL]"

definition wrong :: "bytes \<Rightarrow> bool" where
  "wrong d \<longleftrightarrow> d \<noteq> [] \<and> given_by d \<noteq> passwd"

lemma ask_prints:
  assumes "pieces_ok ds" "length buf = PASSWORDSIZE"
  shows "ask ds buf s = Inr (put (concat (map (\<lambda>d. refusal) (takeWhile wrong ds))
      @ (case dropWhile wrong ds of d # r \<Rightarrow> if d \<noteq> [] then [NL] else [] | [] \<Rightarrow> [])) s)"
  using assms
proof (induction ds arbitrary: buf s)
  case Nil
  then show ?case by (simp add: put_def)
next
  case (Cons d ds)
  show ?case
  proof (cases "d = []")
    case True
    then show ?thesis by (simp add: wrong_def put_def)
  next
    case False
    have len: "length d \<le> length buf" using Cons.prems by (simp add: pieces_ok_def)
    let ?buf = "butlast d @ NUL # drop (length d) buf"
    have "length ?buf = PASSWORDSIZE" using False len Cons.prems(2) by (cases d rule: rev_cases) auto
    then have IH: "ask ds ?buf t = Inr (put (concat (map (\<lambda>d. refusal) (takeWhile wrong ds))
        @ (case dropWhile wrong ds of d # r \<Rightarrow> if d \<noteq> [] then [NL] else [] | [] \<Rightarrow> [])) t)" for t
      using Cons.prems(1) by (intro Cons.IH) (simp_all add: pieces_ok_def)
    have put: "put (refusal @ x) s = put x (put (''Password: '' @ [NUL]) (put txt_wrong (put [NL] s)))" for x
      by (simp add: put_def refusal_def)
    show ?thesis
    proof (cases "given_by d = passwd")
      case True
      with False len show ?thesis by (simp add: ask_step wrong_def del: ask.simps)
    next
      case differ: False
      then have "wrong d" using False by (simp add: wrong_def)
      with differ False len IH put show ?thesis by (simp add: ask_step del: ask.simps)
    qed
  qed
qed

text \<open>
  The password program never faults on the pieces the terminal hands over,
  shows one refusal for each wrong piece before the first right one or the end of the input,
  leaves echoing as it was, and reports success in either case: it does so at the end of the input,
  too, and a long line is compared piece by piece.
\<close>

lemma password_dialogue:
  assumes "pieces_ok ds" and "length junk = PASSWORDSIZE"
  shows "password attr ds junk s = Inr (s\<lparr>screen := screen s @ (if attr then [] else txt_no_attr) @ ''Password: ''
      @ concat (map (\<lambda>d. refusal) (takeWhile wrong ds))
      @ (case dropWhile wrong ds of d # r \<Rightarrow> if d \<noteq> [] then [NL] else [] | [] \<Rightarrow> []) @ txt_success\<rparr>)"
proof -
  have same: "s\<lparr>echo := echo s\<rparr> = s" "s\<lparr>echo := False, screen := x, echo := echo s\<rparr> = s\<lparr>screen := x\<rparr>" for x
    by (cases s; simp)+
  show ?thesis
    using assms by (simp add: password_def ask_prints Let_def put_def same del: ask.simps)
qed

lemma password_dialogue_example:
  "password True [''xxxxxxxxxxxx'', ''secret'' @ [NL]] (replicate 12 CR) \<lparr>echo = True, screen = []\<rparr>
     = Inr \<lparr>echo = True, screen = ''Password: '' @ refusal @ [NL] @ txt_success\<rparr>"
proof -
  have "wrong ''xxxxxxxxxxxx''" "\<not> wrong (''secret'' @ [NL])"
    by (simp_all add: wrong_def given_by_def passwd_def cstr_def)
  with password_dialogue [of "[''xxxxxxxxxxxx'', ''secret'' @ [NL]]" "replicate 12 CR" True "\<lparr>echo = True, screen = []\<rparr>"]
  show ?thesis by (simp add: pieces_ok_def PASSWORDSIZE_def)
qed

subsection \<open>The typing test\<close>

definition typing_text :: bytes where
  "typing_text = ''The magic thing is that you can change it.''"

definition txt_type :: bytes where
  "txt_type = map char_of [235, 139, 164, 236, 157, 140, 32, 235, 172, 184, 236, 158, 165, 236, 157, 132, 32, 236,
     158, 133, 235, 160, 165, 237, 149, 152, 234, 179, 160, 32, 236, 151, 148, 237, 132, 176,
     40, 69, 110, 116, 101, 114, 41, 235, 165, 188, 32, 235, 136, 132, 235, 165, 180, 236, 132,
     184, 236, 154, 148, 58, 10, 10 :: nat]"

definition txt_result :: bytes where
  "txt_result = map char_of [10, 45, 45, 45, 32, 234, 178, 176, 234, 179, 188, 32, 45, 45, 45, 10 :: nat]"

definition txt_time_1 :: bytes where
  "txt_time_1 = map char_of [236, 180, 157, 32, 234, 177, 184, 235, 166, 176, 32, 236, 139, 156, 234, 176, 132, 58, 32
     :: nat]"

definition txt_time_2 :: bytes where
  "txt_time_2 = map char_of [236, 180, 136, 10 :: nat]"

definition txt_errors_1 :: bytes where
  "txt_errors_1 = map char_of [237, 131, 128, 236, 157, 180, 237, 149, 145, 32, 236, 152, 164, 235, 165, 152, 58, 32 ::
     nat]"

definition txt_errors_2 :: bytes where
  "txt_errors_2 = map char_of [234, 176, 156, 10 :: nat]"

definition txt_rate_1 :: bytes where
  "txt_rate_1 = map char_of [237, 143, 137, 234, 183, 160, 32, 235, 182, 132, 235, 139, 185, 32, 237, 131, 128, 236,
     158, 144, 236, 136, 152, 58, 32 :: nat]"

definition txt_rate_2 :: bytes where
  "txt_rate_2 = map char_of [237, 131, 128, 10 :: nat]"

text \<open>The loop over the positions, from \<open>i\<close> on with \<open>n\<close> to go.\<close>

fun errcnt_loop :: "bytes \<Rightarrow> bytes \<Rightarrow> nat \<Rightarrow> nat \<Rightarrow> nat \<Rightarrow> nat" where
  "errcnt_loop target input i 0 errcnt = errcnt"
| "errcnt_loop target input i (Suc n) errcnt =
     errcnt_loop target input (Suc i) n
       (if length input \<le> i \<or> length target \<le> i \<or> target ! i \<noteq> input ! i then Suc errcnt else errcnt)"

definition errcnt :: "bytes \<Rightarrow> bytes \<Rightarrow> nat" where
  "errcnt target input = errcnt_loop target input 0 (max (length target) (length input)) 0"

text \<open>A run: what \<^verbatim>\<open>fgets\<close> finds, and the whole seconds it took.  \<open>rate\<close> is the quotient
  computed in \<^verbatim>\<open>double\<close> and truncated.  The exit code is 1 when nothing was typed.\<close>

definition typingtest :: "(nat \<Rightarrow> nat \<Rightarrow> int) \<Rightarrow> nat \<Rightarrow> bytes \<Rightarrow> int \<times> bytes" where
  "typingtest rate duration stdin =
     (let ask = txt_type @ typing_text @ [NL, NL]; chunk = fgets_chunk 1024 stdin in
      if chunk = [] then (1, ask)
      else
        let input = takeWhile (\<lambda>c. c \<noteq> NL) (cstr chunk);
            cpm = (if 0 < duration then rate (length input) duration else 0)
        in (0, ask @ txt_result @ txt_time_1 @ show_nat duration @ txt_time_2
              @ txt_errors_1 @ show_nat (errcnt typing_text input) @ txt_errors_2
              @ txt_rate_1 @ show_int cpm @ txt_rate_2))"

text \<open>The specification: the positions at which the texts do not agree.\<close>

definition differs :: "bytes \<Rightarrow> bytes \<Rightarrow> nat \<Rightarrow> bool" where
  "differs target input i \<longleftrightarrow> length input \<le> i \<or> length target \<le> i \<or> target ! i \<noteq> input ! i"

lemma errcnt_loop_card: "errcnt_loop target input i n k = k + card {j \<in> {i..<i + n}. differs target input j}"
proof (induction n arbitrary: i k)
  case (Suc n)
  have "{j \<in> {i..<i + Suc n}. differs target input j}
      = (if differs target input i then {i} else {}) \<union> {j \<in> {Suc i..<Suc i + n}. differs target input j}"
    using le_eq_less_or_eq by (auto simp: Suc_le_eq split: if_splits)
  moreover have "card (insert i {j \<in> {Suc i..<Suc i + n}. differs target input j})
      = Suc (card {j \<in> {Suc i..<Suc i + n}. differs target input j})"
    by (rule card_insert_disjoint) auto
  ultimately show ?case using Suc.IH [of "Suc i"] by (simp add: differs_def)
qed simp

text \<open>
  The number of typing errors is the number of positions, up to the longer
  of the two texts, at which they differ; it is 0 for the text itself only.
\<close>

lemma errcnt_counts:
  "errcnt target input = card {j. j < max (length target) (length input) \<and> differs target input j}
   \<and> (errcnt target input = 0 \<longleftrightarrow> input = target)"
proof -
  let ?D = "{j. j < max (length target) (length input) \<and> differs target input j}"
  have count: "errcnt target input = card ?D"
    using errcnt_loop_card [of target input 0 "max (length target) (length input)" 0] by (simp add: errcnt_def)
  have "?D = {} \<longleftrightarrow> input = target"
  proof
    assume none: "?D = {}"
    have len: "length input = length target"
    proof (rule ccontr)
      assume ne: "length input \<noteq> length target"
      then have "min (length input) (length target) \<in> ?D" by (auto simp: differs_def min_def max_def)
      with none show False by blast
    qed
    show "input = target"
    proof (rule nth_equalityI)
      fix i
      assume "i < length input"
      then have "\<not> differs target input i" using none len by auto
      then show "input ! i = target ! i" by (simp add: differs_def)
    qed (rule len)
  qed (auto simp: differs_def)
  then show ?thesis using count by simp
qed

end
