(* ===== verification/Library_Programs.thy ===== *)
theory Library_Programs
  imports C_Prelude
begin

section \<open>The library and the programs around the C library\<close>

text \<open>
  \<^verbatim>\<open>lab1\<close>: the arithmetic library with its two test programs, the assertion macro, the
  search in a table and the array of \<^verbatim>\<open>malloc\<close>.  Values of \<^verbatim>\<open>double\<close> are a parameter:
  the quotient of two integers, zero, and the text of \<^verbatim>\<open>%f\<close>.
\<close>

subsection \<open>Arithmetic\<close>

definition lib_add :: "int \<Rightarrow> int \<Rightarrow> int cres" where "lib_add a b = c_int (a + b)"
definition lib_subtract :: "int \<Rightarrow> int \<Rightarrow> int cres" where "lib_subtract a b = c_int (a - b)"
definition lib_multiply :: "int \<Rightarrow> int \<Rightarrow> int cres" where "lib_multiply a b = c_int (a * b)"

record 'd doubles =
  quotient :: "int \<Rightarrow> int \<Rightarrow> 'd"
  zero_value :: 'd
  show_lf :: "'d \<Rightarrow> bytes"

definition txt_zero :: bytes where
  "txt_zero = map char_of [98, 236, 151, 144, 235, 138, 148, 32, 48, 236, 157, 180, 32, 235, 147, 164, 236, 150,
     180, 32, 236, 152, 172, 32, 236, 136, 152, 32, 236, 151, 134, 236, 138, 181, 235, 139,
     136, 235, 139, 164, 46 :: nat]"

text \<open>What \<^verbatim>\<open>divide\<close> prints, and its result.\<close>

definition lib_divide :: "'d doubles \<Rightarrow> int \<Rightarrow> int \<Rightarrow> bytes \<times> 'd" where
  "lib_divide d a b = (if b = 0 then (txt_zero, zero_value d) else ([], quotient d a b))"

text \<open>The lines of the test programs: \<open>form\<close> is how a call of the named operation is printed.\<close>

definition lib_lines :: "'d doubles \<Rightarrow> (bytes \<Rightarrow> int \<Rightarrow> int \<Rightarrow> bytes) \<Rightarrow> int \<Rightarrow> int \<Rightarrow> bytes cres" where
  "lib_lines d form a b =
     cbind (lib_add a b) (\<lambda>s. cbind (lib_subtract a b) (\<lambda>t. cbind (lib_multiply a b) (\<lambda>p.
     let (msg, q) = lib_divide d a b in
     Inr (form ''add'' a b @ show_int s @ [NL] @ form ''subtract'' a b @ show_int t @ [NL]
       @ form ''multiply'' a b @ show_int p @ [NL] @ msg @ form ''divide'' a b @ show_lf d q @ [NL]))))"

definition call_form :: "bytes \<Rightarrow> int \<Rightarrow> int \<Rightarrow> bytes" where
  "call_form f a b = (if f = ''multiply'' then ''multiple'' else f) @ ''('' @ show_int a @ '','' @ show_int b @ '') = ''"

definition sign_form :: "bytes \<Rightarrow> int \<Rightarrow> int \<Rightarrow> bytes" where
  "sign_form f a b = show_int a
     @ (if f = ''add'' then '' + '' else if f = ''subtract'' then '' - '' else if f = ''multiply'' then '' * '' else '' / '')
     @ show_int b @ '' = ''"

definition libTestMain :: "'d doubles \<Rightarrow> bytes cres" where
  "libTestMain d = lib_lines d call_form 100 10"

text \<open>With \<^verbatim>\<open>dlopen\<close>: \<open>err\<close> gives the error of opening the library or of looking up a
  symbol, if there is one.  The result is the exit code, the output and the error output.\<close>

definition dlfcn_main :: "'d doubles \<Rightarrow> (bytes \<Rightarrow> bytes option) \<Rightarrow> (int \<times> bytes \<times> bytes) cres" where
  "dlfcn_main d err =
     (case List.find (\<lambda>s. err s \<noteq> None) [''./lib/libtestlib.so'', ''add'', ''subtract'', ''multiply'', ''divide''] of
        Some s \<Rightarrow> Inr (1, [], the (err s))
      | None \<Rightarrow> cbind (lib_lines d sign_form 100 10) (\<lambda>t. Inr (0, t, [])))"

subsection \<open>The assertion\<close>

definition txt_assert :: bytes where
  "txt_assert = map char_of [65, 115, 115, 101, 114, 116, 105, 111, 110, 32, 236, 139, 164, 237, 140, 168, 58, 32 ::
     nat]"

record assert_run =
  as_out :: bytes
  as_err :: bytes
  as_aborted :: bool
  as_exit :: int

text \<open>\<^verbatim>\<open>my_assert\<close>, which is nothing when \<^verbatim>\<open>NDEBUG\<close> is defined: the text of the
  condition, the file's name and the line, and \<^verbatim>\<open>abort\<close>.\<close>

definition my_assert :: "bool \<Rightarrow> bool \<Rightarrow> bytes \<Rightarrow> bytes \<Rightarrow> nat \<Rightarrow> bytes option" where
  "my_assert ndebug cond cond_text file_name line_no =
     (if ndebug \<or> cond then None
      else Some (txt_assert @ cond_text @ '', file '' @ file_name @ '', line '' @ show_nat line_no @ [NL]))"

definition foo :: "bool \<Rightarrow> bytes \<Rightarrow> int \<Rightarrow> assert_run" where
  "foo ndebug file_name num =
     (case my_assert ndebug (0 \<le> num \<and> num \<le> 100) ''(num >= 0) && (num <= 100)'' file_name 6 of
        Some t \<Rightarrow> \<lparr>as_out = [], as_err = t, as_aborted = True, as_exit = 0\<rparr>
      | None \<Rightarrow> \<lparr>as_out = ''foo: num = '' @ show_int num @ [NL], as_err = [], as_aborted = False, as_exit = 0\<rparr>)"

definition assert_main :: "bool \<Rightarrow> bytes \<Rightarrow> bytes list \<Rightarrow> assert_run cres" where
  "assert_main ndebug file_name argv =
     (if length argv < 2
      then Inr \<lparr>as_out = [], as_err = ''Usage: '' @ hd argv @ '' aNumber (0 <= aNumber <= 100)'' @ [NL],
                as_aborted = False, as_exit = 1\<rparr>
      else cbind (atoi (argv ! 1)) (\<lambda>num. Inr (foo ndebug file_name num)))"

text \<open>Printing a number and giving it to the program: it is accepted exactly in the range.\<close>

lemma assert_main_accepts:
  assumes "- (2 ^ 31) \<le> i" and "i < 2 ^ 31"
  shows "\<exists>r. assert_main ndebug file_name [c, show_int i] = Inr r
    \<and> (as_aborted r \<longleftrightarrow> \<not> ndebug \<and> (i < 0 \<or> 100 < i))
    \<and> (\<not> as_aborted r \<longrightarrow> as_out r = ''foo: num = '' @ show_int i @ [NL] \<and> as_err r = [])"
  using atoi_show_int [OF assms] by (auto simp: assert_main_def foo_def my_assert_def)

subsection \<open>The search table\<close>

definition TABLESIZE :: nat where "TABLESIZE = 10"

record search_table =
  cells :: "int list" \<comment> \<open>\<^verbatim>\<open>int table[TABLESIZE]\<close>\<close>
  used :: nat

definition table_start :: search_table where
  "table_start = \<lparr>cells = [1, 2, 3, 4, 5, 0, 0, 0, 0, 0], used = 5\<rparr>"

definition compare :: "int \<Rightarrow> int \<Rightarrow> int cres" where
  "compare a b = c_int (a - b)"

text \<open>\<^verbatim>\<open>lfind\<close>: the first of the elements that compares equal; \<^verbatim>\<open>lsearch\<close> adds the item
  after them if there is none.\<close>

fun lfind_from :: "nat \<Rightarrow> int \<Rightarrow> int list \<Rightarrow> nat option cres" where
  "lfind_from i item [] = Inr None"
| "lfind_from i item (x # xs) =
     cbind (compare item x) (\<lambda>c. if c = 0 then Inr (Some i) else lfind_from (Suc i) item xs)"

definition lfind :: "int \<Rightarrow> search_table \<Rightarrow> nat option cres" where
  "lfind item t = lfind_from 0 item (take (used t) (cells t))"

definition lsearch :: "int \<Rightarrow> search_table \<Rightarrow> (nat \<times> search_table) cres" where
  "lsearch item t = cbind (lfind item t) (\<lambda>r.
     case r of
       Some i \<Rightarrow> Inr (i, t)
     | None \<Rightarrow> if used t < length (cells t) then Inr (used t, t\<lparr>cells := (cells t)[used t := item], used := Suc (used t)\<rparr>)
               else Inl Out_Of_Bounds)"

definition size_text :: "search_table \<Rightarrow> bytes" where
  "size_text t = '' (current size: '' @ show_nat (used t) @ '')'' @ [NL]"

definition testlsearch :: "search_table \<Rightarrow> bytes cres" where
  "testlsearch t =
     cbind (lsearch 6 t) (\<lambda>(ptr, t).
     cbind (lfind 7 t) (\<lambda>r.
     Inr ((if ptr = used t - 1 \<and> 5 < used t then show_int 6 @ '' is not in the table, but added.'' @ size_text t
           else show_int (cells t ! ptr) @ '' is in the table.'' @ size_text t)
       @ (case r of
            None \<Rightarrow> show_int 7 @ '' is not in the table.'' @ size_text t
          | Some i \<Rightarrow> show_int (cells t ! i) @ '' is in the table.'' @ size_text t))))"

text \<open>What the search does, for items and elements whose differences fit an \<^verbatim>\<open>int\<close>.\<close>

definition small :: "int \<Rightarrow> bool" where
  "small x \<longleftrightarrow> - (2 ^ 30) \<le> x \<and> x < 2 ^ 30"

lemma compare_small: "small a \<Longrightarrow> small b \<Longrightarrow> compare a b = Inr (a - b)"
  by (simp add: compare_def small_def)

lemma lfind_from_small:
  assumes "small item" "\<forall>x \<in> set xs. small x"
  shows "case lfind_from i item xs of
    Inr (Some k) \<Rightarrow> i \<le> k \<and> k < i + length xs \<and> xs ! (k - i) = item
  | Inr None \<Rightarrow> item \<notin> set xs
  | Inl e \<Rightarrow> False"
  using assms(2)
proof (induction xs arbitrary: i)
  case (Cons x xs)
  have c: "compare item x = Inr (item - x)" using compare_small assms(1) Cons.prems by simp
  show ?case
  proof (cases "item = x")
    case False
    have "\<forall>x \<in> set xs. small x" using Cons.prems by simp
    from Cons.IH [OF this, of "Suc i"] c False show ?thesis
      by (auto split: sum.splits option.splits simp: Suc_le_eq)
  next
    case True
    with c have "compare x x = Inr 0" by simp
    with True show ?thesis by simp
  qed
qed simp

lemma lsearch_finds:
  assumes "small item" "\<forall>x \<in> set (take (used t) (cells t)). small x" "used t < length (cells t)"
  shows "\<exists>i u. lsearch item t = Inr (i, u) \<and> cells u ! i = item \<and> i < used u
    \<and> take (used t) (cells u) = take (used t) (cells t)
    \<and> used u = (if item \<in> set (take (used t) (cells t)) then used t else Suc (used t))"
proof -
  let ?xs = "take (used t) (cells t)"
  note f = lfind_from_small [OF assms(1,2), of 0]
  show ?thesis
  proof (cases "lfind_from 0 item ?xs")
    case (Inl e)
    with f show ?thesis by simp
  next
    case (Inr r)
    show ?thesis
    proof (cases r)
      case None
      with f Inr have "item \<notin> set ?xs" by simp
      with None Inr assms(3) show ?thesis by (simp add: lsearch_def lfind_def)
    next
      case (Some k)
      with f Inr have k: "k < used t" "?xs ! k = item" using assms(3) by auto
      then have "item \<in> set ?xs" using assms(3) by (metis length_take min.absorb4 nth_mem)
      with k Some Inr show ?thesis by (simp add: lsearch_def lfind_def)
    qed
  qed
qed

lemma testlsearch_prints:
  "testlsearch table_start = Inr (''6 is not in the table, but added. (current size: 6)'' @ [NL]
     @ ''7 is not in the table. (current size: 6)'' @ [NL])"
  by code_simp

subsection \<open>An array of malloc\<close>

definition txt_count :: bytes where
  "txt_count = map char_of [235, 176, 176, 236, 151, 180, 236, 157, 152, 32, 236, 155, 144, 236, 134, 140, 32, 234,
     176, 156, 236, 136, 152, 235, 138, 148, 63, 32 :: nat]"

definition txt_no_memory :: bytes where
  "txt_no_memory = map char_of [235, 169, 148, 235, 170, 168, 235, 166, 172, 235, 165, 188, 32, 237, 149, 160, 235,
     139, 185, 237, 149, 152, 236, 167, 128, 32, 235, 170, 187, 237, 150, 136, 236, 138, 181,
     235, 139, 136, 235, 139, 164, 46 :: nat]"

definition txt_numbers :: bytes where
  "txt_numbers = map char_of [236, 158, 133, 235, 160, 165, 32, 236, 136, 171, 236, 158, 144, 32, 235, 166, 172, 236,
     138, 164, 237, 138, 184, 58 :: nat]"

text \<open>\<open>alloc\<close> says whether that many elements can be allocated (a negative number never), and
  \<open>xs\<close> are the numbers that \<^verbatim>\<open>scanf\<close> reads.  Elements that are not read stay
  uninitialised.\<close>

definition testmalloc :: "(nat \<Rightarrow> bool) \<Rightarrow> int \<Rightarrow> int list \<Rightarrow> (int \<times> bytes) cres" where
  "testmalloc alloc count xs =
     (if count < 0 \<or> \<not> alloc (nat count) then Inr (-1, txt_count @ txt_no_memory)
      else if length xs < nat count then Inl Uninitialised
      else Inr (0, txt_count @ txt_numbers @ concat (map (\<lambda>x. show_int x @ [SP]) (take (nat count) xs)) @ [NL]))"

end
