(* ===== verification/Libc_Examples.thy ===== *)
theory Libc_Examples
  imports C_Prelude
begin

section \<open>Options\<close>

text \<open>
  \<^verbatim>\<open>lab1/ch6/testopt.c\<close>; the results of \<^verbatim>\<open>getopt\<close> are inputs.
\<close>

definition VERSION :: bytes where "VERSION = ''0.0.1''"

definition print_help :: bytes where
  "print_help = ''testopt (ver.'' @ VERSION @ '') is a getopt example.'' @ [NL]
     @ ''testopt [-h] [-v] [-f FILE]'' @ [NL, NL] @ '' -h print this help and exit'' @ [NL]
     @ '' -v print version and exit'' @ [NL] @ '' -f FILE set file'' @ [NL]"

text \<open>What a call of \<^verbatim>\<open>getopt\<close> found, and the arguments from \<^verbatim>\<open>optind\<close> on after it.\<close>

datatype found_option = Opt_h | Opt_v | Opt_f bytes | Opt_other char

definition non_options :: "bytes list \<Rightarrow> bytes" where
  "non_options ws = concat (map (\<lambda>w. ''Non-option argument '' @ w @ [NL]) ws)"

text \<open>Standard output, standard error and exit code.\<close>

fun opt_loop :: "(found_option \<times> bytes list) list \<Rightarrow> bytes \<Rightarrow> bytes \<times> bytes \<times> int" where
  "opt_loop [] printed = (printed, [], 0)"
| "opt_loop ((opt, rest) # os) printed = (case opt of
      Opt_h \<Rightarrow> (printed @ print_help, [], 0)
    | Opt_v \<Rightarrow> (printed @ ''testopt '' @ VERSION @ [NL], [], 0)
    | Opt_f a \<Rightarrow> opt_loop os (printed @ ''File: '' @ a @ [NL] @ non_options rest)
    | Opt_other c \<Rightarrow> (printed @ print_help, ''Unknown option '' @ [CHR 39] @ ''-'' @ [c] @ [CHR 39] @ ''.'' @ [NL], 1))"

definition testopt :: "bytes list \<Rightarrow> (found_option \<times> bytes list) list \<Rightarrow> bytes \<times> bytes \<times> int" where
  "testopt argv os = opt_loop os (if length argv = 1 then print_help else [])"

text \<open>The loop over the other arguments stands inside the loop over the options: without an
  option they are not shown at all, and with several \<open>-f\<close> they are shown each time.\<close>

lemma non_options_per_option:
  assumes "length argv \<noteq> 1"
  shows "testopt argv [] = ([], [], 0)"
    and "testopt argv (map (\<lambda>a. (Opt_f a, ws)) as)
      = (concat (map (\<lambda>a. ''File: '' @ a @ [NL] @ non_options ws) as), [], 0)"
proof -
  have "opt_loop (map (\<lambda>a. (Opt_f a, ws)) as) printed
      = (printed @ concat (map (\<lambda>a. ''File: '' @ a @ [NL] @ non_options ws) as), [], 0)" for printed
    by (induction as arbitrary: printed) simp_all
  with assms show "testopt argv (map (\<lambda>a. (Opt_f a, ws)) as)
      = (concat (map (\<lambda>a. ''File: '' @ a @ [NL] @ non_options ws) as), [], 0)"
    by (simp add: testopt_def)
  show "testopt argv [] = ([], [], 0)" using assms by (simp add: testopt_def)
qed

end
