(* ===== verification/Notify.thy ===== *)
theory Notify
  imports C_Prelude
begin

section \<open>The notification service on the D-Bus\<close>

text \<open>
  \<^verbatim>\<open>lab2/notify_server.c\<close> and \<^verbatim>\<open>lab2/notify_client.c\<close>: a service with one method, which
  answers a text with a text, and a program that calls it.  The bus is \<^verbatim>\<open>libsystemd\<close>, which is
  not under \<^verbatim>\<open>src/\<close>: what its functions return and deliver are inputs, and \<^verbatim>\<open>strerror\<close> is
  a parameter.  One event of the server is one call of \<^verbatim>\<open>sd_bus_process\<close> or
  \<^verbatim>\<open>sd_bus_wait\<close>; a call that dispatches a request runs the method.
\<close>

subsection \<open>Texts\<close>

definition txt_received :: bytes where
  "txt_received = map char_of [91, 83, 101, 114, 118, 101, 114, 93, 32, 236, 149, 140, 235, 166, 188, 32, 236,
     136, 152, 236, 139, 160, 58, 32 :: nat]"

definition txt_reply_1 :: bytes where
  "txt_reply_1 = map char_of [236, 149, 140, 235, 166, 188, 32, 39 :: nat]"

definition txt_reply_2 :: bytes where
  "txt_reply_2 = map char_of [39, 234, 176, 128, 32, 236, 132, 177, 234, 179, 181, 236, 160, 129, 236, 156, 188,
     235, 161, 156, 32, 236, 178, 152, 235, 166, 172, 235, 144, 152, 236, 151, 136,
     236, 138, 181, 235, 139, 136, 235, 139, 164, 46 :: nat]"

definition txt_started :: bytes where
  "txt_started = map char_of [91, 83, 101, 114, 118, 101, 114, 93, 32, 236, 149, 140, 235, 166, 188, 32, 236,
     132, 156, 235, 185, 132, 236, 138, 164, 234, 176, 128, 32, 236, 139, 156, 236,
     158, 145, 235, 144, 152, 236, 151, 136, 236, 138, 181, 235, 139, 136, 235, 139,
     164, 46, 46, 46, 10 :: nat]"

definition txt_default :: bytes where
  "txt_default = map char_of [234, 177, 180, 235, 172, 188, 236, 151, 144, 32, 235, 182, 136, 236, 157, 180, 32,
     235, 130, 172, 236, 138, 181, 235, 139, 136, 235, 139, 164, 46, 33 :: nat]"

definition txt_sending :: bytes where
  "txt_sending = map char_of [91, 67, 108, 105, 101, 110, 116, 93, 32, 236, 132, 156, 235, 178, 132, 236, 151,
     144, 32, 236, 149, 140, 235, 166, 188, 32, 236, 160, 132, 236, 134, 161, 32, 236,
     164, 145, 58, 32 :: nat]"

definition txt_answer :: bytes where
  "txt_answer = map char_of [91, 67, 108, 105, 101, 110, 116, 93, 32, 236, 132, 156, 235, 178, 132, 32, 236,
     157, 145, 235, 139, 181, 58, 32 :: nat]"

subsection \<open>The server\<close>

record notify_server =
  ns_out :: bytes
  ns_err :: bytes
  ns_replies :: "bytes list" \<comment> \<open>what was handed to \<^verbatim>\<open>sd_bus_reply_method_return\<close>\<close>
  ns_waits :: bool \<comment> \<open>about to call \<^verbatim>\<open>sd_bus_wait\<close>\<close>
  ns_exit :: "int option"

definition ns_start :: notify_server where
  "ns_start = \<lparr>ns_out = [], ns_err = [], ns_replies = [], ns_waits = False, ns_exit = None\<rparr>"

text \<open>The request's argument is \<open>Inl\<close> of a negative code when it cannot be read.\<close>

definition method_send_notification ::
  "(int \<Rightarrow> bytes) \<Rightarrow> int + bytes \<Rightarrow> notify_server \<Rightarrow> notify_server cres" where
  "method_send_notification strerror arg s = (case arg of
      Inl ret \<Rightarrow> Inr (s\<lparr>ns_err := ns_err s @ ''Failed to parse parameters: '' @ strerror (- ret) @ [NL]\<rparr>)
    | Inr m \<Rightarrow>
        let t = s\<lparr>ns_out := ns_out s @ txt_received @ m @ [NL]\<rparr> in
        cbind (store_cstr (replicate 100 NUL) (txt_reply_1 @ m @ txt_reply_2)) (\<lambda>reply.
        Inr (t\<lparr>ns_replies := ns_replies t @ [cstr reply]\<rparr>)))"

text \<open>The label \<^verbatim>\<open>finish\<close>, reached with a negative \<^verbatim>\<open>ret\<close>.\<close>

definition bus_finish :: "bytes \<Rightarrow> notify_server \<Rightarrow> notify_server" where
  "bus_finish m s = s\<lparr>ns_err := ns_err s @ m @ [NL], ns_exit := Some 1\<rparr>"

datatype bus_event =
    Process int
  | Call "int + bytes" \<comment> \<open>\<^verbatim>\<open>sd_bus_process\<close> dispatched a request\<close>
  | Wait int

definition bus_step :: "(int \<Rightarrow> bytes) \<Rightarrow> bus_event \<Rightarrow> notify_server \<Rightarrow> notify_server cres" where
  "bus_step strerror e s =
     (if ns_exit s \<noteq> None then Inr s
      else case e of
        Process ret \<Rightarrow>
          Inr (if ns_waits s then s
               else if ret < 0 then bus_finish (''Failed to process bus: '' @ strerror (- ret)) s
               else if ret > 0 then s
               else s\<lparr>ns_waits := True\<rparr>)
      | Call arg \<Rightarrow> if ns_waits s then Inr s else method_send_notification strerror arg s
      | Wait ret \<Rightarrow>
          Inr (if \<not> ns_waits s then s
               else if ret < 0 then bus_finish (''Failed to wait on bus: '' @ strerror (- ret)) s
               else s\<lparr>ns_waits := False\<rparr>))"

fun bus_loop :: "(int \<Rightarrow> bytes) \<Rightarrow> bus_event list \<Rightarrow> notify_server \<Rightarrow> notify_server cres" where
  "bus_loop strerror [] s = Inr s"
| "bus_loop strerror (e # es) s = cbind (bus_step strerror e s) (bus_loop strerror es)"

text \<open>\<^verbatim>\<open>main\<close>: the results of connecting, of adding the object and of requesting the name.\<close>

definition notify_main :: "(int \<Rightarrow> bytes) \<Rightarrow> int \<Rightarrow> int \<Rightarrow> int \<Rightarrow> bus_event list \<Rightarrow> notify_server cres" where
  "notify_main strerror conn obj nam es =
     (if conn < 0 then Inr (bus_finish (''Failed to connect to user bus: '' @ strerror (- conn)) ns_start)
      else if obj < 0 then Inr (bus_finish (''Failed to issue method call: '' @ strerror (- obj)) ns_start)
      else if nam < 0 then Inr (bus_finish (''Failed to acquire service name: '' @ strerror (- nam)) ns_start)
      else bus_loop strerror es (ns_start\<lparr>ns_out := txt_started\<rparr>))"

subsection \<open>The client\<close>

record notify_run =
  nc_out :: bytes
  nc_err :: bytes
  nc_sent :: "bytes option" \<comment> \<open>the argument of the method call\<close>
  nc_exit :: int

text \<open>The call returns an error with its text, or a response, which may not be readable.\<close>

definition notify_client :: "(int \<Rightarrow> bytes) \<Rightarrow> bytes list \<Rightarrow> int \<Rightarrow> bytes + (int + bytes) \<Rightarrow> notify_run" where
  "notify_client strerror argv conn response =
     (let msg = (if length argv > 1 then argv ! 1 else txt_default) in
      if conn < 0
      then \<lparr>nc_out = [], nc_err = ''Failed to connect to user bus: '' @ strerror (- conn) @ [NL],
        nc_sent = None, nc_exit = 1\<rparr>
      else let out = txt_sending @ msg @ [NL] in
        case response of
          Inl e \<Rightarrow> \<lparr>nc_out = out, nc_err = ''Failed to issue method call: '' @ e @ [NL], nc_sent = Some msg, nc_exit = 1\<rparr>
        | Inr (Inl ret) \<Rightarrow> \<lparr>nc_out = out, nc_err = ''Failed to parse response message: '' @ strerror (- ret) @ [NL],
            nc_sent = Some msg, nc_exit = 1\<rparr>
        | Inr (Inr reply) \<Rightarrow> \<lparr>nc_out = out @ txt_answer @ reply @ [NL], nc_err = [], nc_sent = Some msg, nc_exit = 0\<rparr>)"

subsection \<open>A call\<close>

text \<open>The object that the server registers, with its table of methods, the name it requests, and
  the call that the client makes; \<open>addressed\<close> is that the names and the types of the arguments and
  of the answer agree.\<close>

record bus_method =
  bm_member :: bytes
  bm_args :: bytes
  bm_result :: bytes

record bus_object =
  bo_name :: bytes
  bo_path :: bytes
  bo_interface :: bytes
  bo_vtable :: "bus_method list"

record bus_call =
  bc_name :: bytes
  bc_path :: bytes
  bc_interface :: bytes
  bc_member :: bytes
  bc_args :: bytes
  bc_text :: bytes
  bc_reads :: bytes \<comment> \<open>the type that \<^verbatim>\<open>sd_bus_message_read\<close> asks of the answer\<close>

definition notify_vtable :: "bus_method list" where
  "notify_vtable = [\<lparr>bm_member = ''SendNotification'', bm_args = ''s'', bm_result = ''s''\<rparr>]"

definition notify_object :: bus_object where
  "notify_object = \<lparr>bo_name = ''org.example.NotifyService'', bo_path = ''/org/example/NotifyService'',
     bo_interface = ''org.example.NotifyService'', bo_vtable = notify_vtable\<rparr>"

definition notify_call :: "bytes \<Rightarrow> bus_call" where
  "notify_call msg = \<lparr>bc_name = ''org.example.NotifyService'', bc_path = ''/org/example/NotifyService'',
     bc_interface = ''org.example.NotifyService'', bc_member = ''SendNotification'', bc_args = ''s'',
     bc_text = msg, bc_reads = ''s''\<rparr>"

definition addressed :: "bus_object \<Rightarrow> bus_call \<Rightarrow> bool" where
  "addressed obj call \<longleftrightarrow> bc_name call = bo_name obj \<and> bc_path call = bo_path obj
     \<and> bc_interface call = bo_interface obj
     \<and> list_ex (\<lambda>m. bm_member m = bc_member call \<and> bm_args m = bc_args call \<and> bm_result m = bc_reads call) (bo_vtable obj)"

lemma notify_call_addressed: "addressed notify_object (notify_call msg)"
  by (simp add: addressed_def notify_object_def notify_call_def notify_vtable_def)

lemma reply_texts: "NUL \<notin> set txt_reply_1" "NUL \<notin> set txt_reply_2" "length txt_reply_1 = 8" "length txt_reply_2 = 43"
  by code_simp+

lemma send_notification_eq:
  assumes "NUL \<notin> set m"
  shows "method_send_notification strerror (Inr m) s =
    (if length m < 49
     then Inr (s\<lparr>ns_out := ns_out s @ txt_received @ m @ [NL], ns_replies := ns_replies s @ [txt_reply_1 @ m @ txt_reply_2]\<rparr>)
     else Inl Out_Of_Bounds)"
proof (cases "length m < 49")
  case True
  then obtain b where b: "store_cstr (replicate 100 NUL) (txt_reply_1 @ m @ txt_reply_2) = Inr b"
    by (simp add: store_cstr_def reply_texts)
  have "cstr b = txt_reply_1 @ m @ txt_reply_2"
    by (rule cstr_store_cstr [OF b]) (use assms reply_texts in simp)
  with b True show ?thesis by (simp add: method_send_notification_def Let_def)
next
  case False
  then show ?thesis by (simp add: method_send_notification_def Let_def store_cstr_def reply_texts)
qed

text \<open>
  Property C33.  A notification and its answer: the client's call is addressed to the method
  that the server registers, and carries the text that the client was given, or its default text; if it has at most 48 bytes the server stays in
  its loop and its one reply, which quotes the text, is what the client prints before it
  exits with 0; a longer text overruns the server's \<^verbatim>\<open>reply[100]\<close>.
\<close>

theorem notify_roundtrip:
  assumes "nc_sent (notify_client strerror argv conn r) = Some m" and "NUL \<notin> set m"
    and "ns_exit s = None" and "\<not> ns_waits s"
  shows "m = (if length argv > 1 then argv ! 1 else txt_default)
    \<and> addressed notify_object (notify_call m)
    \<and> (if length m < 49
       then \<exists>t reply. bus_step strerror (Call (Inr m)) s = Inr t \<and> ns_replies t = ns_replies s @ [reply]
         \<and> reply = txt_reply_1 @ m @ txt_reply_2 \<and> ns_exit t = None \<and> \<not> ns_waits t
         \<and> notify_client strerror argv conn (Inr (Inr reply))
           = \<lparr>nc_out = txt_sending @ m @ [NL] @ txt_answer @ reply @ [NL], nc_err = [], nc_sent = Some m, nc_exit = 0\<rparr>
       else bus_step strerror (Call (Inr m)) s = Inl Out_Of_Bounds)"
proof -
  have conn: "\<not> conn < 0" and m: "m = (if length argv > 1 then argv ! 1 else txt_default)"
    using assms(1) by (auto simp: notify_client_def Let_def split: if_splits sum.splits)
  then have "notify_client strerror argv conn (Inr (Inr reply))
      = \<lparr>nc_out = txt_sending @ m @ [NL] @ txt_answer @ reply @ [NL], nc_err = [], nc_sent = Some m, nc_exit = 0\<rparr>" for reply
    by (simp add: notify_client_def Let_def)
  with m assms(2-4) send_notification_eq [OF assms(2)] notify_call_addressed [of m] show ?thesis
    by (simp add: bus_step_def)
qed

theorem notify_roundtrip_witness:
  "\<exists>t reply. bus_step (\<lambda>_. []) (Call (Inr ''fire'')) ns_start = Inr t \<and> ns_replies t = [reply]
     \<and> nc_exit (notify_client (\<lambda>_. []) [''notify_client'', ''fire''] 0 (Inr (Inr reply))) = 0"
  using notify_roundtrip [of "\<lambda>_. []" "[''notify_client'', ''fire'']" 0 "Inl []" "''fire''" ns_start]
  by (auto simp: notify_client_def ns_start_def)

text \<open>The server's loop ends only on an error of the bus, and then with the exit code 1.\<close>

lemma notify_exit_code:
  assumes "notify_main strerror conn obj nam es = Inr t"
  shows "ns_exit t = None \<or> ns_exit t = Some 1"
proof -
  have step: "ns_exit u = None \<or> ns_exit u = Some 1"
    if "bus_step strerror e s = Inr u" "ns_exit s = None \<or> ns_exit s = Some 1" for e s u
    using that by (auto simp: bus_step_def method_send_notification_def bus_finish_def Let_def
        split: bus_event.splits sum.splits if_splits)
  have "ns_exit t = None \<or> ns_exit t = Some 1"
    if "bus_loop strerror es s = Inr t" "ns_exit s = None \<or> ns_exit s = Some 1" for s
    using that step by (induction es arbitrary: s) auto
  then show ?thesis
    using assms by (auto simp: notify_main_def bus_finish_def ns_start_def split: if_splits)
qed

end
