(* ===== verification/Thread_Examples.thy ===== *)
theory Thread_Examples
  imports C_Prelude Transition "HOL-Library.Word" "HOL-Library.Multiset"
begin

section \<open>Threads that greet, are joined and are cancelled\<close>

text \<open>
  The small programs of \<^verbatim>\<open>lab3/2\<close>: \<^verbatim>\<open>hellothread.c\<close> and \<^verbatim>\<open>hellothreads.c\<close> (threads that
  print a greeting), \<^verbatim>\<open>jointhread.c\<close> (an \<^verbatim>\<open>int\<close> that travels through a thread as a
  pointer) and \<^verbatim>\<open>cancelthread.c\<close> (a thread that is cancelled at certain points).  The results
  of the pthread calls are inputs; \<^verbatim>\<open>int\<close> has 32 bits, \<^verbatim>\<open>long\<close> and pointers 64.
\<close>

text \<open>What the parent process sees of the value that \<^verbatim>\<open>main\<close> returns.\<close>

definition exit_status :: "32 word \<Rightarrow> nat" where
  "exit_status v = unat (take_bit 8 v)"

lemma exit_status_int: "exit_status (word_of_int n) = nat (n mod 256)"
proof -
  have "uint (take_bit 8 (word_of_int n :: 32 word)) = n mod 256"
    unfolding unsigned_take_bit_eq uint_word_of_int_eq by (simp add: take_bit_eq_mod mod_mod_cancel)
  then show ?thesis by (simp add: exit_status_def unat_eq_nat_uint)
qed

subsection \<open>hellothread, hellothreads\<close>

definition hello_thread :: "int option \<Rightarrow> bytes" where
  "hello_thread arg = (case arg of
      None \<Rightarrow> ''Thread: Hello World'' @ [NL]
    | Some i \<Rightarrow> ''Thread '' @ show_int i @ '': Hello World'' @ [NL])"

text \<open>\<^verbatim>\<open>main\<close> of \<^verbatim>\<open>hellothread.c\<close>: what is printed, and what \<^verbatim>\<open>perror\<close> was called with.\<close>

definition hellothread :: "int \<Rightarrow> bytes \<times> bytes" where
  "hellothread status = (if status \<noteq> 0 then ([], ''Create thread'') else (hello_thread None, []))"

text \<open>\<^verbatim>\<open>hellothreads.c\<close>: \<^verbatim>\<open>main\<close> creates the threads in turn and ends itself, or the
  process when a creation fails; a thread that exists may print at any time.\<close>

definition NUM_THREADS :: nat where "NUM_THREADS = 3"

record hellos =
  h_i :: nat
  h_created :: "nat set"
  h_printed :: "nat list"
  h_error :: "bytes option" \<comment> \<open>the process has ended with 1\<close>

definition hello_start :: hellos where
  "hello_start = \<lparr>h_i = 0, h_created = {}, h_printed = [], h_error = None\<rparr>"

inductive hello_step :: "hellos \<Rightarrow> hellos \<Rightarrow> bool" where
  h_create: "h_error s = None \<Longrightarrow> h_i s < NUM_THREADS
    \<Longrightarrow> hello_step s (s\<lparr>h_i := Suc (h_i s), h_created := insert (h_i s) (h_created s)\<rparr>)"
| h_fail: "h_error s = None \<Longrightarrow> h_i s < NUM_THREADS \<Longrightarrow> status \<noteq> 0
    \<Longrightarrow> hello_step s (s\<lparr>h_error := Some (''Create Thread '' @ show_nat (h_i s) @ '': '' @ show_int status)\<rparr>)"
| h_print: "h_error s = None \<Longrightarrow> i \<in> h_created s \<Longrightarrow> i \<notin> set (h_printed s)
    \<Longrightarrow> hello_step s (s\<lparr>h_printed := h_printed s @ [i]\<rparr>)"

definition hello_output :: "hellos \<Rightarrow> bytes" where
  "hello_output s = concat (map (\<lambda>i. hello_thread (Some (int i))) (h_printed s))"

definition hello_ok :: "hellos \<Rightarrow> bool" where
  "hello_ok s \<longleftrightarrow> h_created s = {..<h_i s} \<and> h_i s \<le> NUM_THREADS \<and> distinct (h_printed s)
     \<and> set (h_printed s) \<subseteq> h_created s"

interpretation greetings: inductive_invariant "\<lambda>s. s = hello_start" hello_step hello_ok
proof unfold_locales
  show "s = hello_start \<Longrightarrow> hello_ok s" for s by (simp add: hello_ok_def hello_start_def)
  show "hello_ok t" if "hello_ok s" "hello_step s t" for s t
    using that(2,1) by cases (auto simp: hello_ok_def)
qed

text \<open>When no step is left and the process has not ended in an error, every thread has printed
  its line exactly once, in some order; until then some step is left.\<close>

lemma greetings_complete:
  assumes "reachable (\<lambda>s. s = hello_start) hello_step s" "h_error s = None"
  shows "(\<exists>t. hello_step s t) \<or> mset (h_printed s) = mset [0..<NUM_THREADS]"
proof (cases "h_i s < NUM_THREADS \<or> (\<exists>i \<in> h_created s. i \<notin> set (h_printed s))")
  case True
  then show ?thesis using assms(2) h_create h_print by blast
next
  case False
  have "hello_ok s" using assms(1) by (rule greetings.reachable_inv)
  with False have "set (h_printed s) = set [0..<NUM_THREADS]" "distinct (h_printed s)"
    unfolding hello_ok_def by auto
  then have "mset (h_printed s) = mset [0..<NUM_THREADS]"
    using set_eq_iff_mset_eq_distinct [of "h_printed s" "[0..<NUM_THREADS]"] by simp
  then show ?thesis ..
qed

subsection \<open>jointhread\<close>

text \<open>\<^verbatim>\<open>(void *)(long)arg\<close> and \<^verbatim>\<open>(int)(long)result\<close>.\<close>

definition ptr_of_int :: "32 word \<Rightarrow> 64 word" where
  "ptr_of_int v = scast v"

definition int_of_ptr :: "64 word \<Rightarrow> 32 word" where
  "int_of_ptr v = ucast v"

definition join_thread :: "64 word \<Rightarrow> 64 word" where
  "join_thread arg = arg"

text \<open>The value returned by \<^verbatim>\<open>main\<close>, and what goes to \<^verbatim>\<open>stderr\<close>.\<close>

definition jointhread :: "bytes list \<Rightarrow> int \<Rightarrow> int \<Rightarrow> (32 word \<times> bytes) cres" where
  "jointhread argv created joined =
     (if length argv < 2 then Inr (1, ''Usage: jointhread <number>'' @ [NL])
      else cbind (atoi (argv ! 1)) (\<lambda>arg.
        if created \<noteq> 0 then Inr (1, ''Create Thread: '' @ show_int created)
        else let result = join_thread (ptr_of_int (word_of_int arg)) in
        if joined \<noteq> 0 then Inr (1, ''Join Thread: '' @ show_int joined)
        else Inr (int_of_ptr result, [])))"

lemma int_ptr_int: "int_of_ptr (ptr_of_int v) = v"
  by (rule bit_word_eqI) (auto simp: int_of_ptr_def ptr_of_int_def bit_simps)

text \<open>
  An \<^verbatim>\<open>int\<close> survives the way through the thread: the number given to
  \<^verbatim>\<open>jointhread\<close>, widened to a pointer, returned by the thread and narrowed again, is what
  \<^verbatim>\<open>main\<close> returns, negative numbers included; of it the exit status keeps the last eight bits.
\<close>

lemma jointhread_returns:
  assumes "- (2 ^ 31) \<le> n" and "n < 2 ^ 31"
  shows "\<exists>v. jointhread [c, show_int n] 0 0 = Inr (v, []) \<and> sint v = n \<and> exit_status v = nat (n mod 256)"
proof -
  have "jointhread [c, show_int n] 0 0 = Inr (word_of_int n, [])"
    using atoi_show_int [OF assms] by (simp add: jointhread_def join_thread_def int_ptr_int)
  moreover have "sint (word_of_int n :: 32 word) = n"
    using assms by (simp add: signed_of_int signed_take_bit_int_eq_self)
  ultimately show ?thesis using exit_status_int by blast
qed

lemma jointhread_returns_example:
  "\<exists>v. jointhread [''jointhread'', show_int (-3)] 0 0 = Inr (v, []) \<and> sint v = -3 \<and> exit_status v = 253"
  using jointhread_returns [of "-3" "''jointhread''"] by simp

subsection \<open>cancelthread\<close>

text \<open>A turn of the thread's loop: the line, printed while cancellation is disabled, and the
  test in every fifth turn; \<open>req\<close> says whether a request has come by then.  The state is
  \<^verbatim>\<open>i\<close>, the lines so far, and whether the thread is cancelled.\<close>

fun cancel_turns :: "bool list \<Rightarrow> int \<Rightarrow> nat \<Rightarrow> bool \<Rightarrow> (nat \<times> bool) cres" where
  "cancel_turns [] i n requested = Inr (n, False)"
| "cancel_turns (req # rs) i n requested =
     (let requested = (requested \<or> req) in
      if i mod 5 = 0 \<and> requested then Inr (Suc n, True)
      else cbind (c_int (i + 1)) (\<lambda>i. cancel_turns rs i (Suc n) requested))"

lemma cancel_lines:
  "cancel_turns rs i n requested = Inr (m, True) \<Longrightarrow> \<exists>k. m = Suc (n + k) \<and> (i + int k) mod 5 = 0"
proof (induction rs arbitrary: i n requested)
  case (Cons req rs)
  show ?case
  proof (cases "i mod 5 = 0 \<and> (requested \<or> req)")
    case True
    with Cons.prems show ?thesis by (intro exI [of _ 0]) (simp add: Let_def)
  next
    case False
    with Cons.prems have "cancel_turns rs (i + 1) (Suc n) (requested \<or> req) = Inr (m, True)"
      unfolding cancel_turns.simps Let_def if_not_P [OF False] by auto
    from Cons.IH [OF this] obtain k where k: "m = Suc (Suc n + k) \<and> (i + 1 + int k) mod 5 = 0" by (rule exE)
    have "i + int (Suc k) = i + 1 + int k" by simp
    with k show ?thesis by (intro exI [of _ "Suc k"] conjI) (simp_all only: add_Suc add_Suc_right)
  qed
qed simp

text \<open>Whenever the request comes, a cancelled thread has printed one line more than a multiple
  of five.\<close>

lemma cancelled_after_fives: "cancel_turns rs 0 0 False = Inr (m, True) \<Longrightarrow> m mod 5 = 1"
proof -
  assume "cancel_turns rs 0 0 False = Inr (m, True)"
  from cancel_lines [OF this] obtain k where "m = Suc k" "int k mod 5 = 0" by auto
  then show ?thesis by presburger
qed

text \<open>\<^verbatim>\<open>main\<close>: the thread is cancelled after a sleep; the join waits for it.  \<open>rs\<close> says in
  which turn of the thread the request arrives; \<open>None\<close> while the thread has not ended.  The
  result of a cancelled thread is the pointer \<^verbatim>\<open>PTHREAD_CANCELED\<close>, -1.\<close>

definition cancelthread :: "bytes list \<Rightarrow> int \<Rightarrow> int \<Rightarrow> int \<Rightarrow> bool list \<Rightarrow> (32 word \<times> bytes \<times> nat) option cres" where
  "cancelthread argv created cancelled joined rs =
     (if length argv < 2 then Inr (Some (1, ''Usage: cancelthread time(sec) '' @ [NL], 0))
      else if created \<noteq> 0 then Inr (Some (1, ''Create thread: '' @ show_int created, 0))
      else cbind (atoi (argv ! 1)) (\<lambda>arg.
        cbind (cancel_turns rs 0 0 False) (\<lambda>(lines, ended).
        if cancelled \<noteq> 0 then Inr (Some (1, ''Create thread: '' @ show_int cancelled, lines))
        else if joined \<noteq> 0 then Inr (Some (1, ''Create thread: '' @ show_int joined, lines))
        else Inr (if ended then Some (int_of_ptr (-1), [], lines) else None))))"

lemma before_request:
  "int k + i < 2 ^ 31 \<Longrightarrow> 0 \<le> i \<Longrightarrow>
   cancel_turns (replicate k False @ rs) i n False = cancel_turns rs (i + int k) (n + k) False"
proof (induction k arbitrary: i n)
  case (Suc k)
  then show ?case using Suc.IH [of "i + 1" "Suc n"] by (simp add: c_int_def add.assoc)
qed simp

lemma after_request:
  assumes "0 \<le> i" "i + 5 < 2 ^ 31" "nat ((- i) mod 5) < length rs"
  shows "\<exists>m. cancel_turns rs i n True = Inr (m, True) \<and> n < m \<and> m \<le> n + 5"
proof -
  have "\<exists>m. cancel_turns rs i n True = Inr (m, True) \<and> m = Suc (n + k)"
    if "0 \<le> i" "i + int k < 2 ^ 31" "k < length rs" "(i + int k) mod 5 = 0" "\<forall>l < k. (i + int l) mod 5 \<noteq> 0" for k
    using that
  proof (induction k arbitrary: i n rs)
    case 0
    then show ?case by (cases rs) simp_all
  next
    case (Suc k)
    obtain r rs' where rs: "rs = r # rs'" using Suc.prems(3) by (cases rs) auto
    have "i mod 5 \<noteq> 0" using Suc.prems(5) by force
    then have "cancel_turns rs i n True = cancel_turns rs' (i + 1) (Suc n) True"
      using Suc.prems(1,2) by (simp add: rs c_int_def)
    moreover have "\<forall>l < k. (i + 1 + int l) mod 5 \<noteq> 0"
      using Suc.prems(5) by (metis Suc_less_eq add.commute add.left_commute of_nat_Suc)
    ultimately show ?case
      using Suc.IH [of "i + 1" rs' "Suc n"] Suc.prems rs by (simp add: algebra_simps)
  qed
  note core = this
  let ?k = "nat ((- i) mod 5)"
  have k: "int ?k = (- i) mod 5" by simp
  have "(i + int ?k) mod 5 = 0" unfolding k by presburger
  moreover have "\<forall>l < ?k. (i + int l) mod 5 \<noteq> 0"
  proof (intro allI impI)
    fix l assume "l < ?k"
    then have "int l < (- i) mod 5" by linarith
    moreover have "0 \<le> int l" by simp
    ultimately show "(i + int l) mod 5 \<noteq> 0" by presburger
  qed
  moreover have "?k < 5" by (simp add: nat_less_iff)
  moreover from this have "i + int ?k < 2 ^ 31" using assms(2) by linarith
  ultimately have "\<exists>m. cancel_turns rs i n True = Inr (m, True) \<and> m = Suc (n + ?k)"
    by (intro core assms(1,3))
  with \<open>?k < 5\<close> show ?thesis by auto
qed

text \<open>
  Cancellation comes through: whenever the request arrives, the thread ends
  within the next five turns of its loop, having printed one line more than a multiple of five,
  and \<^verbatim>\<open>main\<close> returns with the exit status 255 of a cancelled thread.
\<close>

lemma cancelthread_ends:
  assumes "int k + 10 < 2 ^ 31" and "5 \<le> length rs" and "- (2 ^ 31) \<le> a" and "a < 2 ^ 31"
  shows "\<exists>v m. cancelthread [c, show_int a] 0 0 0 (replicate k False @ True # rs) = Inr (Some (v, [], m))
    \<and> exit_status v = 255 \<and> m mod 5 = 1 \<and> k < m \<and> m \<le> k + 5"
proof -
  let ?rs = "replicate k False @ True # rs"
  have "cancel_turns ?rs 0 0 False = cancel_turns (True # rs) (int k) k False"
    using before_request [of k 0 "True # rs" 0] assms(1) by simp
  also have "\<dots> = cancel_turns (True # rs) (int k) k True" by simp
  finally have eq: "cancel_turns ?rs 0 0 False = cancel_turns (True # rs) (int k) k True" .
  have "(- int k) mod 5 < 5" by simp
  then have "nat ((- int k) mod 5) < 5" by linarith
  then have "nat ((- int k) mod 5) < length (True # rs)" using assms(2) by simp
  then obtain m where m: "cancel_turns ?rs 0 0 False = Inr (m, True)" "k < m" "m \<le> k + 5"
    using after_request [of "int k" "True # rs" k] eq assms(1) by auto
  have "cancelthread [c, show_int a] 0 0 0 ?rs = Inr (Some (int_of_ptr (-1), [], m))"
    using atoi_show_int [OF assms(3,4)] m(1) by (simp add: cancelthread_def)
  moreover have "exit_status (int_of_ptr (-1)) = 255" by code_simp
  ultimately show ?thesis using cancelled_after_fives [OF m(1)] m(2,3) by blast
qed

lemma cancelthread_ends_example:
  "\<exists>v m. cancelthread [''cancelthread'', show_int 2] 0 0 0 (replicate 2 False @ True # replicate 5 False)
       = Inr (Some (v, [], m)) \<and> exit_status v = 255 \<and> 2 < m"
  using cancelthread_ends [of 2 "replicate 5 False" 2 "''cancelthread''"] by auto

end
