(* ===== verification/Process_Examples.thy ===== *)
theory Process_Examples
  imports C_Prelude "HOL-Library.Word"
begin

section \<open>Processes that fork, wait and are signalled\<close>

text \<open>
  The small programs of \<^verbatim>\<open>lab2/ch8\<close>: \<^verbatim>\<open>forkprocess.c\<close>, \<^verbatim>\<open>waitprocess.c\<close>,
  \<^verbatim>\<open>alarmsignal.c\<close>, \<^verbatim>\<open>handlesignal.c\<close> and \<^verbatim>\<open>raisesignal.c\<close>.  The results of
  \<^verbatim>\<open>fork\<close> and \<^verbatim>\<open>wait\<close> are inputs, signals are events.
\<close>

subsection \<open>forkprocess\<close>

text \<open>\<^verbatim>\<open>stdout\<close>: a terminal is written at each newline, anything else when the process ends;
  \<^verbatim>\<open>fork\<close> copies what has not been written.\<close>

record stdio =
  so_tty :: bool
  so_buf :: bytes
  so_written :: bytes

definition printf :: "bytes \<Rightarrow> stdio \<Rightarrow> stdio" where
  "printf line o1 = (if so_tty o1 then o1\<lparr>so_written := so_written o1 @ line\<rparr> else o1\<lparr>so_buf := so_buf o1 @ line\<rparr>)"

definition flush :: "stdio \<Rightarrow> bytes" where
  "flush o1 = so_written o1 @ so_buf o1"

definition line_fork :: bytes where "line_fork = ''Calling fork'' @ [NL]"
definition line_child :: bytes where "line_child = ''I'' @ [CHR 39] @ ''m the child process '' @ [NL]"
definition line_parent :: bytes where "line_parent = ''I'' @ [CHR 39] @ ''m the parent process '' @ [NL]"
definition line_failed :: bytes where "line_failed = ''fork failed '' @ [NL]"

text \<open>What arrives at the terminal or file; \<open>first\<close> says whether the child ends first.\<close>

definition forkprocess :: "bool \<Rightarrow> int \<Rightarrow> bool \<Rightarrow> bytes" where
  "forkprocess tty pid first =
     (let before = printf line_fork \<lparr>so_tty = tty, so_buf = [], so_written = []\<rparr>;
          copy = before\<lparr>so_written := []\<rparr>;
          child = flush (printf line_child copy);
          parent = flush (printf line_parent copy)
      in if pid < 0 then flush (printf line_failed before)
         else so_written before @ (if first then child @ parent else parent @ child))"

text \<open>The first line comes once on a terminal and twice in a file or pipe, with the children's
  lines in either order.\<close>

lemma fork_copies_buffer:
  assumes "0 \<le> pid"
  shows "forkprocess True pid True = line_fork @ line_child @ line_parent"
    and "forkprocess True pid False = line_fork @ line_parent @ line_child"
    and "forkprocess False pid True = line_fork @ line_child @ line_fork @ line_parent"
    and "forkprocess False pid False = line_fork @ line_parent @ line_fork @ line_child"
  using assms by (simp_all add: forkprocess_def printf_def flush_def Let_def)

subsection \<open>waitprocess\<close>

text \<open>The status word of a process that exited, or that a signal ended.\<close>

datatype process_end = Exited int | Killed nat

definition status_word :: "process_end \<Rightarrow> int" where
  "status_word e = (case e of Exited c \<Rightarrow> push_bit 8 (take_bit 8 c) | Killed n \<Rightarrow> take_bit 7 (int n))"

definition WIFEXITED :: "int \<Rightarrow> bool" where
  "WIFEXITED status \<longleftrightarrow> take_bit 7 status = 0"

definition WEXITSTATUS :: "int \<Rightarrow> int" where
  "WEXITSTATUS status = take_bit 8 (drop_bit 8 status)"

definition wait_child :: process_end where
  "wait_child = Exited 5"

text \<open>The parent: \<open>None\<close> if \<^verbatim>\<open>wait\<close> fails, otherwise the status of the child.  Output,
  the text given to \<^verbatim>\<open>perror\<close>, exit code.\<close>

definition waitprocess :: "int \<Rightarrow> int option \<Rightarrow> bytes \<times> bytes \<times> int" where
  "waitprocess pid waited =
     (if pid < 0 then ([], ''fork failed'', 1)
      else case waited of
        None \<Rightarrow> ([], ''wait failed'', 2)
      | Some status \<Rightarrow>
          (if WIFEXITED status
           then ''Exit status from '' @ show_int pid @ '' was '' @ show_int (WEXITSTATUS status) @ [NL] else [], [], 0))"

lemma exit_code_roundtrip: "WIFEXITED (status_word (Exited c)) \<and> WEXITSTATUS (status_word (Exited c)) = c mod 256"
proof
  have "take_bit 7 (push_bit 8 (take_bit 8 c)) = 0"
    by (rule bit_eqI) (simp add: bit_simps)
  then show "WIFEXITED (status_word (Exited c))" by (simp add: WIFEXITED_def status_word_def)
  show "WEXITSTATUS (status_word (Exited c)) = c mod 256"
  proof -
    have "take_bit 8 (drop_bit 8 (push_bit 8 (take_bit 8 c))) = take_bit 8 c"
      by (rule bit_eqI) (auto simp: bit_simps)
    then show ?thesis by (simp add: WEXITSTATUS_def status_word_def take_bit_eq_mod)
  qed
qed

text \<open>
  The parent reports exactly the child's exit code; of a child that a signal ended it reports
  nothing.
\<close>

lemma waitprocess_reports:
  assumes "0 \<le> pid"
  shows "waitprocess pid (Some (status_word wait_child)) = (''Exit status from '' @ show_int pid @ '' was 5'' @ [NL], [], 0)"
    and "0 < n \<Longrightarrow> n < 128 \<Longrightarrow> waitprocess pid (Some (status_word (Killed n))) = ([], [], 0)"
proof -
  have "show_int 5 = ''5''" by code_simp
  then show "waitprocess pid (Some (status_word wait_child)) = (''Exit status from '' @ show_int pid @ '' was 5'' @ [NL], [], 0)"
    using assms exit_code_roundtrip [of 5] by (simp add: waitprocess_def wait_child_def)
  show "waitprocess pid (Some (status_word (Killed n))) = ([], [], 0)" if "0 < n" "n < 128"
    using assms that by (simp add: waitprocess_def WIFEXITED_def status_word_def take_bit_eq_mod)
qed

subsection \<open>alarmsignal, raisesignal, handlesignal\<close>

record alarm_proc =
  al_flag :: bool
  al_paused :: bool
  al_out :: bytes
  al_exit :: "int option"

datatype alarm_event = Enter_Pause | Sigalrm

definition alarm_handler :: "alarm_proc \<Rightarrow> alarm_proc" where
  "alarm_handler s = s\<lparr>al_out := al_out s @ ''Received a alarm signal.'' @ [NL], al_flag := True\<rparr>"

text \<open>After \<^verbatim>\<open>pause\<close>.\<close>

definition after_pause :: "alarm_proc \<Rightarrow> alarm_proc" where
  "after_pause s = s\<lparr>al_out := al_out s @ (if al_flag s then ''Passed a 5 secs.'' @ [NL] else []), al_exit := Some 0\<rparr>"

fun alarm_step :: "alarm_event \<Rightarrow> alarm_proc \<Rightarrow> alarm_proc" where
  "alarm_step Enter_Pause s = (if al_exit s = None then s\<lparr>al_paused := True\<rparr> else s)"
| "alarm_step Sigalrm s =
     (if al_exit s \<noteq> None then s
      else if al_paused s then after_pause (alarm_handler s) else alarm_handler s)"

text \<open>The handler is installed and the alarm is set; the program is about to pause.\<close>

definition alarm_start :: alarm_proc where
  "alarm_start = \<lparr>al_flag = False, al_paused = False, al_out = [], al_exit = None\<rparr>"

text \<open>The one alarm ends the program if it comes in the pause, and is lost if it comes before.\<close>

lemma alarm_ends_pause:
  "al_exit (fold alarm_step [Enter_Pause, Sigalrm] alarm_start) = Some 0"
  "al_out (fold alarm_step [Enter_Pause, Sigalrm] alarm_start)
     = ''Received a alarm signal.'' @ [NL] @ ''Passed a 5 secs.'' @ [NL]"
  "al_exit (fold alarm_step [Sigalrm, Enter_Pause] alarm_start) = None"
  by (simp_all add: alarm_start_def alarm_handler_def after_pause_def)

text \<open>\<^verbatim>\<open>raise(SIGFPE)\<close> ends the process before the division, as \<open>b\<close> is 0.\<close>

definition SIGFPE :: nat where "SIGFPE = 8"

definition raisesignal :: process_end where
  "raisesignal = (let a = 10; b = 0 in if b = (0 :: int) then Killed SIGFPE
     else let a = a div b in Exited 0)"

text \<open>A turn of the loop of \<^verbatim>\<open>handlesignal.c\<close>: the sleep lasts its second, or a SIGINT runs
  the handler and ends it.  The state is \<^verbatim>\<open>i\<close> and the output.\<close>

definition SIGINT :: int where "SIGINT = 2"

definition handler_line :: bytes where
  "handler_line = ''handler: signo='' @ show_int SIGINT @ [NL]"

definition sleep_turn :: "bool \<Rightarrow> int \<times> bytes \<Rightarrow> (int \<times> bytes) cres" where
  "sleep_turn interrupted s = (case s of (i, printed) \<Rightarrow>
     cbind (c_int (i + 1)) (\<lambda>i.
       Inr (i, printed @ (if interrupted then handler_line else [])
         @ ''sleep for '' @ show_int i @ '' sec(s).'' @ [NL])))"

fun sleep_turns :: "bool list \<Rightarrow> int \<times> bytes \<Rightarrow> (int \<times> bytes) cres" where
  "sleep_turns [] s = Inr s"
| "sleep_turns (b # bs) s = cbind (sleep_turn b s) (sleep_turns bs)"

text \<open>The number it reports counts the turns, not the seconds: an interrupted sleep counts as a
  whole one.\<close>

lemma sleep_counts_turns:
  "0 \<le> i \<Longrightarrow> i + int (length bs) < 2 ^ 31 \<Longrightarrow> \<exists>out. sleep_turns bs (i, printed) = Inr (i + int (length bs), out)"
proof (induction bs arbitrary: i printed)
  case (Cons b bs)
  have "\<exists>p. sleep_turn b (i, printed) = Inr (i + 1, p)"
    using Cons.prems by (simp add: sleep_turn_def c_int_def)
  then obtain p where "sleep_turn b (i, printed) = Inr (i + 1, p)" ..
  with Cons.IH [of "i + 1" p] Cons.prems show ?case by (simp add: add.assoc)
qed simp

end
