(* ===== verification/Ipc_Start.thy ===== *)
theory Ipc_Start
  imports Pipe_Messages Message_Queue
begin

section \<open>The start of the programs over pipes, queues and mappings\<close>

text \<open>
  What \<^verbatim>\<open>lab2/pipe.c\<close>, \<^verbatim>\<open>nonblockpipe.c\<close>, \<^verbatim>\<open>selectpipe.c\<close>, \<^verbatim>\<open>messagequeue.c\<close> and
  \<^verbatim>\<open>memorymapfile.c\<close> do before their loops.  For the pipes this is the wiring: which process
  holds which end of which pipe open, on which it depends whether a reader sees the end of its
  input and a writer a broken pipe.  The results of the calls are inputs.
\<close>

subsection \<open>Ends of pipes\<close>

datatype pipe_end = Rd nat | Wr nat

text \<open>Process 0 is the parent; a process that has ended has an exit code and what \<^verbatim>\<open>perror\<close> was
  called with.\<close>

record wiring =
  fds :: "nat \<Rightarrow> pipe_end set"
  ended :: "nat \<Rightarrow> (int \<times> bytes) option"

definition no_pipes :: wiring where
  "no_pipes = \<lparr>fds = (\<lambda>_. {}), ended = (\<lambda>_. None)\<rparr>"

definition open_pipe :: "nat \<Rightarrow> wiring \<Rightarrow> wiring" where
  "open_pipe k w = w\<lparr>fds := (fds w)(0 := insert (Rd k) (insert (Wr k) (fds w 0)))\<rparr>"

definition fork_into :: "nat \<Rightarrow> wiring \<Rightarrow> wiring" where
  "fork_into p w = w\<lparr>fds := (fds w)(p := fds w 0)\<rparr>"

definition close_end :: "nat \<Rightarrow> pipe_end \<Rightarrow> wiring \<Rightarrow> wiring" where
  "close_end p e w = w\<lparr>fds := (fds w)(p := fds w p - {e})\<rparr>"

definition die :: "nat \<Rightarrow> bytes \<Rightarrow> wiring \<Rightarrow> wiring" where
  "die p m w = w\<lparr>fds := (fds w)(p := {}), ended := (ended w)(p := Some (1, m))\<rparr>"

lemmas wiring_defs = no_pipes_def open_pipe_def fork_into_def close_end_def die_def

text \<open>Pipe \<open>k\<close> leads from process \<open>p\<close> to process \<open>q\<close>: nobody else holds an end.\<close>

definition leads :: "wiring \<Rightarrow> nat \<Rightarrow> nat \<Rightarrow> nat \<Rightarrow> bool" where
  "leads w k p q \<longleftrightarrow> (\<forall>x. Wr k \<in> fds w x \<longleftrightarrow> x = p) \<and> (\<forall>x. Rd k \<in> fds w x \<longleftrightarrow> x = q)"

text \<open>The ends that a process's loop is called with.\<close>

definition pipe_args :: "side \<Rightarrow> pipe_end \<times> pipe_end" where
  "pipe_args p = (case p of Parent_Side \<Rightarrow> (Rd 1, Wr 0) | Child_Side \<Rightarrow> (Rd 0, Wr 1))"

text \<open>\<^verbatim>\<open>main\<close> of \<^verbatim>\<open>pipe.c\<close>; the second pipe is asked for only if the first was made.\<close>

definition pipe_main :: "bool \<Rightarrow> bool \<Rightarrow> int \<Rightarrow> wiring" where
  "pipe_main ok1 ok2 pid =
     (if \<not> ok1 then die 0 ''pipe failed'' no_pipes
      else if \<not> ok2 then die 0 ''pipe failed'' (open_pipe 0 no_pipes)
      else
        let w = open_pipe 1 (open_pipe 0 no_pipes) in
        if pid = -1 then die 0 ''fork failed'' w
        else
          let w = close_end 0 (Wr 1) (close_end 0 (Rd 0) (fork_into 1 w)) in
          close_end 1 (Rd 1) (close_end 1 (Wr 0) w))"

text \<open>\<^verbatim>\<open>main\<close> of \<^verbatim>\<open>nonblockpipe.c\<close>, with the loop over the two pipes.\<close>

fun nonblock_pipes :: "bool list \<Rightarrow> nat \<Rightarrow> wiring \<Rightarrow> wiring" where
  "nonblock_pipes [] i w = w"
| "nonblock_pipes (ok # oks) i w =
     (if ok then nonblock_pipes oks (Suc i) (open_pipe i w) else die 0 ''pipe call failed'' w)"

definition nonblock_main :: "bool \<Rightarrow> bool \<Rightarrow> int \<Rightarrow> wiring" where
  "nonblock_main ok1 ok2 pid =
     (let w = nonblock_pipes [ok1, ok2] 0 no_pipes in
      if ended w 0 \<noteq> None then w
      else if pid = -1 then die 0 ''fork failed'' w
      else
        let w = close_end 1 (Rd 1) (close_end 1 (Wr 0) (fork_into 1 w)) in
        close_end 0 (Wr 1) (close_end 0 (Rd 0) w))"

text \<open>\<^verbatim>\<open>main\<close> of \<^verbatim>\<open>selectpipe.c\<close>: a pipe and a child in each turn; child \<open>i\<close> is process
  \<open>i + 1\<close> and closes the reading end of its own pipe.\<close>

fun select_children :: "(bool \<times> int) list \<Rightarrow> nat \<Rightarrow> wiring \<Rightarrow> wiring" where
  "select_children [] i w = w"
| "select_children ((ok, pid) # rs) i w =
     (if \<not> ok then die 0 ''pipe call failed'' w
      else if pid = -1 then die 0 ''fork failed'' (open_pipe i w)
      else select_children rs (Suc i) (close_end (Suc i) (Rd i) (fork_into (Suc i) (open_pipe i w))))"

text \<open>The first loop of \<^verbatim>\<open>parent\<close> closes the writing ends.\<close>

definition select_main :: "(bool \<times> int) list \<Rightarrow> wiring" where
  "select_main rs =
     (let w = select_children rs 0 no_pipes in
      if ended w 0 \<noteq> None then w else fold (\<lambda>i. close_end 0 (Wr i)) [0..<3] w)"

text \<open>
  The wiring of the pipes: in \<^verbatim>\<open>pipe.c\<close> and in \<^verbatim>\<open>nonblockpipe.c\<close> each pipe
  leads from one process to the other and nobody else holds an end, and each loop is called
  with ends its process has open, so a reader sees the end of its input exactly when the other
  process leaves.  In \<^verbatim>\<open>selectpipe.c\<close> the writing end of the pipe of child \<open>k\<close> is also held
  by every later child, and so is its reading end.
\<close>

lemma pipes_wired:
  assumes "0 < pid" and "list_all (\<lambda>(ok, p). ok \<and> 0 < p) rs" and "length rs = 3" and "k < 3"
    and "main \<in> {pipe_main, nonblock_main}"
  shows "leads (main True True pid) 0 0 1 \<and> leads (main True True pid) 1 1 0
    \<and> {fst (pipe_args Parent_Side), snd (pipe_args Parent_Side)} = fds (main True True pid) 0
    \<and> {fst (pipe_args Child_Side), snd (pipe_args Child_Side)} = fds (main True True pid) 1
    \<and> (\<forall>x. Wr k \<in> fds (select_main rs) x \<longleftrightarrow> k < x \<and> x \<le> 3)
    \<and> (\<forall>x. Rd k \<in> fds (select_main rs) x \<longleftrightarrow> x = 0 \<or> Suc k < x \<and> x \<le> 3)"
proof -
  have w: "main True True pid = \<lparr>fds = (\<lambda>_. {})(0 := {Rd 1, Wr 0}, 1 := {Rd 0, Wr 1}), ended = (\<lambda>_. None)\<rparr>"
    using assms(1,5) by (auto simp: pipe_main_def nonblock_main_def wiring_defs fun_eq_iff)
  obtain r0 r1 r2 where rs: "rs = [r0, r1, r2]"
    using assms(3) by (auto simp: length_Suc_conv numeral_eq_Suc)
  then have "select_main rs = \<lparr>fds = (\<lambda>_. {})(0 := {Rd 0, Rd 1, Rd 2}, 1 := {Wr 0}, 2 := {Rd 0, Wr 0, Wr 1},
      3 := {Rd 0, Rd 1, Wr 0, Wr 1, Wr 2}), ended = (\<lambda>_. None)\<rparr>"
    using assms(2) by (auto simp: select_main_def wiring_defs upt_rec numeral_eq_Suc fun_eq_iff split: prod.splits)
  moreover have "k = 0 \<or> k = 1 \<or> k = 2" using assms(4) by auto
  ultimately have "(\<forall>x. Wr k \<in> fds (select_main rs) x \<longleftrightarrow> k < x \<and> x \<le> 3)
      \<and> (\<forall>x. Rd k \<in> fds (select_main rs) x \<longleftrightarrow> x = 0 \<or> Suc k < x \<and> x \<le> 3)"
    by auto
  then show ?thesis unfolding w by (simp add: leads_def pipe_args_def insert_commute)
qed

lemma pipes_wired_example:
  "leads (pipe_main True True 7) 0 0 1 \<and> Wr 0 \<in> fds (select_main [(True, 7), (True, 8), (True, 9)]) 3"
  using pipes_wired [of 7 "[(True, 7), (True, 8), (True, 9)]" 0 pipe_main] by simp

text \<open>The first lines of \<^verbatim>\<open>nonblock_rw\<close>: a process makes both of its ends non-blocking, or
  ends, and then the other process is left with a pipe that nobody reads or writes.\<close>

definition nonblock_ends :: "nat \<Rightarrow> bool \<Rightarrow> bool \<Rightarrow> wiring \<Rightarrow> wiring" where
  "nonblock_ends p read_ok write_ok w =
     (if \<not> read_ok then die p ''read pipe call'' w
      else if \<not> write_ok then die p ''write pipe call'' w
      else w)"

lemma nonblock_ends_fail:
  assumes "0 < pid" "\<not> (read_ok \<and> write_ok)"
  shows "let w = nonblock_ends 1 read_ok write_ok (nonblock_main True True pid) in
      ended w 0 = None \<and> (\<exists>m. ended w 1 = Some (1, m)) \<and> (\<forall>x. Rd 0 \<notin> fds w x) \<and> (\<forall>x. Wr 1 \<notin> fds w x)"
  using assms by (auto simp: nonblock_ends_def nonblock_main_def wiring_defs Let_def)

text \<open>A failed call ends the parent with the code 1; children that are running stay.\<close>

lemma start_failures:
  "ended (pipe_main False ok2 pid) 0 = Some (1, ''pipe failed'')"
  "ended (pipe_main True False pid) 0 = Some (1, ''pipe failed'')"
  "ended (pipe_main True True (-1)) 0 = Some (1, ''fork failed'')"
  "ended (nonblock_main True True (-1)) 0 = Some (1, ''fork failed'')"
  "0 < p \<Longrightarrow> ended (select_main [(True, p), (True, -1)]) = (\<lambda>_. None)(0 := Some (1, ''fork failed''))"
  by (simp_all add: pipe_main_def nonblock_main_def select_main_def wiring_defs)

subsection \<open>The queues\<close>

definition mq_usage :: bytes where
  "mq_usage = map char_of [236, 157, 184, 236, 158, 144, 234, 176, 146, 32, 236, 136, 171, 236, 158, 144, 32,
     39, 49, 39, 32, 235, 152, 144, 235, 138, 148, 32, 39, 50, 39, 235, 165, 188, 32,
     236, 158, 133, 235, 160, 165, 237, 149, 180, 236, 163, 188, 236, 132, 184, 236,
     154, 148, 46, 32, 10 :: nat]"

definition mq_waiting :: bytes where
  "mq_waiting = map char_of [236, 131, 129, 235, 140, 128, 235, 176, 169, 32, 236, 151, 176, 234, 178, 176, 32,
     235, 140, 128, 234, 184, 176, 32, 236, 164, 145, 46, 46, 46, 10 :: nat]"

definition mq_begins :: bytes where
  "mq_begins = map char_of [236, 177, 132, 237, 140, 133, 32, 236, 139, 156, 236, 158, 145, 10 :: nat]"

text \<open>A user opens its own queue, creating it, and tries the other's until it is there; the chat
  begins when both succeed.\<close>

datatype mq_boot = Mq_Stopped int bytes | Mq_Waits user | Mq_Chats user

fun mq_wait :: "user \<Rightarrow> bool list \<Rightarrow> mq_boot" where
  "mq_wait u [] = Mq_Waits u"
| "mq_wait u (found # fs) = (if found then Mq_Chats u else mq_wait u fs)"

definition mq_main :: "bytes list \<Rightarrow> bool \<Rightarrow> bool list \<Rightarrow> (mq_boot \<times> bytes) cres" where
  "mq_main argv opened tries =
     (if length argv \<noteq> 2 then Inr (Mq_Stopped 1 mq_usage, [])
      else cbind (which_user (argv ! 1)) (\<lambda>u.
        if \<not> opened then Inr (Mq_Stopped 1 ''mq_open (my)'', [])
        else let r = mq_wait u tries in
          Inr (r, mq_waiting @ (case r of Mq_Chats u \<Rightarrow> mq_begins | _ \<Rightarrow> []))))"

text \<open>The names in the system: whoever comes first waits until the other has created its queue;
  after both have, the next try of each succeeds.  Nobody waits for ever.\<close>

definition try_peer :: "user set \<Rightarrow> user \<Rightarrow> bool" where
  "try_peer created u \<longleftrightarrow> peer u \<in> created"

lemma queues_meet:
  assumes "- (2 ^ 31) \<le> n" "n < 2 ^ 31" "opened" "\<exists>created \<in> set history. {User1, User2} \<subseteq> created"
  shows "\<exists>u. mq_main [c, show_int n] opened (map (\<lambda>created. try_peer created (if n = 1 then User1 else User2)) history)
      = Inr (Mq_Chats u, mq_waiting @ mq_begins) \<and> (u = User1 \<longleftrightarrow> n = 1)"
proof -
  let ?u = "if n = 1 then User1 else User2"
  have wait: "\<exists>b \<in> set fs. b \<Longrightarrow> mq_wait u fs = Mq_Chats u" for u fs
    by (induction fs) auto
  have "\<exists>b \<in> set (map (\<lambda>created. try_peer created ?u) history). b"
    using assms(4) by (cases ?u) (auto simp: try_peer_def)
  from wait [OF this, of ?u] show ?thesis
    using assms(3) atoi_show_int [OF assms(1,2)] by (simp add: mq_main_def which_user_def)
qed

subsection \<open>The mapping\<close>

text \<open>What ends a process of \<^verbatim>\<open>memorymapfile.c\<close> before its loop, for the parent and for the child
  (which exists if \<^verbatim>\<open>fork\<close> succeeds); \<open>None\<close> is the loop.\<close>

definition mmap_start :: "bool \<Rightarrow> bool \<Rightarrow> int \<Rightarrow> (bool \<Rightarrow> bool) \<Rightarrow> bool \<Rightarrow> (int \<times> bytes) option" where
  "mmap_start opened truncated pid mapped child =
     (if \<not> opened then Some (1, ''open'')
      else if \<not> truncated then Some (1, ''ftruncate'')
      else if pid < 0 then Some (1, ''fork'')
      else if \<not> mapped child then Some (1, ''mmap'')
      else None)"

text \<open>The mapping is made after \<^verbatim>\<open>fork\<close>, by each process for itself: if only the parent's fails,
  the child is in its loop and waits for a counter that nobody writes.\<close>

lemma child_without_parent:
  assumes "0 < pid"
  shows "mmap_start True True pid (\<lambda>child. child) False = Some (1, ''mmap'')
    \<and> mmap_start True True pid (\<lambda>child. child) True = None"
  using assms by (simp add: mmap_start_def)

end
