(* ===== verification/Thread_Start.thy ===== *)
theory Thread_Start
  imports Buffer_Monitor Turns
begin

section \<open>The start of the threads\<close>

text \<open>
  \<^verbatim>\<open>main\<close> of \<^verbatim>\<open>lab3/3/boundedbuffer.c\<close>, \<^verbatim>\<open>lab3/2/boundedbuffer.c\<close> and
  \<^verbatim>\<open>lab3/4/hellothread.c\<close>: which threads run and what happens when \<^verbatim>\<open>pthread_create\<close> fails.
  Its results are inputs.  The threads' loops have no end, so \<^verbatim>\<open>main\<close> does not come past its
  first join, and the destruction of the mutex and of the conditions is never reached.
\<close>

subsection \<open>Several producers and consumers\<close>

text \<open>The threads that run, by the numbers they were given, or the exit code and what
  \<^verbatim>\<open>perror\<close> was called with.\<close>

datatype threads_start = Threads_Run "nat list" "nat list" | Threads_Exit int bytes

text \<open>One loop of creations: the numbers given, and whether all succeeded.\<close>

fun create_loop :: "nat \<Rightarrow> bool list \<Rightarrow> nat list \<times> bool" where
  "create_loop i [] = ([], True)"
| "create_loop i (ok # oks) =
     (if ok then (let (ids, all_ok) = create_loop (Suc i) oks in ((i + 1) # ids, all_ok)) else ([], False))"

definition buffer_main :: "(nat \<Rightarrow> bool) \<Rightarrow> (nat \<Rightarrow> bool) \<Rightarrow> threads_start" where
  "buffer_main producer_ok consumer_ok =
     (case create_loop 0 (map producer_ok [0..<NUM_PRODUCERS]) of
        (ps, False) \<Rightarrow> Threads_Exit 1 ''Create producer thread''
      | (ps, True) \<Rightarrow>
          (case create_loop 0 (map consumer_ok [0..<NUM_CONSUMERS]) of
             (cs, False) \<Rightarrow> Threads_Exit 1 ''Create consumer thread''
           | (cs, True) \<Rightarrow> Threads_Run ps cs))"

text \<open>All threads run or the program exits, and those that run have the numbers that the step
  relation \<open>buffer_program\<close> gives them.\<close>

lemma buffer_main_all:
  "buffer_main producer_ok consumer_ok =
     (if \<exists>i < NUM_PRODUCERS. \<not> producer_ok i then Threads_Exit 1 ''Create producer thread''
      else if \<exists>i < NUM_CONSUMERS. \<not> consumer_ok i then Threads_Exit 1 ''Create consumer thread''
      else Threads_Run [1..<NUM_PRODUCERS + 1] [1..<NUM_CONSUMERS + 1])"
proof -
  have two: "(\<exists>i < 2. \<not> f i) \<longleftrightarrow> \<not> f 0 \<or> \<not> f 1" for f :: "nat \<Rightarrow> bool"
    by (auto simp: less_2_cases_iff)
  have "[0..<2] = [0, 1]" "[1..<2 + 1] = [1, 2 :: nat]" by (simp_all add: upt_rec)
  then show ?thesis
    by (simp add: buffer_main_def NUM_PRODUCERS_def NUM_CONSUMERS_def two)
qed

subsection \<open>One producer and one consumer\<close>

text \<open>The buffer of \<^verbatim>\<open>lab3/2\<close> has twenty places as well, all zero: its initialiser names ten.\<close>

definition single_bb_init :: buffer_t where
  "single_bb_init = \<lparr>item = replicate 10 0 @ replicate (BUFFER_SIZE - 10) 0, totalitems = 0, b_in = 0, b_out = 0\<rparr>"

lemma single_bb_init_eq: "single_bb_init = bb_init"
  by (simp add: single_bb_init_def bb_init_def BUFFER_SIZE_def flip: replicate_add)

text \<open>A failure is reported and not acted upon.  The join of a thread that was not created reads
  an identifier that was never written; a producer that runs never returns, so that the join of the
  consumer is not reached.\<close>

definition single_main :: "bool \<Rightarrow> bool \<Rightarrow> bytes list \<times> (nat \<times> nat) cres" where
  "single_main producer_ok consumer_ok =
     ((if producer_ok then [] else [''Create producer thread'']) @ (if consumer_ok then [] else [''Create consumer thread'']),
      if producer_ok then Inr (1, if consumer_ok then 1 else 0) else Inl Uninitialised)"

text \<open>A producer without a consumer fills the buffer and waits.\<close>

lemma producer_alone:
  assumes "reachable mon_start (mon_step 1 0 fail spur) s"
  shows "length (inserted s) \<le> BUFFER_SIZE"
proof -
  have "removed s = []" using assms
  proof (induction rule: reachable.induct)
    case (reach_step s t)
    from reach_step(2) reach_step(3) show ?case
      by (cases rule: mon_step.cases) (auto elim!: producer_step.cases simp: mon_defs)
  qed (simp add: mon_start_def mon_init_def)
  then show ?thesis
    using mon_safe.reachable_inv [OF assms] ring.size_cap [of "bb s"] by (auto simp: data_inv_def)
qed

subsection \<open>Greeting threads\<close>

definition hello_main :: "int \<Rightarrow> threads_start" where
  "hello_main status = (if status \<noteq> 0 then Threads_Exit status ''Create thread failed'' else Threads_Run [0] [1])"

end
