(* ===== verification/Search_Tree.thy ===== *)
theory Search_Tree
  imports C_Prelude "HOL-Library.Tree"
begin

section \<open>The search tree of names\<close>

text \<open>
  \<^verbatim>\<open>lab1/ch6/testtsearch.c\<close>, read as if the parenthesis that line 21 lacks were there: names and
  ages are read into two arrays, put into a tree by \<^verbatim>\<open>tsearch\<close> and printed by
  \<^verbatim>\<open>twalk\<close>.  The shape of the tree is up to the C library: \<^verbatim>\<open>tsearch\<close> is a parameter,
  of which \<open>tsearch_ok\<close> states the documented behaviour.
\<close>

subsection \<open>Nodes and the library's calls\<close>

record node =
  node_name :: bytes
  node_age :: int

definition NODES :: nat where "NODES = 50"

definition txt_sir :: bytes where
  "txt_sir = map char_of [34, 32, 235, 139, 152, 236, 157, 180, 32 :: nat]"

definition txt_node_added :: bytes where
  "txt_node_added = map char_of [237, 138, 184, 235, 166, 172, 236, 151, 144, 32, 236, 182, 148, 234, 176, 128,
     235, 144, 152, 236, 151, 136, 236, 138, 181, 235, 139, 136, 235, 139, 164, 46, 10 :: nat]"

definition txt_node_exists :: bytes where
  "txt_node_exists = map char_of [237, 138, 184, 235, 166, 172, 236, 151, 144, 32, 236, 157, 180, 235, 175, 184, 32,
     236, 161, 180, 236, 158, 172, 237, 149, 169, 235, 139, 136, 235, 139, 164, 46, 10 :: nat]"

definition txt_name :: bytes where
  "txt_name = map char_of [236, 157, 180, 235, 166, 132, 32, 61, 32 :: nat]"

definition txt_age :: bytes where
  "txt_age = map char_of [44, 32, 235, 130, 152, 236, 157, 180, 32, 61, 32 :: nat]"

fun strcmp :: "bytes \<Rightarrow> bytes \<Rightarrow> int" where
  "strcmp [] [] = 0"
| "strcmp [] (d # ds) = -1"
| "strcmp (c # cs) [] = 1"
| "strcmp (c # cs) (d # ds) =
     (if c = d then strcmp cs ds else if (of_char c :: nat) < of_char d then -1 else 1)"

definition node_compare :: "node \<Rightarrow> node \<Rightarrow> int" where
  "node_compare a b = strcmp (node_name a) (node_name b)"

lemma strcmp_eq: "strcmp a b = 0 \<longleftrightarrow> a = b"
  by (induction a b rule: strcmp.induct) auto

lemma strcmp_swap: "strcmp a b = - strcmp b a"
  by (induction a b rule: strcmp.induct) auto

lemma node_compare_eq: "node_compare a b = 0 \<longleftrightarrow> node_name a = node_name b"
  by (simp add: node_compare_def strcmp_eq)

text \<open>\<^verbatim>\<open>tsearch\<close>: whether the key was added, and the tree.  It looks for a node that compares
  equal and adds the key if there is none; the tree may be rebalanced in both cases.\<close>

type_synonym tsearch_fun = "node \<Rightarrow> node tree \<Rightarrow> bool \<times> node tree"

definition ordered :: "node tree \<Rightarrow> bool" where
  "ordered t = bst_wrt (\<lambda>a b. node_compare a b < 0) t"

definition tsearch_ok :: "tsearch_fun \<Rightarrow> bool" where
  "tsearch_ok tsearch \<longleftrightarrow> (\<forall>key t added u. ordered t \<longrightarrow> tsearch key t = (added, u) \<longrightarrow>
     ordered u \<and> (if \<exists>x \<in> set_tree t. node_compare key x = 0 then \<not> added \<and> set_tree u = set_tree t
                  else added \<and> set_tree u = insert key (set_tree t)))"

text \<open>\<^verbatim>\<open>twalk\<close>: the visits, with the depth of the node.\<close>

datatype visit = Preorder | Postorder | Endorder | Leaf_Node

fun twalk :: "'a tree \<Rightarrow> nat \<Rightarrow> ('a \<times> visit \<times> nat) list" where
  "twalk Leaf level = []"
| "twalk (Node l x r) level =
     (if l = Leaf \<and> r = Leaf then [(x, Leaf_Node, level)]
      else (x, Preorder, level) # twalk l (level + 1) @ [(x, Postorder, level)]
        @ twalk r (level + 1) @ [(x, Endorder, level)])"

text \<open>The action: \<^verbatim>\<open>%-20s\<close> fills the name up with blanks.\<close>

definition node_line :: "node \<Rightarrow> bytes" where
  "node_line x = txt_name @ node_name x @ replicate (20 - length (node_name x)) SP
     @ txt_age @ show_int (node_age x) @ [NL]"

definition print_node :: "node \<times> visit \<times> nat \<Rightarrow> bytes" where
  "print_node v = (case v of (x, order, level) \<Rightarrow>
     if order = Preorder \<or> order = Leaf_Node then node_line x else [])"

text \<open>The walk prints each node once, a node before those below it.\<close>

lemma twalk_prints: "concat (map print_node (twalk t level)) = concat (map node_line (preorder t))"
  by (induction t arbitrary: level) (auto simp: print_node_def)

subsection \<open>scanf\<close>

text \<open>\<^verbatim>\<open>%d\<close>: the number, \<open>None\<close> if there is none, and what is left of the input.\<close>

definition scan_number :: "bytes \<Rightarrow> (int option \<times> bytes) cres" where
  "scan_number s =
     (let t = skip_space s;
          neg = (t \<noteq> [] \<and> hd t = CHR ''-'');
          u = (if t \<noteq> [] \<and> hd t \<in> {CHR ''-'', CHR ''+''} then tl t else t);
          ds = takeWhile is_digit u in
      if ds = [] then Inr (None, u)
      else cbind (c_int (if neg then - int (digits_val ds) else int (digits_val ds)))
             (\<lambda>v. Inr (Some v, dropWhile is_digit u)))"

lemma scan_number_shorter: "scan_number s = Inr (v, r) \<Longrightarrow> length r \<le> length s"
proof -
  have drop: "length (dropWhile is_digit t) \<le> length t" for t by (rule length_dropWhile_le)
  have skip: "length (skip_space s) \<le> length s" by (simp add: skip_space_def length_dropWhile_le)
  moreover have "length (tl (skip_space s)) \<le> length (skip_space s)" by simp
  ultimately have tail: "length (tl (skip_space s)) \<le> length s" by (rule order_trans [rotated])
  show "scan_number s = Inr (v, r) \<Longrightarrow> length r \<le> length s"
    unfolding scan_number_def Let_def
    using order_trans [OF drop tail] order_trans [OF drop skip] skip tail
    by (auto split: if_splits simp del: length_tl)
qed

lemma scan_number_shown:
  assumes "- (2 ^ 31) \<le> i" "i < 2 ^ 31"
  shows "scan_number (SP # show_int i @ NL # r) = Inr (Some i, NL # r)"
proof -
  let ?n = "nat \<bar>i\<bar>"
  have all: "\<forall>c \<in> set (show_nat n). is_digit c" for n by (rule show_nat_digits)
  then have d: "takeWhile is_digit (show_nat n @ NL # r) = show_nat n" "dropWhile is_digit (show_nat n @ NL # r) = NL # r" for n
    by (simp_all add: takeWhile_append dropWhile_append is_digit_def)
  obtain c cs where c: "show_nat ?n = c # cs" by (cases "show_nat ?n") auto
  with all [of ?n] have plain: "\<not> is_space c" "c \<noteq> CHR ''-''" "c \<noteq> CHR ''+''" using is_digit_plain by auto
  show ?thesis
  proof (cases "i < 0")
    case True
    then have "?n = nat (- i)" by simp
    with True d [of ?n] assms show ?thesis
      by (simp add: scan_number_def show_int_def skip_space_def is_space_def digits_val_show_nat)
  next
    case False
    then have n: "?n = nat i" by simp
    have "skip_space (SP # show_int i @ NL # r) = show_nat ?n @ NL # r"
      using False n c plain(1) by (simp add: show_int_def skip_space_def is_space_def)
    moreover have "hd (show_nat (nat i)) = c" using c n by simp
    ultimately show ?thesis
      using False d [of "nat i"] assms plain n by (simp add: scan_number_def digits_val_show_nat)
  qed
qed

subsection \<open>The program\<close>

text \<open>Of the array \<^verbatim>\<open>nametable\<close> the bytes in use are counted, of \<^verbatim>\<open>nodetable\<close> the
  nodes.\<close>

record name_tree =
  nt_used :: nat
  nt_i :: nat
  nt_tree :: "node tree"
  nt_out :: bytes

definition nt_start :: name_tree where
  "nt_start = \<lparr>nt_used = 0, nt_i = 0, nt_tree = Leaf, nt_out = []\<rparr>"

definition added_line :: "bytes \<Rightarrow> bool \<Rightarrow> bytes" where
  "added_line name added = [NL, SP, CHR 34] @ name @ txt_sir @ (if added then txt_node_added else txt_node_exists)"

text \<open>One turn of the loop; \<open>None\<close> ends it.  \<^verbatim>\<open>scanf\<close> writes the name and the age before the
  count is tested; an age that is not a number is not written, and the array starts with zeros.\<close>

definition tree_turn :: "tsearch_fun \<Rightarrow> bytes \<Rightarrow> name_tree \<Rightarrow> (name_tree \<times> bytes) option cres" where
  "tree_turn tsearch input s =
     (case scan_word input of
        None \<Rightarrow> Inr None
      | Some (w, r) \<Rightarrow>
          if NODES * 20 \<le> nt_used s + length w then Inl Out_Of_Bounds
          else cbind (scan_number r) (\<lambda>(age, r).
            if nt_i s < NODES then
              let key = \<lparr>node_name = cstr w, node_age = (case age of None \<Rightarrow> 0 | Some v \<Rightarrow> v)\<rparr>;
                  (added, u) = tsearch key (nt_tree s) in
              Inr (Some (\<lparr>nt_used = nt_used s + length (cstr w) + 1, nt_i = nt_i s + 1, nt_tree = u,
                nt_out = nt_out s @ added_line (cstr w) added\<rparr>, r))
            else if age = None then Inr None else Inl Out_Of_Bounds))"

lemma tree_turn_shorter:
  assumes "tree_turn tsearch input s = Inr (Some (t, r))"
  shows "length r < length input"
proof -
  obtain w q where w: "scan_word input = Some (w, q)"
    using assms by (cases "scan_word input") (auto simp: tree_turn_def)
  obtain age q' where n: "scan_number q = Inr (age, q')"
    using assms by (cases "scan_number q") (auto simp: tree_turn_def w split: if_splits)
  then have "q' = r"
    using assms by (auto simp: tree_turn_def w Let_def case_prod_beta split: if_splits)
  with n scan_number_shorter [of q age r] scan_word_shorter [OF w] show ?thesis by simp
qed

function tree_loop :: "tsearch_fun \<Rightarrow> bytes \<Rightarrow> name_tree \<Rightarrow> name_tree cres" where
  "tree_loop tsearch input s =
     (case tree_turn tsearch input s of
        Inl e \<Rightarrow> Inl e
      | Inr None \<Rightarrow> Inr s
      | Inr (Some (t, r)) \<Rightarrow> tree_loop tsearch r t)"
  by pat_completeness auto
termination
  by (relation "measure (\<lambda>(tsearch, input, s). length input)") (auto dest: tree_turn_shorter)

declare tree_loop.simps [simp del]

definition testtsearch :: "tsearch_fun \<Rightarrow> bytes \<Rightarrow> bytes cres" where
  "testtsearch tsearch input =
     cbind (tree_loop tsearch input nt_start) (\<lambda>s. Inr (nt_out s @ concat (map print_node (twalk (nt_tree s) 0))))"

subsection \<open>What is printed\<close>

text \<open>The lines of an input, and the announcements that belong to them: a name is added the
  first time it comes.\<close>

definition entry_line :: "bytes \<times> int \<Rightarrow> bytes" where
  "entry_line e = fst e @ SP # show_int (snd e) @ [NL]"

definition entry_ok :: "bytes \<times> int \<Rightarrow> bool" where
  "entry_ok e \<longleftrightarrow> is_token (fst e) \<and> NUL \<notin> set (fst e) \<and> length (fst e) < 20
     \<and> - (2 ^ 31) \<le> snd e \<and> snd e < 2 ^ 31"

fun announced :: "bytes set \<Rightarrow> (bytes \<times> int) list \<Rightarrow> bytes" where
  "announced seen [] = []"
| "announced seen (e # es) = added_line (fst e) (fst e \<notin> seen) @ announced (insert (fst e) seen) es"

text \<open>After the entries \<open>es\<close>.\<close>

definition holds_entries :: "(bytes \<times> int) list \<Rightarrow> name_tree \<Rightarrow> bool" where
  "holds_entries es s \<longleftrightarrow> ordered (nt_tree s) \<and> nt_i s = length es \<and> nt_used s \<le> 20 * nt_i s
     \<and> set_tree (nt_tree s) = {x. map_of es (node_name x) = Some (node_age x)}"

lemma holds_start: "holds_entries [] nt_start"
  by (simp add: holds_entries_def nt_start_def ordered_def)

lemma scan_line:
  assumes "entry_ok e"
  shows "scan_word ([NL] @ entry_line e @ r) = Some (fst e, SP # show_int (snd e) @ NL # r)"
    "scan_word (entry_line e @ r) = Some (fst e, SP # show_int (snd e) @ NL # r)"
    "scan_number (SP # show_int (snd e) @ NL # r) = Inr (Some (snd e), NL # r)"
proof -
  show "scan_word (entry_line e @ r) = Some (fst e, SP # show_int (snd e) @ NL # r)"
    using assms scan_word_append [of "fst e" SP "show_int (snd e) @ NL # r"]
    by (simp add: entry_line_def entry_ok_def is_space_def)
  then show "scan_word ([NL] @ entry_line e @ r) = Some (fst e, SP # show_int (snd e) @ NL # r)"
    by (simp add: scan_word_skip is_space_def)
  show "scan_number (SP # show_int (snd e) @ NL # r) = Inr (Some (snd e), NL # r)"
    using assms by (intro scan_number_shown) (simp_all add: entry_ok_def)
qed

text \<open>One entry more.\<close>

lemma tree_turn_entry:
  assumes ok: "tsearch_ok tsearch" and "entry_ok e" and s: "holds_entries es s" and "length es < NODES"
    and word: "scan_word input = Some (fst e, SP # show_int (snd e) @ NL # r)"
  shows "\<exists>t. tree_turn tsearch input s = Inr (Some (t, NL # r)) \<and> holds_entries (es @ [e]) t
    \<and> nt_out t = nt_out s @ added_line (fst e) (fst e \<notin> fst ` set es)"
proof -
  define key where "key = \<lparr>node_name = fst e, node_age = snd e\<rparr>"
  obtain added u where u: "tsearch key (nt_tree s) = (added, u)" by (cases "tsearch key (nt_tree s)")
  define t where "t = \<lparr>nt_used = nt_used s + length (fst e) + 1, nt_i = nt_i s + 1, nt_tree = u,
      nt_out = nt_out s @ added_line (fst e) added\<rparr>"
  have e: "length (fst e) < 20" "cstr (fst e) = fst e" using assms(2) by (simp_all add: entry_ok_def cstr_no_nul)
  have "tree_turn tsearch input s = Inr (Some (t, NL # r))"
    using s assms(4) e u word scan_line(3) [OF assms(2)]
    by (simp add: tree_turn_def holds_entries_def t_def key_def)
  moreover have found: "(\<exists>x \<in> set_tree (nt_tree s). node_compare key x = 0) \<longleftrightarrow> fst e \<in> fst ` set es"
  proof -
    have "(\<exists>x. map_of es (node_name x) = Some (node_age x) \<and> node_name x = fst e) \<longleftrightarrow> (\<exists>v. map_of es (fst e) = Some v)"
      by (metis node.select_convs)
    also have "\<dots> \<longleftrightarrow> fst e \<in> fst ` set es" using map_of_eq_None_iff [of es "fst e"] by auto
    finally show ?thesis using s by (auto simp: holds_entries_def node_compare_eq key_def)
  qed
  moreover have "holds_entries (es @ [e]) t"
  proof -
    have m: "map_of (es @ [e]) x = (case map_of es x of None \<Rightarrow> if x = fst e then Some (snd e) else None | Some v \<Rightarrow> Some v)" for x
      by (cases e) (simp add: map_add_def split: option.split)
    have "set_tree u = {x. map_of (es @ [e]) (node_name x) = Some (node_age x)}"
    proof (cases "map_of es (fst e)")
      case (Some v)
      then have "map_of (es @ [e]) = map_of es" by (auto simp: m fun_eq_iff simp del: map_of_append split: option.split)
      moreover have "fst e \<in> fst ` set es" using map_of_SomeD [OF Some] image_eqI [of "fst e" fst "(fst e, v)"] by simp
      ultimately show ?thesis using ok u s found unfolding tsearch_ok_def holds_entries_def by metis
    next
      case None
      then have "map_of (es @ [e]) = (map_of es)(fst e \<mapsto> snd e)" by (auto simp: m fun_eq_iff simp del: map_of_append split: option.split)
      moreover have "set_tree u = insert key (set_tree (nt_tree s))"
        using ok u s found None unfolding tsearch_ok_def holds_entries_def map_of_eq_None_iff by metis
      ultimately show ?thesis using s None by (auto simp: holds_entries_def key_def)
    qed
    moreover have "ordered u" using ok u s unfolding tsearch_ok_def holds_entries_def by blast
    ultimately show ?thesis using s e(1) by (simp add: holds_entries_def t_def)
  qed
  moreover have "added \<longleftrightarrow> fst e \<notin> fst ` set es"
    using ok u s found unfolding tsearch_ok_def holds_entries_def by metis
  ultimately show ?thesis by (auto simp: t_def)
qed

text \<open>All entries, one after another; what is left of the line before is its newline.\<close>

lemma tree_loop_entries:
  assumes ok: "tsearch_ok tsearch"
  shows "list_all entry_ok (e # es) \<Longrightarrow> holds_entries ds s \<Longrightarrow> length ds + length (e # es) \<le> NODES
    \<Longrightarrow> scan_word input = Some (fst e, SP # show_int (snd e) @ NL # concat (map entry_line es) @ r)
    \<Longrightarrow> \<exists>t. tree_loop tsearch input s = tree_loop tsearch (NL # r) t \<and> holds_entries (ds @ e # es) t
      \<and> nt_out t = nt_out s @ announced (fst ` set ds) (e # es)"
proof (induction es arbitrary: e ds s input)
  case Nil
  have "\<exists>t. tree_turn tsearch input s = Inr (Some (t, NL # r)) \<and> holds_entries (ds @ [e]) t
    \<and> nt_out t = nt_out s @ added_line (fst e) (fst e \<notin> fst ` set ds)"
    by (rule tree_turn_entry [OF ok]) (use Nil in simp_all)
  then obtain t where t: "tree_turn tsearch input s = Inr (Some (t, NL # r))" "holds_entries (ds @ [e]) t"
    "nt_out t = nt_out s @ added_line (fst e) (fst e \<notin> fst ` set ds)"
    by blast
  have "tree_loop tsearch input s = tree_loop tsearch (NL # r) t"
    by (subst tree_loop.simps) (simp add: t(1))
  with t(2,3) show ?case by (intro exI [of _ t]) simp
next
  case (Cons e' es)
  let ?r = "concat (map entry_line (e' # es)) @ r"
  have "\<exists>u. tree_turn tsearch input s = Inr (Some (u, NL # ?r)) \<and> holds_entries (ds @ [e]) u
    \<and> nt_out u = nt_out s @ added_line (fst e) (fst e \<notin> fst ` set ds)"
    by (rule tree_turn_entry [OF ok]) (use Cons.prems in simp_all)
  then obtain u where u: "tree_turn tsearch input s = Inr (Some (u, NL # ?r))" "holds_entries (ds @ [e]) u"
    "nt_out u = nt_out s @ added_line (fst e) (fst e \<notin> fst ` set ds)"
    by blast
  have "entry_ok e'" using Cons.prems(1) by simp
  then have w: "scan_word (NL # ?r) = Some (fst e', SP # show_int (snd e') @ NL # concat (map entry_line es) @ r)"
    using scan_line(1) [of e' "concat (map entry_line es) @ r"] by simp
  have "\<exists>t. tree_loop tsearch (NL # ?r) u = tree_loop tsearch (NL # r) t
    \<and> holds_entries ((ds @ [e]) @ e' # es) t \<and> nt_out t = nt_out u @ announced (fst ` set (ds @ [e])) (e' # es)"
    by (rule Cons.IH [OF _ u(2) _ w]) (use Cons.prems(1,3) in simp_all)
  then obtain t where t: "tree_loop tsearch (NL # ?r) u = tree_loop tsearch (NL # r) t"
    "holds_entries (ds @ e # e' # es) t" "nt_out t = nt_out u @ announced (insert (fst e) (fst ` set ds)) (e' # es)"
    by auto
  have "tree_loop tsearch input s = tree_loop tsearch (NL # ?r) u"
    by (subst tree_loop.simps) (simp only: u(1) sum.case option.case prod.case)
  with t show ?case by (intro exI [of _ t]) (simp add: u(3))
qed

lemma tree_loop_all:
  assumes "tsearch_ok tsearch" "list_all entry_ok es" "length es \<le> NODES"
  shows "\<exists>t pre. tree_loop tsearch (concat (map entry_line es) @ r) nt_start = tree_loop tsearch (pre @ r) t
    \<and> set pre \<subseteq> {NL} \<and> holds_entries es t \<and> nt_out t = announced {} es"
proof (cases es)
  case Nil
  have "nt_out nt_start = []" by (simp add: nt_start_def)
  with Nil holds_start show ?thesis by (intro exI [of _ nt_start] exI [of _ "[]"]) simp
next
  case (Cons e es')
  with assms tree_loop_entries [OF assms(1), of e es' "[]" nt_start "concat (map entry_line es) @ r" r]
    scan_line(2) [of e "concat (map entry_line es') @ r"] holds_start
  obtain t where "tree_loop tsearch (concat (map entry_line es) @ r) nt_start = tree_loop tsearch (NL # r) t"
    "holds_entries es t" "nt_out t = nt_out nt_start @ announced {} es"
    by auto
  then show ?thesis by (intro exI [of _ t] exI [of _ "[NL]"]) (simp add: nt_start_def)
qed

lemma ordered_distinct:
  "ordered t \<Longrightarrow> distinct (map node_name (preorder t))"
proof (induction t)
  case (Node l x r)
  have l: "node_compare a x < 0" if "a \<in> set_tree l" for a using Node.prems that by (simp add: ordered_def)
  have r: "node_compare x b < 0" if "b \<in> set_tree r" for b using Node.prems that by (simp add: ordered_def)
  have "node_name a \<noteq> node_name b" if "a \<in> set_tree l" "b \<in> set_tree r" for a b
    using l [OF that(1)] r [OF that(2)] strcmp_swap [of "node_name a" "node_name x"] by (auto simp: node_compare_def)
  moreover have "node_name x \<noteq> node_name a" if "a \<in> set_tree l" for a
    using l [OF that] node_compare_eq [of a x] by auto
  moreover have "node_name x \<noteq> node_name b" if "b \<in> set_tree r" for b
    using r [OF that] node_compare_eq [of x b] by auto
  moreover have "distinct (map node_name (preorder l))" "distinct (map node_name (preorder r))"
    using Node by (simp_all add: ordered_def)
  ultimately show ?case by fastforce
qed simp

lemma tree_loop_end: "set pre \<subseteq> {NL} \<Longrightarrow> tree_loop tsearch pre t = Inr t"
proof -
  assume "set pre \<subseteq> {NL}"
  then have "scan_word pre = None"
    by (induction pre) (auto simp: scan_word_skip is_space_def)
  then show "tree_loop tsearch pre t = Inr t"
    by (subst tree_loop.simps) (simp add: tree_turn_def)
qed

lemma tree_loop_full:
  assumes "entry_ok e" "holds_entries es t" "length es = NODES" "set pre \<subseteq> {NL}"
  shows "tree_loop tsearch (pre @ entry_line e) t = Inl Out_Of_Bounds"
proof -
  have "scan_word (pre @ entry_line e) = Some (fst e, SP # show_int (snd e) @ [NL])"
    using assms(4)
  proof (induction pre)
    case Nil
    then show ?case using scan_line(2) [OF assms(1), of "[]"] by simp
  next
    case (Cons c pre)
    then show ?case by (simp add: scan_word_skip is_space_def)
  qed
  then show ?thesis
    using assms(2,3) scan_line(3) [OF assms(1), of "[]"]
    by (subst tree_loop.simps) (simp add: tree_turn_def holds_entries_def)
qed

text \<open>The announcements by their place in the input.\<close>

lemma announced_nth:
  "announced seen es = concat (map (\<lambda>i. [NL, SP, CHR 34] @ fst (es ! i) @ txt_sir
     @ (if fst (es ! i) \<in> seen \<union> fst ` set (take i es) then txt_node_exists else txt_node_added)) [0..<length es])"
proof (induction es arbitrary: seen)
  case (Cons e es)
  have u: "[0..<length (e # es)] = 0 # map Suc [0..<length es]"
    by (simp add: upt_conv_Cons map_Suc_upt del: upt_Suc)
  have m: "fst ((e # es) ! Suc i) \<in> seen \<union> fst ` set (take (Suc i) (e # es))
      \<longleftrightarrow> fst (es ! i) \<in> insert (fst e) seen \<union> fst ` set (take i es)" for i
    by auto
  show ?case
    unfolding u list.map map_map comp_def m
    by (simp add: added_line_def Cons.IH [of "insert (fst e) seen"])
qed simp

text \<open>
  Property C39.  The output of \<^verbatim>\<open>testtsearch\<close>: for up to fifty lines of a name of fewer than
  twenty bytes and an age, and whatever tree the library builds, each line is announced with its
  name between quotes, as already there if the name stands in a line before and as added
  otherwise; then every name is printed once, filled up with blanks to twenty columns and followed
  by the age it came with first.  A fifty-first line is written outside \<^verbatim>\<open>nodetable\<close>, although the
  loop counts to fifty.
\<close>

theorem testtsearch_prints:
  assumes "tsearch_ok tsearch" and "list_all entry_ok es" and "length es \<le> NODES"
  shows "\<exists>ns :: node list. testtsearch tsearch (concat (map entry_line es)) =
      Inr (concat (map (\<lambda>i. [NL, SP, CHR 34] @ fst (es ! i) @ txt_sir
             @ (if fst (es ! i) \<in> fst ` set (take i es) then txt_node_exists else txt_node_added)) [0..<length es])
         @ concat (map (\<lambda>x. txt_name @ node_name x @ replicate (20 - length (node_name x)) SP
             @ txt_age @ show_int (node_age x) @ [NL]) ns))
    \<and> distinct (map node_name ns) \<and> set ns = {x. map_of es (node_name x) = Some (node_age x)}
    \<and> (length es = NODES \<and> entry_ok e
        \<longrightarrow> testtsearch tsearch (concat (map entry_line (es @ [e]))) = Inl Out_Of_Bounds)"
proof -
  obtain t pre where t: "tree_loop tsearch (concat (map entry_line es) @ []) nt_start = tree_loop tsearch (pre @ []) t"
    "set pre \<subseteq> {NL}" "holds_entries es t" "nt_out t = announced {} es"
    using tree_loop_all [OF assms, of "[]"] by blast
  let ?ns = "preorder (nt_tree t)"
  have "testtsearch tsearch (concat (map entry_line es)) = Inr (announced {} es @ concat (map node_line ?ns))"
    using t tree_loop_end [OF t(2)] by (simp add: testtsearch_def twalk_prints)
  note this [unfolded announced_nth node_line_def Un_empty_left]
  moreover have "distinct (map node_name ?ns)" "set ?ns = {x. map_of es (node_name x) = Some (node_age x)}"
    using t(3) ordered_distinct by (simp_all add: holds_entries_def)
  moreover have "testtsearch tsearch (concat (map entry_line (es @ [e]))) = Inl Out_Of_Bounds"
    if "length es = NODES" "entry_ok e"
  proof -
    obtain u q where u: "tree_loop tsearch (concat (map entry_line es) @ entry_line e) nt_start = tree_loop tsearch (q @ entry_line e) u"
      "set q \<subseteq> {NL}" "holds_entries es u"
      using tree_loop_all [OF assms, of "entry_line e"] by blast
    with tree_loop_full [OF that(2) u(3) that(1) u(2)] show ?thesis by (simp add: testtsearch_def)
  qed
  then have "length es = NODES \<and> entry_ok e
      \<longrightarrow> testtsearch tsearch (concat (map entry_line (es @ [e]))) = Inl Out_Of_Bounds" by blast
  ultimately show ?thesis by (intro exI [of _ ?ns] conjI)
qed

text \<open>A library whose tree is not balanced.\<close>

fun plain_tsearch :: tsearch_fun where
  "plain_tsearch key Leaf = (True, Node Leaf key Leaf)"
| "plain_tsearch key (Node l x r) =
     (if node_compare key x = 0 then (False, Node l x r)
      else if node_compare key x < 0 then (let (a, l) = plain_tsearch key l in (a, Node l x r))
      else (let (a, r) = plain_tsearch key r in (a, Node l x r)))"

lemma plain_tsearch_case:
  "ordered t \<Longrightarrow> plain_tsearch key t = (added, u) \<Longrightarrow>
   ordered u \<and> (added \<longleftrightarrow> \<not> (\<exists>x \<in> set_tree t. node_compare key x = 0))
   \<and> set_tree u = (if added then insert key (set_tree t) else set_tree t)"
proof (induction t arbitrary: added u)
  case (Node l x r)
  have sub: "ordered l" "ordered r" using Node.prems(1) by (simp_all add: ordered_def)
  have l: "node_compare a x < 0" if "a \<in> set_tree l" for a using Node.prems(1) that by (simp add: ordered_def)
  have r: "node_compare x b < 0" if "b \<in> set_tree r" for b using Node.prems(1) that by (simp add: ordered_def)
  have swap: "node_compare x key = - node_compare key x" by (simp add: node_compare_def strcmp_swap [of "node_name x"])
  consider "node_compare key x = 0" | "node_compare key x < 0" | "0 < node_compare key x" by linarith
  then show ?case
  proof cases
    case 1
    with Node.prems show ?thesis by auto
  next
    case 2
    obtain a m where m: "plain_tsearch key l = (a, m)" by (cases "plain_tsearch key l")
    with 2 Node.prems(2) have u: "u = Node m x r" "added = a" by simp_all
    have "node_compare key b \<noteq> 0" if "b \<in> set_tree r" for b
      using r [OF that] 2 swap by (auto simp: node_compare_eq) (simp add: node_compare_def)
    with Node.IH(1) [OF sub(1) m] 2 Node.prems(1) show ?thesis by (auto simp: u ordered_def split: if_splits)
  next
    case 3
    obtain a m where m: "plain_tsearch key r = (a, m)" by (cases "plain_tsearch key r")
    with 3 Node.prems(2) have u: "u = Node l x m" "added = a" by simp_all
    have "node_compare key b \<noteq> 0" if "b \<in> set_tree l" for b
      using l [OF that] 3 by (auto simp: node_compare_eq) (simp add: node_compare_def)
    with Node.IH(2) [OF sub(2) m] 3 Node.prems(1) swap show ?thesis by (auto simp: u ordered_def split: if_splits)
  qed
qed (auto simp: ordered_def)

lemma plain_tsearch_ok: "tsearch_ok plain_tsearch"
  unfolding tsearch_ok_def
proof (intro allI impI)
  fix key t added u
  assume "ordered t" "plain_tsearch key t = (added, u)"
  from plain_tsearch_case [OF this]
  show "ordered u \<and> (if \<exists>x \<in> set_tree t. node_compare key x = 0 then \<not> added \<and> set_tree u = set_tree t
      else added \<and> set_tree u = insert key (set_tree t))"
    by (cases added) simp_all
qed

text \<open>A name that comes twice: the whole output, byte for byte.\<close>

theorem testtsearch_prints_witness:
  "testtsearch plain_tsearch (''kim 20'' @ [NL] @ ''kim 44'' @ [NL]) = Inr (
     [NL, SP, CHR 34] @ ''kim'' @ map char_of [34, 32, 235, 139, 152, 236, 157, 180, 32 :: nat]
     @ map char_of [237, 138, 184, 235, 166, 172, 236, 151, 144, 32, 236, 182, 148, 234, 176, 128,
         235, 144, 152, 236, 151, 136, 236, 138, 181, 235, 139, 136, 235, 139, 164, 46, 10 :: nat]
     @ [NL, SP, CHR 34] @ ''kim'' @ map char_of [34, 32, 235, 139, 152, 236, 157, 180, 32 :: nat]
     @ map char_of [237, 138, 184, 235, 166, 172, 236, 151, 144, 32, 236, 157, 180, 235, 175, 184, 32,
         236, 161, 180, 236, 158, 172, 237, 149, 169, 235, 139, 136, 235, 139, 164, 46, 10 :: nat]
     @ map char_of [236, 157, 180, 235, 166, 132, 32, 61, 32 :: nat] @ ''kim'' @ replicate 17 SP
     @ map char_of [44, 32, 235, 130, 152, 236, 157, 180, 32, 61, 32 :: nat] @ ''20'' @ [NL])"
proof -
  let ?es = "[(''kim'', 20), (''kim'', 44)] :: (bytes \<times> int) list"
  have num: "show_int 20 = ''20''" "show_int 44 = ''44''" by code_simp+
  have ok: "list_all entry_ok ?es" "length ?es \<le> NODES"
    by (simp_all add: entry_ok_def is_token_def is_space_def NODES_def)
  obtain ns :: "node list" where ns: "testtsearch plain_tsearch (concat (map entry_line ?es)) =
      Inr (concat (map (\<lambda>i. [NL, SP, CHR 34] @ fst (?es ! i) @ txt_sir
             @ (if fst (?es ! i) \<in> fst ` set (take i ?es) then txt_node_exists else txt_node_added)) [0..<length ?es])
         @ concat (map (\<lambda>x. txt_name @ node_name x @ replicate (20 - length (node_name x)) SP
             @ txt_age @ show_int (node_age x) @ [NL]) ns))"
    "distinct (map node_name ns)" "set ns = {x. map_of ?es (node_name x) = Some (node_age x)}"
    using testtsearch_prints [OF plain_tsearch_ok ok] by blast
  let ?kim = "\<lparr>node_name = ''kim'', node_age = 20\<rparr>"
  have "set ns = {?kim}" unfolding ns(3) by (auto split: if_splits)
  moreover have "distinct ns" using ns(2) by (simp add: distinct_map)
  ultimately have one: "ns = [?kim]" by (cases ns rule: remdups_adj.cases) auto
  have upt: "[0..<length ?es] = [0, 1]" by (simp add: upt_rec)
  have line: "concat (map entry_line ?es) = ''kim 20'' @ [NL] @ ''kim 44'' @ [NL]"
    by (simp add: entry_line_def num)
  show ?thesis
    using ns(1) unfolding line upt one txt_sir_def txt_node_added_def txt_node_exists_def txt_name_def txt_age_def
    by (simp add: num)
qed

end
