(* ===== verification/Calendar.thy ===== *)
theory Calendar
  imports C_Prelude
begin

section \<open>Broken-down time of the C library\<close>

text \<open>
  \<^verbatim>\<open>gmtime\<close>, \<^verbatim>\<open>localtime\<close>, \<^verbatim>\<open>mktime\<close> and \<^verbatim>\<open>asctime\<close> of
  \<^verbatim>\<open>time.h\<close> as the C and POSIX standards give them, for times from the Epoch on: a time
  is a number of seconds without leap seconds, in the Gregorian calendar.  The local zone is a
  fixed number of seconds east of UTC, without summer time.
\<close>

subsection \<open>Years and months\<close>

record tm =
  tm_sec :: int
  tm_min :: int
  tm_hour :: int
  tm_mday :: int
  tm_mon :: int
  tm_year :: int
  tm_wday :: int
  tm_yday :: int

definition leap :: "int \<Rightarrow> bool" where
  "leap y \<longleftrightarrow> y mod 4 = 0 \<and> (y mod 100 \<noteq> 0 \<or> y mod 400 = 0)"

definition year_days :: "int \<Rightarrow> nat" where
  "year_days y = (if leap y then 366 else 365)"

definition month_days :: "int \<Rightarrow> nat \<Rightarrow> nat" where
  "month_days y m = (if m = 1 then (if leap y then 29 else 28) else if m \<in> {3, 5, 8, 10} then 30 else 31)"

lemma year_days_pos [simp]: "0 < year_days y" "year_days y \<noteq> 0"
  by (simp_all add: year_days_def)

lemma month_days_pos [simp]: "0 < month_days y m" "month_days y m \<noteq> 0"
  by (simp_all add: month_days_def)

text \<open>The year of a day, counting days from the first of January of \<open>y\<close>, and the day in it.\<close>

function split_year :: "int \<Rightarrow> nat \<Rightarrow> int \<times> nat" where
  "split_year y d = (if d < year_days y then (y, d) else split_year (y + 1) (d - year_days y))"
  by pat_completeness auto
termination
  by (relation "measure snd") (simp_all, metis less_le_not_le linorder_le_less_linear diff_less year_days_pos(1) not_less0 gr0I)

function split_month :: "int \<Rightarrow> nat \<Rightarrow> nat \<Rightarrow> nat \<times> nat" where
  "split_month y m d = (if d < month_days y m then (m, d) else split_month y (Suc m) (d - month_days y m))"
  by pat_completeness auto
termination
  by (relation "measure (\<lambda>(y, m, d). d)") (simp_all, metis diff_less month_days_pos(1) not_less0 gr0I)

declare split_year.simps [simp del] split_month.simps [simp del]

definition month_start :: "int \<Rightarrow> nat \<Rightarrow> nat" where
  "month_start y m = sum_list (map (month_days y) [0..<m])"

lemma month_start_Suc [simp]: "month_start y (Suc m) = month_start y m + month_days y m" "month_start y 0 = 0"
  by (simp_all add: month_start_def)

lemma month_start_year: "month_start y 12 = year_days y"
  by (simp add: month_start_def year_days_def month_days_def upt_rec)

lemma split_month_parts:
  "split_month y m d = (m', d') \<Longrightarrow>
   month_start y m' + d' = month_start y m + d \<and> d' < month_days y m' \<and> m \<le> m'"
proof (induction y m d arbitrary: m' d' rule: split_month.induct)
  case (1 y m d)
  show ?case
  proof (cases "d < month_days y m")
    case True
    with "1.prems" show ?thesis by (simp add: split_month.simps [of y m d])
  next
    case False
    with "1.prems" have "split_month y (Suc m) (d - month_days y m) = (m', d')"
      by (simp add: split_month.simps [of y m d])
    with "1.IH" [OF False] False show ?thesis by fastforce
  qed
qed

lemma split_month_sum:
  "d < month_days y (m + k) \<Longrightarrow> split_month y m (sum_list (map (month_days y) [m..<m + k]) + d) = (m + k, d)"
proof (induction k arbitrary: m)
  case 0
  then show ?case by (simp add: split_month.simps)
next
  case (Suc k)
  let ?rest = "sum_list (map (month_days y) [Suc m..<Suc m + k]) + d"
  have "[m..<m + Suc k] = m # [Suc m..<Suc m + k]" by (simp add: upt_conv_Cons del: upt_Suc)
  then have "sum_list (map (month_days y) [m..<m + Suc k]) + d = month_days y m + ?rest"
    by (simp only: list.map sum_list.Cons add.assoc)
  moreover have "split_month y m (month_days y m + ?rest) = split_month y (Suc m) ?rest"
    by (subst split_month.simps) simp
  moreover have "split_month y (Suc m) ?rest = (Suc m + k, d)"
    using Suc.prems by (intro Suc.IH) simp
  ultimately show ?case by (simp only: add_Suc add_Suc_right)
qed

lemma split_month_start: "d < month_days y m \<Longrightarrow> split_month y 0 (month_start y m + d) = (m, d)"
  using split_month_sum [of d y 0 m] by (simp add: month_start_def)

lemma month_start_mono: "m \<le> n \<Longrightarrow> month_start y m \<le> month_start y n"
  by (induction n) (auto simp: le_Suc_eq)

lemma month_in_year:
  assumes "m < 12" "d < month_days y m"
  shows "month_start y m + d < year_days y"
  using month_start_mono [of "Suc m" 12 y] assms by (simp add: month_start_year)

lemma split_month_of_year:
  assumes "split_month y 0 d = (m, e)" "d < year_days y"
  shows "month_start y m + e = d" "e < month_days y m" "m < 12"
proof -
  show "month_start y m + e = d" "e < month_days y m" using split_month_parts [OF assms(1)] by simp_all
  then show "m < 12" using month_start_mono [of 12 m y] assms(2) by (force simp: month_start_year)
qed

text \<open>The days before a year, by the formula that POSIX gives for the seconds since the Epoch;
  it counts what the loop over the years counts.\<close>

definition year_start :: "int \<Rightarrow> int" where
  "year_start y = (y - 1970) * 365 + (y - 1969) div 4 - (y - 1901) div 100 + (y - 1601) div 400"

lemma div_Suc_step:
  fixes a k :: int
  assumes "0 < k"
  shows "(a + 1) div k = a div k + of_bool ((a + 1) mod k = 0)"
proof (cases "a mod k = k - 1")
  case True
  have "a + 1 = (a div k + 1) * k"
    using div_mult_mod_eq [of a k] True by (simp add: algebra_simps)
  then show ?thesis using assms by simp
next
  case False
  with pos_mod_bound [OF assms, of a] have "a mod k + 1 < k" by linarith
  with pos_mod_sign [OF assms, of a] have r: "0 \<le> a mod k" "a mod k + 1 < k" by auto
  have "a + 1 = k * (a div k) + (a mod k + 1)"
    using div_mult_mod_eq [of a k] by (simp add: algebra_simps)
  then have "(a + 1) div k = a div k" "(a + 1) mod k = a mod k + 1"
    using r int_div_pos_eq [of "a + 1" k "a div k" "a mod k + 1"]
      int_mod_pos_eq [of "a + 1" k "a div k" "a mod k + 1"] by auto
  then show ?thesis using r by simp
qed

lemma mod_of_shift:
  "(y - 1968) mod 4 = y mod 4" "(y - 1900) mod 100 = y mod 100" "(y - 1600) mod 400 = y mod 400" for y :: int
  using mod_mult_self1 [of y "- 492" 4] mod_mult_self1 [of y "- 19" 100] mod_mult_self1 [of y "- 4" 400]
  by simp_all

lemma leap_cases:
  "int (year_days y) = 365 + of_bool (y mod 4 = 0) - of_bool (y mod 100 = 0) + of_bool (y mod 400 = 0)"
proof -
  have "y mod 100 = 0 \<Longrightarrow> y mod 4 = 0" "y mod 400 = 0 \<Longrightarrow> y mod 100 = 0"
    using dvd_trans [of 4 100 y] dvd_trans [of 100 400 y] by (simp_all add: dvd_eq_mod_eq_0)
  then show ?thesis
    by (cases "y mod 4 = 0"; cases "y mod 100 = 0"; cases "y mod 400 = 0") (simp_all add: year_days_def leap_def)
qed

lemma sum_shift:
  "p = a + x \<Longrightarrow> q = b + z \<Longrightarrow> r = c + w \<Longrightarrow>
   (y + 1 - 1970) * 365 + p - q + r = (y - 1970) * 365 + a - b + c + (365 + x - z + w)" for a b c p q r x y z w :: int
  by simp

lemma year_start_step: "year_start (y + 1) = year_start y + int (year_days y)"
  unfolding year_start_def leap_cases
proof (rule sum_shift)
  show "(y + 1 - 1969) div 4 = (y - 1969) div 4 + of_bool (y mod 4 = 0)"
    using div_Suc_step [of 4 "y - 1969"] mod_of_shift(1) [of y] by (simp add: add.commute)
  show "(y + 1 - 1901) div 100 = (y - 1901) div 100 + of_bool (y mod 100 = 0)"
    using div_Suc_step [of 100 "y - 1901"] mod_of_shift(2) [of y] by (simp add: add.commute)
  show "(y + 1 - 1601) div 400 = (y - 1601) div 400 + of_bool (y mod 400 = 0)"
    using div_Suc_step [of 400 "y - 1601"] mod_of_shift(3) [of y] by (simp add: add.commute)
qed

lemma year_start_epoch: "year_start 1970 = 0"
  by (simp add: year_start_def)

lemma year_start_mono: "x \<le> y \<Longrightarrow> year_start x \<le> year_start y"
proof (induction "nat (y - x)" arbitrary: y)
  case (Suc n)
  then have "year_start x \<le> year_start (y - 1)" by simp
  then show ?case using year_start_step [of "y - 1"] by simp
qed simp

lemma split_year_parts:
  "split_year y d = (y', d') \<Longrightarrow> year_start y' + int d' = year_start y + int d \<and> d' < year_days y' \<and> y \<le> y'"
proof (induction y d arbitrary: y' d' rule: split_year.induct)
  case (1 y d)
  show ?case
  proof (cases "d < year_days y")
    case True
    with "1.prems" show ?thesis by (simp add: split_year.simps [of y d])
  next
    case False
    with "1.prems" have "split_year (y + 1) (d - year_days y) = (y', d')"
      by (simp add: split_year.simps [of y d])
    with "1.IH" [OF False] False show ?thesis by (fastforce simp: year_start_step)
  qed
qed

lemma split_year_start:
  "d < year_days (y + int k) \<Longrightarrow> split_year y (nat (year_start (y + int k) - year_start y) + d) = (y + int k, d)"
proof (induction k arbitrary: y)
  case 0
  then show ?case by (simp add: split_year.simps)
next
  case (Suc k)
  let ?rest = "nat (year_start (y + 1 + int k) - year_start (y + 1)) + d"
  have "year_start (y + 1) \<le> year_start (y + 1 + int k)" by (rule year_start_mono) simp
  then have "nat (year_start (y + 1 + int k) - year_start y) + d = year_days y + ?rest"
    by (simp add: year_start_step)
  moreover have "split_year y (year_days y + ?rest) = split_year (y + 1) ?rest"
    by (subst split_year.simps) simp
  moreover have "split_year (y + 1) ?rest = (y + 1 + int k, d)"
    using Suc.prems by (intro Suc.IH) (simp add: algebra_simps)
  ultimately show ?case by (simp add: algebra_simps)
qed

text \<open>The year and the day in it are determined by the number of the day.\<close>

lemma split_year_unique:
  assumes "1970 \<le> y" "d < year_days y"
  shows "split_year 1970 (nat (year_start y + int d)) = (y, d)"
proof -
  have "0 \<le> year_start y" using year_start_mono [OF assms(1)] by (simp add: year_start_epoch)
  then have "nat (year_start y + int d) = nat (year_start y) + d" by simp
  with split_year_start [of d 1970 "nat (y - 1970)"] assms show ?thesis
    by (simp add: year_start_epoch)
qed

subsection \<open>gmtime, localtime and mktime\<close>

definition gmtime :: "int \<Rightarrow> tm" where
  "gmtime t =
     (let days = nat (t div 86400); s = t mod 86400;
          (y, yday) = split_year 1970 days; (m, d) = split_month y 0 yday in
      \<lparr>tm_sec = s mod 60, tm_min = s div 60 mod 60, tm_hour = s div 3600, tm_mday = int d + 1,
       tm_mon = int m, tm_year = y - 1900, tm_wday = (4 + int days) mod 7, tm_yday = int yday\<rparr>)"

text \<open>The seconds since the Epoch of broken-down time in UTC; months out of range are carried into
  the year, the other fields only count.\<close>

definition tm_days :: "tm \<Rightarrow> int" where
  "tm_days b = (let y = 1900 + tm_year b + tm_mon b div 12 in
     year_start y + int (month_start y (nat (tm_mon b mod 12))) + tm_mday b - 1)"

definition timegm :: "tm \<Rightarrow> int" where
  "timegm b = ((tm_days b * 24 + tm_hour b) * 60 + tm_min b) * 60 + tm_sec b"

definition localtime :: "int \<Rightarrow> int \<Rightarrow> tm" where
  "localtime zone t = gmtime (t + zone)"

definition mktime :: "int \<Rightarrow> tm \<Rightarrow> int" where
  "mktime zone b = timegm b - zone"

text \<open>Broken-down time as the standard has it: every field in its range, and the days of the week
  and of the year those of the date.\<close>

definition tm_ok :: "tm \<Rightarrow> bool" where
  "tm_ok b \<longleftrightarrow> 0 \<le> tm_sec b \<and> tm_sec b < 60 \<and> 0 \<le> tm_min b \<and> tm_min b < 60
     \<and> 0 \<le> tm_hour b \<and> tm_hour b < 24 \<and> 0 \<le> tm_mon b \<and> tm_mon b < 12 \<and> 70 \<le> tm_year b
     \<and> 1 \<le> tm_mday b \<and> tm_mday b \<le> int (month_days (1900 + tm_year b) (nat (tm_mon b)))
     \<and> tm_yday b = int (month_start (1900 + tm_year b) (nat (tm_mon b))) + tm_mday b - 1
     \<and> tm_wday b = (4 + tm_days b) mod 7"

lemma clock_parts:
  fixes s :: int
  assumes "0 \<le> s" "s < 86400"
  shows "(s div 3600 * 60 + s div 60 mod 60) * 60 + s mod 60 = s"
    and "0 \<le> s div 3600" "s div 3600 < 24"
proof -
  have "s div 3600 = s div 60 div 60" by (simp add: zdiv_zmult2_eq [symmetric])
  then have "s div 3600 * 60 + s div 60 mod 60 = s div 60"
    using div_mult_mod_eq [of "s div 60" 60] by simp
  then show "(s div 3600 * 60 + s div 60 mod 60) * 60 + s mod 60 = s"
    using div_mult_mod_eq [of s 60] by simp
  show "0 \<le> s div 3600" "s div 3600 < 24" using assms by simp_all
qed

lemma clock_unique:
  fixes c m h :: int
  assumes "0 \<le> c" "c < 60" "0 \<le> m" "m < 60"
  shows "((h * 60 + m) * 60 + c) mod 60 = c" "((h * 60 + m) * 60 + c) div 60 mod 60 = m"
    "((h * 60 + m) * 60 + c) div 3600 = h"
proof -
  have minutes: "((h * 60 + m) * 60 + c) div 60 = h * 60 + m"
    by (rule int_div_pos_eq [where r = c]) (use assms in auto)
  show "((h * 60 + m) * 60 + c) mod 60 = c"
    by (rule int_mod_pos_eq [where q = "h * 60 + m"]) (use assms in auto)
  show "((h * 60 + m) * 60 + c) div 60 mod 60 = m"
    unfolding minutes by (rule int_mod_pos_eq [where q = h]) (use assms in auto)
  show "((h * 60 + m) * 60 + c) div 3600 = h"
    by (rule int_div_pos_eq [where r = "m * 60 + c"]) (use assms in auto)
qed

lemma gmtime_parts:
  assumes "0 \<le> t"
  shows "tm_days (gmtime t) = t div 86400" "tm_ok (gmtime t)"
proof -
  define days where "days = nat (t div 86400)"
  obtain y yd where y: "split_year 1970 days = (y, yd)" by (cases "split_year 1970 days")
  obtain m d where m: "split_month y 0 yd = (m, d)" by (cases "split_month y 0 yd")
  note yp = split_year_parts [OF y]
  note mp = split_month_of_year [OF m]
  have days: "int days = t div 86400" using assms by (simp add: days_def)
  have b: "gmtime t = \<lparr>tm_sec = t mod 86400 mod 60, tm_min = t mod 86400 div 60 mod 60,
      tm_hour = t mod 86400 div 3600, tm_mday = int d + 1, tm_mon = int m, tm_year = y - 1900,
      tm_wday = (4 + int days) mod 7, tm_yday = int yd\<rparr>"
    by (simp add: gmtime_def Let_def y m flip: days_def)
  have "month_start y m + d = yd" "d < month_days y m" "m < 12" "1970 \<le> y"
    using yp mp by simp_all
  moreover from this have "tm_days (gmtime t) = int days"
    using yp by (simp add: b tm_days_def year_start_epoch flip: of_nat_add)
  ultimately show "tm_days (gmtime t) = t div 86400" "tm_ok (gmtime t)"
    using clock_parts(2,3) [of "t mod 86400"] by (auto simp: tm_ok_def b days simp flip: of_nat_add)
qed

text \<open>Both conversions undo each other.\<close>

lemma timegm_gmtime:
  assumes "0 \<le> t"
  shows "timegm (gmtime t) = t"
proof -
  have "timegm (gmtime t) = t div 86400 * 86400
      + ((t mod 86400 div 3600 * 60 + t mod 86400 div 60 mod 60) * 60 + t mod 86400 mod 60)"
    by (simp add: timegm_def gmtime_parts(1) [OF assms]) (simp add: gmtime_def Let_def split: prod.splits)
  also have "\<dots> = t div 86400 * 86400 + t mod 86400"
    using clock_parts(1) [of "t mod 86400"] by simp
  finally show ?thesis by simp
qed

lemma mktime_localtime: "0 \<le> t + zone \<Longrightarrow> mktime zone (localtime zone t) = t"
  by (simp add: mktime_def localtime_def timegm_gmtime)

lemma gmtime_timegm:
  assumes "tm_ok b"
  shows "gmtime (timegm b) = b"
proof -
  define y m d where "y = 1900 + tm_year b" and "m = nat (tm_mon b)" and "d = nat (tm_mday b - 1)"
  define s where "s = (tm_hour b * 60 + tm_min b) * 60 + tm_sec b"
  have r: "m < 12" "d < month_days y m" "1970 \<le> y" "0 \<le> s" "s < 86400"
    using assms by (auto simp: tm_ok_def y_def m_def d_def s_def)
  have days: "tm_days b = year_start y + int (month_start y m + d)"
    using assms by (simp add: tm_ok_def tm_days_def y_def m_def d_def Let_def)
  have "0 \<le> tm_days b" using year_start_mono [OF r(3)] by (simp add: days year_start_epoch)
  moreover have "timegm b = 86400 * tm_days b + s" by (simp add: timegm_def s_def)
  ultimately have t: "timegm b div 86400 = tm_days b" "timegm b mod 86400 = s"
    using r(4,5) by simp_all
  have y: "split_year 1970 (nat (tm_days b)) = (y, month_start y m + d)"
    unfolding days using month_in_year [OF r(1,2)] by (rule split_year_unique [OF r(3)])
  have "s mod 60 = tm_sec b" "s div 60 mod 60 = tm_min b" "s div 3600 = tm_hour b"
    using assms unfolding s_def tm_ok_def by (simp_all only: clock_unique)
  then have "gmtime (timegm b) = \<lparr>tm_sec = tm_sec b, tm_min = tm_min b, tm_hour = tm_hour b,
      tm_mday = int d + 1, tm_mon = int m, tm_year = y - 1900,
      tm_wday = (4 + tm_days b) mod 7, tm_yday = int (month_start y m + d)\<rparr>"
    using \<open>0 \<le> tm_days b\<close> by (simp add: gmtime_def t y split_month_start [OF r(2)])
  then show ?thesis
    using assms by (simp add: tm_ok_def y_def m_def d_def)
qed

text \<open>Later times have later years.\<close>

lemma gmtime_year:
  assumes "0 \<le> t" "t < 86400 * year_start y"
  shows "tm_year (gmtime t) + 1900 < y"
proof -
  obtain x d where x: "split_year 1970 (nat (t div 86400)) = (x, d)"
    by (cases "split_year 1970 (nat (t div 86400))")
  have "year_start x + int d = t div 86400"
    using split_year_parts [OF x] assms(1) by (simp add: year_start_epoch)
  moreover have "t div 86400 < year_start y" using assms by simp
  ultimately have "\<not> y \<le> x" using year_start_mono [of y x] by auto
  then show ?thesis by (simp add: gmtime_def Let_def x split: prod.splits)
qed

subsection \<open>asctime\<close>

definition day_name :: "int \<Rightarrow> bytes" where
  "day_name w = [''Sun'', ''Mon'', ''Tue'', ''Wed'', ''Thu'', ''Fri'', ''Sat''] ! nat w"

definition mon_name :: "int \<Rightarrow> bytes" where
  "mon_name m = [''Jan'', ''Feb'', ''Mar'', ''Apr'', ''May'', ''Jun'', ''Jul'', ''Aug'', ''Sep'', ''Oct'',
     ''Nov'', ''Dec''] ! nat m"

text \<open>\<^verbatim>\<open>%3d\<close> and \<^verbatim>\<open>%.2d\<close>.\<close>

definition pad_left :: "nat \<Rightarrow> char \<Rightarrow> bytes \<Rightarrow> bytes" where
  "pad_left n c s = replicate (n - length s) c @ s"

text \<open>The text fits the array of 26 bytes that the standard gives it as long as the year has four
  digits.\<close>

definition asctime :: "tm \<Rightarrow> bytes cres" where
  "asctime b =
     (if tm_year b + 1900 < 10000
      then Inr (day_name (tm_wday b) @ [SP] @ mon_name (tm_mon b) @ pad_left 3 SP (show_int (tm_mday b)) @ [SP]
        @ pad_left 2 (CHR ''0'') (show_int (tm_hour b)) @ '':'' @ pad_left 2 (CHR ''0'') (show_int (tm_min b))
        @ '':'' @ pad_left 2 (CHR ''0'') (show_int (tm_sec b)) @ [SP] @ show_int (tm_year b + 1900) @ [NL])
      else Inl Out_Of_Bounds)"

text \<open>The last second of the year 9999.\<close>

definition LAST_TIME :: int where "LAST_TIME = 253402300799"

lemma asctime_fits: "0 \<le> t \<Longrightarrow> t \<le> LAST_TIME \<Longrightarrow> asctime (gmtime t) \<noteq> Inl e"
  using gmtime_year [of t 10000] by (simp add: asctime_def LAST_TIME_def year_start_def)

end
