(* ===== verification/Clocks.thy ===== *)
theory Clocks
  imports Calendar
begin

section \<open>Programs around the clocks\<close>

text \<open>
  \<^verbatim>\<open>lab1/ch6/testtime.c\<close> and \<^verbatim>\<open>processtime.c\<close>.  What \<^verbatim>\<open>time\<close> and
  \<^verbatim>\<open>times\<close> return is an input, and so are the local zone and the arithmetic of
  \<^verbatim>\<open>double\<close>.
\<close>

subsection \<open>testtime\<close>

text \<open>
  \<^verbatim>\<open>localtime\<close> and \<^verbatim>\<open>gmtime\<close> return pointers to static objects, and the standard lets
  all such calls use one object, as glibc does: \<open>shared\<close> says whether they do.  Object 0 is the
  one of \<^verbatim>\<open>localtime\<close>; \<^verbatim>\<open>ctime(t)\<close> is \<^verbatim>\<open>asctime(localtime(t))\<close>.
\<close>

type_synonym tm_objects = "nat \<Rightarrow> tm"

definition call_localtime :: "int \<Rightarrow> int \<Rightarrow> tm_objects \<Rightarrow> nat \<times> tm_objects" where
  "call_localtime zone t objs = (0, objs(0 := localtime zone t))"

definition call_gmtime :: "bool \<Rightarrow> int \<Rightarrow> tm_objects \<Rightarrow> nat \<times> tm_objects" where
  "call_gmtime shared t objs = (let i = if shared then 0 else 1 in (i, objs(i := gmtime t)))"

definition call_ctime :: "int \<Rightarrow> int \<Rightarrow> tm_objects \<Rightarrow> (bytes \<times> tm_objects) cres" where
  "call_ctime zone t objs =
     (let (p, objs) = call_localtime zone t objs in cbind (asctime (objs p)) (\<lambda>s. Inr (s, objs)))"

definition hms :: "tm \<Rightarrow> bytes" where
  "hms b = show_int (tm_hour b) @ '':'' @ show_int (tm_min b) @ '':'' @ show_int (tm_sec b) @ [NL]"

definition testtime :: "bool \<Rightarrow> int \<Rightarrow> tm_objects \<Rightarrow> int \<Rightarrow> bytes cres" where
  "testtime shared zone objs curtime =
     (let (tp, objs) = call_localtime zone curtime objs in
      cbind (call_ctime zone curtime objs) (\<lambda>(c, objs).
      let out = ''ctime: '' @ c @ ''localtime: '' @ hms (objs tp);
          (gtp, objs) = call_gmtime shared curtime objs;
          out = out @ ''gmtime: '' @ hms (objs gtp) in
      cbind (asctime (objs tp)) (\<lambda>a.
      Inr (out @ ''asctime: '' @ a @ ''mktime: time is '' @ show_int (mktime zone (objs tp)) @ [NL]))))"

lemma show_nat_inj: "show_nat m = show_nat n \<longleftrightarrow> m = n"
  using digits_val_show_nat by metis

lemma show_int_inj: "show_int i = show_int j \<longleftrightarrow> i = j"
proof -
  have "show_nat n \<noteq> CHR ''-'' # r" for n r
    using show_nat_digits [of n] by (auto simp: is_digit_def)
  then show ?thesis
    using show_nat_inj by (auto simp: show_int_def dest: sym)
qed

text \<open>
  Property C40.  The output of \<^verbatim>\<open>testtime\<close>: the first three lines are the local time, twice,
  and the time in UTC.  Where the library's calls share one object, \<^verbatim>\<open>tp\<close> points to the UTC
  time after the call of \<^verbatim>\<open>gmtime\<close>, so that the line \<^verbatim>\<open>asctime\<close> differs from the line
  \<^verbatim>\<open>ctime\<close> and \<^verbatim>\<open>mktime\<close> gives a time that is wrong by the offset of the zone; the time
  comes back only if the objects are different or the zone is UTC.
\<close>

theorem testtime_prints:
  assumes "0 \<le> t" and "0 \<le> t + zone" and "t \<le> LAST_TIME" and "t + zone \<le> LAST_TIME"
  shows "\<exists>lt ut. asctime (localtime zone t) = Inr lt \<and> asctime (gmtime t) = Inr ut
    \<and> testtime shared zone objs t
        = Inr (''ctime: '' @ lt @ ''localtime: '' @ hms (localtime zone t) @ ''gmtime: '' @ hms (gmtime t)
            @ ''asctime: '' @ (if shared then ut else lt)
            @ ''mktime: time is '' @ show_int (if shared then t - zone else t) @ [NL])
    \<and> (show_int (if shared then t - zone else t) = show_int t \<longleftrightarrow> (shared \<longrightarrow> zone = 0))
    \<and> tm_ok (localtime zone t) \<and> tm_ok (gmtime t)
    \<and> timegm (localtime zone t) = t + zone \<and> timegm (gmtime t) = t"
proof -
  obtain lt ut where "asctime (localtime zone t) = Inr lt" "asctime (gmtime t) = Inr ut"
    using asctime_fits [OF assms(1,3)] asctime_fits [OF assms(2,4)]
    by (metis localtime_def old.sum.exhaust)
  moreover have "mktime zone (localtime zone t) = t" "mktime zone (gmtime t) = t - zone"
    using mktime_localtime [OF assms(2)] timegm_gmtime [OF assms(1)] by (simp_all add: mktime_def)
  ultimately show ?thesis
    using gmtime_parts(2) timegm_gmtime assms(1,2)
    by (auto simp: testtime_def call_localtime_def call_gmtime_def call_ctime_def Let_def localtime_def show_int_inj)
qed

lemma november_2023:
  "gmtime 1700000000 = \<lparr>tm_sec = 20, tm_min = 13, tm_hour = 22, tm_mday = 14, tm_mon = 10, tm_year = 123,
     tm_wday = 2, tm_yday = 317\<rparr>"
proof -
  let ?b = "\<lparr>tm_sec = 20, tm_min = 13, tm_hour = 22, tm_mday = 14, tm_mon = 10, tm_year = 123,
     tm_wday = 2, tm_yday = 317\<rparr>"
  have "month_start 2023 10 = 304"
    by (simp add: month_start_def month_days_def leap_def upt_rec)
  then have "tm_ok ?b" "timegm ?b = 1700000000"
    by (simp_all add: tm_ok_def tm_days_def timegm_def Let_def year_start_def month_days_def)
  then show ?thesis using gmtime_timegm [of ?b] by simp
qed

text \<open>In Seoul, nine hours east of UTC, with glibc.\<close>

theorem testtime_prints_witness:
  "\<exists>out. testtime True 32400 (\<lambda>_. gmtime 0) 1700000000
     = Inr (out @ ''gmtime: 22:13:20'' @ [NL] @ ''asctime: Tue Nov 14 22:13:20 2023'' @ [NL]
         @ ''mktime: time is '' @ show_int 1699967600 @ [NL])"
proof -
  have digits: "digit 0 = CHR ''0''" "digit (Suc 0) = CHR ''1''" "digit 2 = CHR ''2''" "digit 3 = CHR ''3''" "digit 4 = CHR ''4''"
    by code_simp+
  have num: "show_int 22 = ''22''" "show_int 13 = ''13''" "show_int 20 = ''20''" "show_int 14 = ''14''"
    "show_int 2023 = ''2023''"
    by (simp_all add: show_int_def show_nat.simps digits)
  have utc: "asctime (gmtime 1700000000) = Inr (''Tue Nov 14 22:13:20 2023'' @ [NL])"
    by (simp add: november_2023 asctime_def num day_name_def mon_name_def pad_left_def)
  have h: "hms (gmtime 1700000000) = ''22:13:20'' @ [NL]" by (simp add: november_2023 hms_def num)
  show ?thesis
    using testtime_prints [of 1700000000 32400 True "\<lambda>_. gmtime 0"] by (auto simp: LAST_TIME_def utc h)
qed

subsection \<open>processtime\<close>

text \<open>The conversions and the division of \<^verbatim>\<open>double\<close>, and what a call of \<^verbatim>\<open>times\<close>
  delivers: the clock, -1 if it failed, and the ticks of the process in its own code and in the
  system.\<close>

record 'd cpu_math =
  d_of_long :: "int \<Rightarrow> 'd"
  d_hundred :: 'd
  d_quot :: "'d \<Rightarrow> 'd \<Rightarrow> 'd"
  d_six :: "'d \<Rightarrow> bytes" \<comment> \<open>\<^verbatim>\<open>%f\<close>\<close>

record cpu_times =
  t_clock :: int
  tms_utime :: int
  tms_stime :: int

definition c_long :: "int \<Rightarrow> int cres" where
  "c_long v = (if - (2 ^ 63) \<le> v \<and> v < 2 ^ 63 then Inr v else Inl Signed_Overflow)"

definition txt_no_start :: bytes where "txt_no_start = ''Failed to get start time''"

definition times_lines :: "cpu_times \<Rightarrow> bytes" where
  "times_lines m = ''Fraction of CPU time used is '' @ show_int (t_clock m) @ [NL]
     @ ''CPU time spent executing process is '' @ show_int (tms_utime m) @ [NL]
     @ ''CPU time spent in the system is '' @ show_int (tms_stime m) @ [NL]"

text \<open>The loop that takes the time: its sum is never read.\<close>

fun burn :: "nat \<Rightarrow> int \<Rightarrow> int \<Rightarrow> int \<Rightarrow> int" where
  "burn 0 a b c = c"
| "burn (Suc n) a b c = burn n a b (a + b)"

lemma burn_sum: "0 < n \<Longrightarrow> burn n a b c = a + b"
proof (induction n arbitrary: c)
  case (Suc n)
  then show ?case by (cases n) simp_all
qed simp

definition cticks :: "cpu_times \<Rightarrow> cpu_times \<Rightarrow> int cres" where
  "cticks tmstart tmend =
     cbind (c_long (tms_utime tmend + tms_stime tmend)) (\<lambda>v.
     cbind (c_long (v - tms_utime tmstart)) (\<lambda>v. c_long (v - tms_stime tmstart)))"

text \<open>Standard output, what \<^verbatim>\<open>perror\<close> was called with, and the exit code.\<close>

definition processtime :: "'d cpu_math \<Rightarrow> cpu_times \<Rightarrow> cpu_times \<Rightarrow> (bytes \<times> bytes list \<times> int) cres" where
  "processtime f tmstart tmend =
     (if t_clock tmstart = -1 then Inr ([], [txt_no_start], 1)
      else if t_clock tmend = -1 then Inr (times_lines tmstart, [txt_no_start], 1)
      else
        cbind (cticks tmstart tmend) (\<lambda>n.
        cbind (c_long (t_clock tmend - t_clock tmstart)) (\<lambda>passed.
        Inr (times_lines tmstart @ times_lines tmend
           @ ''Total CPU time is '' @ d_six f (d_quot f (d_of_long f n) (d_hundred f)) @ '' seconds.'' @ [NL]
           @ ''Fraction of CPU time used is '' @ d_six f (d_quot f (d_of_long f n) (d_of_long f passed)) @ [NL], [], 0))))"

text \<open>With clocks that do not run backwards nothing overflows: the total is the time of the
  process between the calls, in its own code and in the system, taken to be counted in hundredths
  of a second whatever \<^verbatim>\<open>sysconf(_SC_CLK_TCK)\<close> is.  Two calls in one tick divide by zero.\<close>

lemma processtime_prints:
  assumes "0 \<le> tms_utime a" "tms_utime a \<le> tms_utime b" "0 \<le> tms_stime a" "tms_stime a \<le> tms_stime b"
    and "tms_utime b < 2 ^ 62" "tms_stime b < 2 ^ 62"
    and "0 \<le> t_clock a" "t_clock a \<le> t_clock b" "t_clock b < 2 ^ 63"
  shows "\<exists>n. n = (tms_utime b - tms_utime a) + (tms_stime b - tms_stime a) \<and> 0 \<le> n
    \<and> processtime f a b = Inr (times_lines a @ times_lines b
           @ ''Total CPU time is '' @ d_six f (d_quot f (d_of_long f n) (d_hundred f)) @ '' seconds.'' @ [NL]
           @ ''Fraction of CPU time used is '' @ d_six f (d_quot f (d_of_long f n) (d_of_long f (t_clock b - t_clock a)))
           @ [NL], [], 0)"
proof -
  have "cticks a b = Inr ((tms_utime b - tms_utime a) + (tms_stime b - tms_stime a))"
    using assms(1-6) by (simp add: cticks_def c_long_def)
  moreover have "c_long (t_clock b - t_clock a) = Inr (t_clock b - t_clock a)"
    using assms(7-9) by (simp add: c_long_def)
  ultimately show ?thesis using assms(1-4,7,8) by (simp add: processtime_def)
qed

end
