(* ===== verification/Rust_Text.thy ===== *)
theory Rust_Text
  imports C_Prelude
begin

section \<open>Text in the Rust programs\<close>

text \<open>
  What the two Rust programs under \<^verbatim>\<open>lab2\<close> share.  A \<^verbatim>\<open>String\<close> is a list of Unicode
  scalar values, and the standard input is taken to be valid UTF-8, so that \<^verbatim>\<open>read_line\<close>
  succeeds.
\<close>

subsection \<open>Strings and lines\<close>

type_synonym ustring = "nat list"

text \<open>The property \<^verbatim>\<open>White_Space\<close>, by which \<^verbatim>\<open>trim\<close> and \<^verbatim>\<open>split_whitespace\<close> go.\<close>

definition white :: "nat \<Rightarrow> bool" where
  "white c \<longleftrightarrow> c \<in> {9..13} \<or> c \<in> {32, 133, 160, 5760} \<or> c \<in> {8192..8202} \<or> c \<in> {8232, 8233, 8239, 8287, 12288}"

definition trim :: "ustring \<Rightarrow> ustring" where
  "trim s = rev (dropWhile white (rev (dropWhile white s)))"

text \<open>\<^verbatim>\<open>read_line\<close>: up to and with the newline, nothing at the end of the input.\<close>

definition first_line :: "ustring \<Rightarrow> ustring" where
  "first_line s = takeWhile (\<lambda>c. c \<noteq> 10) s @ (if 10 \<in> set s then [10] else [])"

definition other_lines :: "ustring \<Rightarrow> ustring" where
  "other_lines s = drop (length (first_line s)) s"

definition read_string :: "ustring \<Rightarrow> ustring \<times> ustring" where
  "read_string input = (trim (first_line input), other_lines input)"

text \<open>A string that a line carries over: not empty at its ends, on one line.\<close>

definition plain_line :: "ustring \<Rightarrow> bool" where
  "plain_line s \<longleftrightarrow> 10 \<notin> set s \<and> (s \<noteq> [] \<longrightarrow> \<not> white (hd s) \<and> \<not> white (last s))"

lemma white_newline [simp]: "white 10"
  by (simp add: white_def)

lemma trim_line:
  assumes "plain_line s"
  shows "trim (s @ [10]) = s"
proof (cases s rule: rev_cases)
  case Nil
  then show ?thesis by (simp add: trim_def)
next
  case (snoc r c)
  then have "\<not> white c" "dropWhile white (s @ [10]) = s @ [10]"
    using assms by (cases r; simp add: plain_line_def)+
  then show ?thesis using snoc by (simp add: trim_def)
qed

lemma read_string_line:
  assumes "plain_line s"
  shows "read_string (s @ 10 # r) = (s, r)"
proof -
  have "takeWhile (\<lambda>c. c \<noteq> 10) (s @ 10 # r) = s"
    using assms by (subst takeWhile_append2) (auto simp: plain_line_def)
  then have "first_line (s @ 10 # r) = s @ [10]" by (simp add: first_line_def)
  with trim_line [OF assms] show ?thesis by (simp add: read_string_def other_lines_def)
qed

lemma read_string_end: "read_string [] = ([], [])"
  by (simp add: read_string_def first_line_def other_lines_def trim_def)

lemma other_lines_shorter: "s \<noteq> [] \<Longrightarrow> length (other_lines s) < length s"
  by (cases s) (auto simp: other_lines_def first_line_def)

lemma other_lines_le: "length (other_lines s) \<le> length s"
  by (simp add: other_lines_def)

end
