(* ===== verification/Phone_Book.thy ===== *)
theory Phone_Book
  imports Rust_Text "HOL-Library.AList" "HOL-Library.Multiset"
begin

section \<open>The phone book\<close>

text \<open>
  The Rust program \<^verbatim>\<open>lab2/number\<close>.  A \<^verbatim>\<open>HashMap\<close> is the list of its entries; the order in which it is walked is arbitrary, a
  parameter that may depend on all entries.
\<close>

subsection \<open>The texts\<close>

definition menu_title :: ustring where
  "menu_title = [45, 45, 45, 32, 51204, 54868, 48264, 54840, 48512, 32, 45, 45, 45, 10]"

definition menu_1 :: ustring where
  "menu_1 = [49, 58, 32, 52628, 44032, 47, 49688, 51221, 10]"

definition menu_2 :: ustring where
  "menu_2 = [50, 58, 32, 44160, 49353, 10]"

definition menu_3 :: ustring where
  "menu_3 = [51, 58, 32, 51204, 52404, 32, 48372, 44592, 10]"

definition menu_4 :: ustring where
  "menu_4 = [52, 58, 32, 51333, 47308, 10]"

definition menu_end :: ustring where
  "menu_end = [45, 45, 45, 45, 45, 45, 45, 45, 45, 45, 45, 45, 45, 45, 45, 45, 45, 10]"

definition menu_ask :: ustring where
  "menu_ask = [47700, 45684, 47484, 32, 49440, 53469, 54616, 49464, 50836, 58, 10]"

definition ask_name :: ustring where
  "ask_name = [51060, 47492, 51012, 32, 51077, 47141, 54616, 49464, 50836, 58, 10]"

definition ask_phone :: ustring where
  "ask_phone = [51204, 54868, 48264, 54840, 47484, 32, 51077, 47141, 54616, 49464, 50836, 58, 10]"

definition saved_tail :: ustring where
  "saved_tail = [39, 51032, 32, 51221, 48372, 44032, 32, 51200, 51109, 46104, 50632, 49845, 45768,
     45796, 46, 10]"

definition ask_search :: ustring where
  "ask_search = [44160, 49353, 54624, 32, 51060, 47492, 51012, 32, 51077, 47141, 54616, 49464, 50836,
     58, 10]"

definition entry_name :: ustring where
  "entry_name = [51060, 47492, 58, 32]"

definition entry_phone :: ustring where
  "entry_phone = [44, 32, 51204, 54868, 48264, 54840, 58, 32]"

definition not_found_tail :: ustring where
  "not_found_tail = [39, 51032, 32, 51221, 48372, 47484, 32, 52286, 51012, 32, 49688, 32, 50630, 49845,
     45768, 45796, 46, 10]"

definition book_empty :: ustring where
  "book_empty = [51204, 54868, 48264, 54840, 48512, 44032, 32, 48708, 50612, 51080, 49845, 45768, 45796,
     46, 10]"

definition list_title :: ustring where
  "list_title = [10, 45, 45, 45, 32, 51204, 52404, 32, 47785, 47197, 32, 45, 45, 45, 10]"

definition book_ends :: ustring where
  "book_ends = [54532, 47196, 44536, 47016, 51012, 32, 51333, 47308, 54633, 45768, 45796, 46, 10]"

definition bad_choice :: ustring where
  "bad_choice = [51096, 47803, 46108, 32, 51077, 47141, 51077, 45768, 45796, 46, 32, 49, 126, 52, 32,
     49324, 51060, 51032, 32, 49707, 51088, 47484, 32, 51077, 47141, 54616, 49464, 50836,
     46, 10]"

definition menu :: ustring where
  "menu = menu_title @ menu_1 @ menu_2 @ menu_3 @ menu_4 @ menu_end @ menu_ask"

subsection \<open>The loop\<close>

record phone_book =
  pb_book :: "(ustring \<times> ustring) list"
  pb_in :: ustring
  pb_out :: ustring

definition pb_start :: "ustring \<Rightarrow> phone_book" where
  "pb_start input = \<lparr>pb_book = [], pb_in = input, pb_out = []\<rparr>"

definition pb_print :: "ustring \<Rightarrow> phone_book \<Rightarrow> phone_book" where
  "pb_print t s = s\<lparr>pb_out := pb_out s @ t\<rparr>"

definition pb_read :: "phone_book \<Rightarrow> ustring \<times> phone_book" where
  "pb_read s = (let (w, r) = read_string (pb_in s) in (w, s\<lparr>pb_in := r\<rparr>))"

definition pb_line :: "ustring \<times> ustring \<Rightarrow> ustring" where
  "pb_line e = entry_name @ fst e @ entry_phone @ snd e @ [10]"

text \<open>The arms of the \<^verbatim>\<open>match\<close>.\<close>

definition pb_add :: "phone_book \<Rightarrow> phone_book" where
  "pb_add s =
     (let (name, s) = pb_read (pb_print ask_name s); (phone, s) = pb_read (pb_print ask_phone s) in
      pb_print (39 # name @ saved_tail) (s\<lparr>pb_book := AList.update name phone (pb_book s)\<rparr>))"

definition pb_search :: "phone_book \<Rightarrow> phone_book" where
  "pb_search s =
     (let (name, s) = pb_read (pb_print ask_search s) in
      case map_of (pb_book s) name of
        Some phone \<Rightarrow> pb_print (pb_line (name, phone)) s
      | None \<Rightarrow> pb_print (39 # name @ not_found_tail) s)"

definition pb_list :: "((ustring \<times> ustring) list \<Rightarrow> (ustring \<times> ustring) list) \<Rightarrow> phone_book \<Rightarrow> phone_book" where
  "pb_list order s =
     (if pb_book s = [] then pb_print book_empty s
      else pb_print (list_title @ concat (map pb_line (order (pb_book s)))) s)"

text \<open>One turn, and whether the loop goes on.\<close>

definition pb_turn :: "((ustring \<times> ustring) list \<Rightarrow> (ustring \<times> ustring) list) \<Rightarrow> phone_book \<Rightarrow> bool \<times> phone_book" where
  "pb_turn order s =
     (let (choice, s) = pb_read (pb_print menu s) in
      if choice = [49] then (True, pb_add s)
      else if choice = [50] then (True, pb_search s)
      else if choice = [51] then (True, pb_list order s)
      else if choice = [52] then (False, pb_print book_ends s)
      else (True, pb_print bad_choice s))"

text \<open>At most \<open>n\<close> turns; \<open>None\<close> if the loop has not ended by then.\<close>

fun pb_loop :: "((ustring \<times> ustring) list \<Rightarrow> (ustring \<times> ustring) list) \<Rightarrow> nat \<Rightarrow> phone_book \<Rightarrow> phone_book option" where
  "pb_loop order 0 s = None"
| "pb_loop order (Suc n) s =
     (let (go, t) = pb_turn order s in if go then pb_loop order n t else Some t)"

subsection \<open>What the book holds\<close>

text \<open>What a user can do in a turn, what is typed for it, and what it promises, over a map from
  names to numbers.\<close>

datatype pb_request = Add ustring ustring | Search ustring | List_All | Other ustring

fun request_text :: "pb_request \<Rightarrow> ustring" where
  "request_text (Add name phone) = [49, 10] @ name @ [10] @ phone @ [10]"
| "request_text (Search name) = [50, 10] @ name @ [10]"
| "request_text List_All = [51, 10]"
| "request_text (Other w) = w @ [10]"

fun request_ok :: "pb_request \<Rightarrow> bool" where
  "request_ok (Add name phone) = (plain_line name \<and> plain_line phone)"
| "request_ok (Search name) = plain_line name"
| "request_ok List_All = True"
| "request_ok (Other w) = (plain_line w \<and> w \<notin> {[49], [50], [51], [52]})"

fun book_after :: "pb_request \<Rightarrow> (ustring \<rightharpoonup> ustring) \<Rightarrow> (ustring \<rightharpoonup> ustring)" where
  "book_after (Add name phone) m = m(name \<mapsto> phone)"
| "book_after r m = m"

fun answered :: "pb_request \<Rightarrow> (ustring \<rightharpoonup> ustring) \<Rightarrow> ustring \<Rightarrow> bool" where
  "answered (Add name phone) m out \<longleftrightarrow> out = ask_name @ ask_phone @ 39 # name @ saved_tail"
| "answered (Search name) m out \<longleftrightarrow> out = ask_search
     @ (case m name of Some phone \<Rightarrow> pb_line (name, phone) | None \<Rightarrow> 39 # name @ not_found_tail)"
| "answered List_All m out \<longleftrightarrow> (if m = Map.empty then out = book_empty
     else \<exists>es. distinct (map fst es) \<and> map_of es = m \<and> out = list_title @ concat (map pb_line es))"
| "answered (Other w) m out \<longleftrightarrow> out = bad_choice"

definition book_ok :: "phone_book \<Rightarrow> bool" where
  "book_ok s \<longleftrightarrow> distinct (map fst (pb_book s))"

lemma map_of_mset_eq:
  assumes "mset xs = mset ys" "distinct (map fst ys)"
  shows "map_of xs = map_of ys" "distinct (map fst xs)"
proof -
  have "mset (map fst xs) = mset (map fst ys)" using assms(1) by simp
  then show d: "distinct (map fst xs)" using assms(2) mset_eq_imp_distinct_iff by blast
  have "set xs = set ys" using assms(1) mset_eq_setD by blast
  then show "map_of xs = map_of ys" using d assms(2) by (simp add: map_of_inject_set)
qed

lemma choice_plain: "plain_line [49]" "plain_line [50]" "plain_line [51]" "plain_line [52]"
  by (simp_all add: plain_line_def white_def)

lemmas pb_defs = pb_turn_def pb_add_def pb_search_def pb_list_def pb_read_def pb_print_def Let_def

lemma read_choice:
  "read_string (49 # 10 # r) = ([49], r)" "read_string (50 # 10 # r) = ([50], r)"
  "read_string (51 # 10 # r) = ([51], r)" "read_string (52 # 10 # r) = ([52], r)"
  using choice_plain [THEN read_string_line] by simp_all

text \<open>One request: the book is the promised map, and the answer the promised one, in whatever order
  the entries are walked.\<close>

lemma pb_turn_request:
  assumes order: "\<forall>es. mset (order es) = mset es" and "request_ok q" and "book_ok s"
    and "pb_in s = request_text q @ r"
  shows "\<exists>t out. pb_turn order s = (True, t) \<and> book_ok t \<and> pb_in t = r
    \<and> map_of (pb_book t) = book_after q (map_of (pb_book s))
    \<and> pb_out t = pb_out s @ menu @ out \<and> answered q (map_of (pb_book s)) out"
proof (cases q)
  case (Add name phone)
  with assms have "read_string (name @ 10 # phone @ 10 # r) = (name, phone @ 10 # r)"
    "read_string (phone @ 10 # r) = (phone, r)"
    by (simp_all add: read_string_line)
  with Add assms(3,4) show ?thesis
    by (simp add: pb_defs read_choice book_ok_def update_conv' distinct_update)
next
  case (Search name)
  with assms have "read_string (name @ 10 # r) = (name, r)" by (simp add: read_string_line)
  with Search assms(3,4) show ?thesis
    by (cases "map_of (pb_book s) name") (simp_all add: pb_defs read_choice book_ok_def)
next
  case List_All
  note es = map_of_mset_eq [OF order [rule_format], of "pb_book s"]
  show ?thesis
  proof (cases "pb_book s = []")
    case True
    with List_All assms(3,4) show ?thesis by (simp add: pb_defs read_choice book_ok_def)
  next
    case False
    with List_All assms(3,4) es show ?thesis
      by (auto simp: pb_defs read_choice book_ok_def intro!: exI [of _ "order (pb_book s)"])
  qed
next
  case (Other w)
  with assms show ?thesis by (simp add: pb_defs read_string_line book_ok_def)
qed

text \<open>The loop ends with the choice 4 and only then; at the end of the input \<^verbatim>\<open>read_line\<close> delivers
  the empty string at once, and the menu is printed for ever.\<close>

lemma pb_turn_end: "pb_in s = [] \<Longrightarrow> \<exists>t. pb_turn order s = (True, t) \<and> pb_in t = []"
  by (simp add: pb_defs read_string_end)

lemma pb_loop_end: "pb_in s = [] \<Longrightarrow> pb_loop order n s = None"
proof (induction n arbitrary: s)
  case (Suc n)
  obtain t where "pb_turn order s = (True, t)" "pb_in t = []" using pb_turn_end [OF Suc.prems] by blast
  with Suc.IH show ?case by simp
qed simp

lemma pb_turn_shorter:
  assumes "pb_turn order s = (True, t)" "pb_in s \<noteq> []"
  shows "length (pb_in t) < length (pb_in s)"
proof -
  have "length (other_lines (pb_in s)) < length (pb_in s)" using assms(2) by (rule other_lines_shorter)
  moreover have "length (pb_in t) \<le> length (other_lines (pb_in s))"
    using assms(1) other_lines_le order_trans [OF other_lines_le other_lines_le]
    by (auto simp: pb_defs read_string_def split: if_splits option.splits)
  ultimately show ?thesis by simp
qed

text \<open>So one turn more than there are characters decides whether it ends.\<close>

lemma pb_loop_decided:
  "length (pb_in s) < n \<Longrightarrow> pb_loop order n s = pb_loop order (Suc (length (pb_in s))) s"
proof (induction "length (pb_in s)" arbitrary: s n rule: less_induct)
  case less
  obtain k where n: "n = Suc k" "length (pb_in s) \<le> k" using less.prems by (cases n) auto
  obtain go t where t: "pb_turn order s = (go, t)" by (cases "pb_turn order s")
  show ?case
  proof (cases "pb_in s = []")
    case True
    then show ?thesis by (simp only: pb_loop_end)
  next
    case False
    show ?thesis
    proof (cases go)
      case True
      with t False have "length (pb_in t) < length (pb_in s)" using pb_turn_shorter [of order s t] by simp
      with less.hyps [of t k] less.hyps [of t "length (pb_in s)"] n(2)
      have "pb_loop order k t = pb_loop order (length (pb_in s)) t" by simp
      with n(1) t show ?thesis by simp
    qed (simp add: n(1) t)
  qed
qed

text \<open>A session: the requests, then 4, then whatever follows.\<close>

lemma pb_session:
  assumes order: "\<forall>es. mset (order es) = mset es"
  shows "list_all request_ok qs \<Longrightarrow> book_ok s \<Longrightarrow> pb_in s = concat (map request_text qs) @ [52, 10] @ r
    \<Longrightarrow> \<exists>t. pb_loop order (Suc (length qs)) s = Some t \<and> pb_in t = r
      \<and> map_of (pb_book t) = fold book_after qs (map_of (pb_book s))"
proof (induction qs arbitrary: s)
  case Nil
  then show ?case by (simp add: pb_defs read_choice)
next
  case (Cons q qs)
  then obtain t where t: "pb_turn order s = (True, t)" "book_ok t"
    "pb_in t = concat (map request_text qs) @ [52, 10] @ r" "map_of (pb_book t) = book_after q (map_of (pb_book s))"
    using pb_turn_request [OF order, of q s "concat (map request_text qs) @ [52, 10] @ r"] by auto
  then show ?case using Cons.IH [of t] Cons.prems(1) by simp
qed

end
