(* ===== verification/Matrix_Sum.thy ===== *)
theory Matrix_Sum
  imports Rust_Text
begin

section \<open>The sum of two matrices\<close>

text \<open>
  The Rust program \<^verbatim>\<open>lab2/malloc\<close>.  A panic ends the program: it is the \<open>Inl\<close> of a
  result.  Whether a sum out of the range of \<^verbatim>\<open>i32\<close> panics or wraps around depends on the
  profile the program is built with, the parameter \<open>checked\<close>; whether memory can be had is the
  parameter \<open>mem\<close>.
\<close>

datatype panic =
    Bad_Number \<comment> \<open>a size is not a number\<close>
  | Bad_Entry \<comment> \<open>an entry is not a number\<close>
  | Bad_Columns nat nat \<comment> \<open>a row has another number of entries\<close>
  | Capacity_Overflow
  | Out_Of_Memory
  | Add_Overflow

definition rbind :: "panic + 'a \<Rightarrow> ('a \<Rightarrow> panic + 'b) \<Rightarrow> panic + 'b" where
  "rbind m f = (case m of Inl e \<Rightarrow> Inl e | Inr x \<Rightarrow> f x)"

lemma rbind_simps [simp]: "rbind (Inl e) f = Inl e" "rbind (Inr x) f = f x"
  by (simp_all add: rbind_def)

fun collect :: "('a \<Rightarrow> panic + 'b) \<Rightarrow> 'a list \<Rightarrow> panic + 'b list" where
  "collect f [] = Inr []"
| "collect f (x # xs) = rbind (f x) (\<lambda>y. rbind (collect f xs) (\<lambda>ys. Inr (y # ys)))"

lemma collect_Inr: "\<forall>x \<in> set xs. f x = Inr (g x) \<Longrightarrow> collect f xs = Inr (map g xs)"
  by (induction xs) simp_all

subsection \<open>Numbers\<close>

definition udigit :: "nat \<Rightarrow> bool" where "udigit c \<longleftrightarrow> 48 \<le> c \<and> c \<le> 57"

text \<open>\<^verbatim>\<open>str::parse\<close>: a sign, which for an unsigned type can only be plus, and digits.\<close>

definition parse_digits :: "ustring \<Rightarrow> nat option" where
  "parse_digits ds =
     (if ds \<noteq> [] \<and> list_all udigit ds then Some (foldl (\<lambda>n c. 10 * n + (c - 48)) 0 ds) else None)"

definition parse_usize :: "ustring \<Rightarrow> nat option" where
  "parse_usize s =
     (case parse_digits (if s \<noteq> [] \<and> hd s = 43 then tl s else s) of
        Some n \<Rightarrow> if n < 2 ^ 64 then Some n else None
      | None \<Rightarrow> None)"

definition parse_i32 :: "ustring \<Rightarrow> int option" where
  "parse_i32 s =
     (case parse_digits (if s \<noteq> [] \<and> hd s \<in> {43, 45} then tl s else s) of
        Some n \<Rightarrow>
          let v = (if hd s = 45 then - int n else int n) in
          if - (2 ^ 31) \<le> v \<and> v < 2 ^ 31 then Some v else None
      | None \<Rightarrow> None)"

definition ushow :: "int \<Rightarrow> ustring" where
  "ushow i = map of_char (show_int i)"

definition ushow_nat :: "nat \<Rightarrow> ustring" where
  "ushow_nat n = map of_char (show_nat n)"

lemma parse_digits_show: "parse_digits (ushow_nat n) = Some n"
proof -
  have "foldl (\<lambda>n c. 10 * n + (c - 48)) k (map of_char ds) = foldl (\<lambda>n c. 10 * n + digit_val c) k ds" for k ds
    by (induction ds arbitrary: k) (simp_all add: digit_val_def)
  moreover have "list_all udigit (map of_char (show_nat n))"
    using show_nat_digits [of n] by (auto simp: list_all_iff udigit_def is_digit_def)
  ultimately show ?thesis by (simp add: parse_digits_def ushow_nat_def foldl_show_nat)
qed

lemma ushow_nat_hd: "ushow_nat n \<noteq> [] \<and> udigit (hd (ushow_nat n))"
  using show_nat_digits [of n] by (cases "show_nat n") (auto simp: ushow_nat_def udigit_def is_digit_def)

lemma parse_usize_show: "n < 2 ^ 64 \<Longrightarrow> parse_usize (ushow_nat n) = Some n"
  using ushow_nat_hd [of n] by (auto simp: parse_usize_def parse_digits_show udigit_def)

lemma parse_i32_show:
  assumes "- (2 ^ 31) \<le> i" "i < 2 ^ 31"
  shows "parse_i32 (ushow i) = Some i"
proof (cases "i < 0")
  case True
  then have "ushow i = 45 # ushow_nat (nat (- i))" by (simp add: ushow_def show_int_def ushow_nat_def)
  with True assms show ?thesis by (simp add: parse_i32_def parse_digits_show)
next
  case False
  then have i: "ushow i = ushow_nat (nat i)" by (simp add: ushow_def show_int_def ushow_nat_def)
  have "hd (ushow_nat (nat i)) \<notin> {43, 45}" using ushow_nat_hd [of "nat i"] by (auto simp: udigit_def)
  with False assms i show ?thesis by (simp add: parse_i32_def parse_digits_show)
qed

subsection \<open>The program\<close>

function split_whitespace :: "ustring \<Rightarrow> ustring list" where
  "split_whitespace s =
     (let t = dropWhile white s in
      if t = [] then [] else takeWhile (\<lambda>c. \<not> white c) t # split_whitespace (dropWhile (\<lambda>c. \<not> white c) t))"
  by pat_completeness auto
termination
proof (relation "measure length")
  fix s t :: ustring
  assume t: "t = dropWhile white s" "t \<noteq> []"
  then have "\<not> white (hd t)" using hd_dropWhile by blast
  with t(2) have "length (dropWhile (\<lambda>c. \<not> white c) t) < length t"
    by (cases t) (simp_all add: length_dropWhile_le less_Suc_eq_le)
  also have "\<dots> \<le> length s" by (simp add: t(1) length_dropWhile_le)
  finally show "(dropWhile (\<lambda>c. \<not> white c) t, s) \<in> measure length" by simp
qed simp

declare split_whitespace.simps [simp del]

definition ask_sizes :: ustring where
  "ask_sizes = [54665, 47148, 32, 65, 50752, 32, 66, 51032, 32, 53356, 44592, 32, 51077, 47141, 10]"

definition ask_rows :: ustring where
  "ask_rows = [54665, 32, 53356, 44592, 32, 51077, 47141, 58, 10]"

definition ask_cols :: ustring where
  "ask_cols = [50676, 32, 53356, 44592, 32, 51077, 47141, 58, 10]"

definition ask_a :: ustring where
  "ask_a = [54665, 47148, 32, 65, 32, 51077, 47141, 10]"

definition ask_b :: ustring where
  "ask_b = [54665, 47148, 32, 66, 32, 51077, 47141, 10]"

definition sum_title :: ustring where
  "sum_title = [45927, 49480, 32, 44208, 44284, 32, 40, 65, 32, 43, 32, 66, 41, 10]"

definition enter_1 :: ustring where
  "enter_1 = [32, 54665, 47148, 51032, 32, 50896, 49548, 47484, 32, 51077, 47141, 54633, 45768,
     45796, 46, 32, 44033, 32, 54665, 51008, 32]"

definition enter_2 :: ustring where
  "enter_2 = [44060, 51032, 32, 49707, 51088, 47484, 32, 44277, 48177, 51004, 47196, 32, 44396,
     48516, 54616, 50668, 32, 51077, 47141, 54616, 49464, 50836, 46, 10]"

definition row_1 :: ustring where
  "row_1 = [54665, 32]"

definition row_2 :: ustring where
  "row_2 = [32, 51077, 47141, 58, 10]"

definition read_usize :: "ustring \<Rightarrow> panic + (nat \<times> ustring)" where
  "read_usize input = (case read_string input of
      (w, r) \<Rightarrow> (case parse_usize w of None \<Rightarrow> Inl Bad_Number | Some n \<Rightarrow> Inr (n, r)))"

definition read_row :: "nat \<Rightarrow> ustring \<Rightarrow> panic + int list" where
  "read_row cols w =
     rbind (collect (\<lambda>s. case parse_i32 s of None \<Rightarrow> Inl Bad_Entry | Some v \<Rightarrow> Inr v) (split_whitespace w)) (\<lambda>row.
     if length row \<noteq> cols then Inl (Bad_Columns (length row) cols) else Inr row)"

text \<open>The rows from \<open>i\<close> on, with the input left and what was printed.\<close>

fun read_rows :: "nat \<Rightarrow> nat \<Rightarrow> nat \<Rightarrow> ustring \<Rightarrow> panic + (int list list \<times> ustring \<times> ustring)" where
  "read_rows cols i 0 input = Inr ([], input, [])"
| "read_rows cols i (Suc n) input =
     (case read_string input of (w, r) \<Rightarrow>
        rbind (read_row cols w) (\<lambda>row.
        rbind (read_rows cols (Suc i) n r) (\<lambda>(rows, r, out).
        Inr (row # rows, r, row_1 @ ushow_nat i @ row_2 @ out))))"

text \<open>\<^verbatim>\<open>Vec::with_capacity\<close>: a row's header has 24 bytes, and no allocation can have more than
  \<^verbatim>\<open>isize::MAX\<close>.\<close>

definition read_matrix :: "(nat \<Rightarrow> bool) \<Rightarrow> nat \<Rightarrow> nat \<Rightarrow> ustring \<Rightarrow> panic + (int list list \<times> ustring \<times> ustring)" where
  "read_matrix mem rows cols input =
     (if 2 ^ 63 \<le> rows * 24 then Inl Capacity_Overflow
      else if \<not> mem (rows * 24) then Inl Out_Of_Memory
      else rbind (read_rows cols 0 rows input) (\<lambda>(m, r, out).
        Inr (m, r, ushow_nat rows @ [120] @ ushow_nat cols @ enter_1 @ ushow_nat cols @ enter_2 @ out)))"

definition add_i32 :: "bool \<Rightarrow> int \<Rightarrow> int \<Rightarrow> panic + int" where
  "add_i32 checked x y =
     (let v = x + y in
      if - (2 ^ 31) \<le> v \<and> v < 2 ^ 31 then Inr v
      else if checked then Inl Add_Overflow
      else Inr ((v + 2 ^ 31) mod 2 ^ 32 - 2 ^ 31))"

definition add_matrices :: "bool \<Rightarrow> int list list \<Rightarrow> int list list \<Rightarrow> panic + int list list" where
  "add_matrices checked a b = collect (\<lambda>(x, y). collect (\<lambda>(v, w). add_i32 checked v w) (zip x y)) (zip a b)"

definition print_matrix :: "int list list \<Rightarrow> ustring" where
  "print_matrix m = concat (map (\<lambda>row. concat (map (\<lambda>v. ushow v @ [9]) row) @ [10]) m)"

definition matrix_main :: "bool \<Rightarrow> (nat \<Rightarrow> bool) \<Rightarrow> ustring \<Rightarrow> panic + ustring" where
  "matrix_main checked mem input =
     rbind (read_usize input) (\<lambda>(rows, input).
     rbind (read_usize input) (\<lambda>(cols, input).
     rbind (read_matrix mem rows cols input) (\<lambda>(a, input, out_a).
     rbind (read_matrix mem rows cols input) (\<lambda>(b, input, out_b).
     rbind (add_matrices checked a b) (\<lambda>c.
     Inr (ask_sizes @ ask_rows @ ask_cols @ ask_a @ out_a @ ask_b @ out_b @ sum_title @ print_matrix c))))))"

subsection \<open>What is printed\<close>

text \<open>A matrix as a user types it.\<close>

fun unwords :: "ustring list \<Rightarrow> ustring" where
  "unwords [] = []"
| "unwords [w] = w"
| "unwords (w # v # ws) = w @ 32 # unwords (v # ws)"

definition matrix_text :: "int list list \<Rightarrow> ustring" where
  "matrix_text m = concat (map (\<lambda>row. unwords (map ushow row) @ [10]) m)"

definition i32 :: "int \<Rightarrow> bool" where
  "i32 v \<longleftrightarrow> - (2 ^ 31) \<le> v \<and> v < 2 ^ 31"

definition matrix_ok :: "nat \<Rightarrow> nat \<Rightarrow> int list list \<Rightarrow> bool" where
  "matrix_ok rows cols m \<longleftrightarrow> length m = rows \<and> (\<forall>row \<in> set m. length row = cols \<and> list_all i32 row)"

definition bare_word :: "ustring \<Rightarrow> bool" where
  "bare_word w \<longleftrightarrow> w \<noteq> [] \<and> (\<forall>c \<in> set w. \<not> white c)"

lemma udigit_not_white: "udigit c \<Longrightarrow> \<not> white c"
  by (auto simp: udigit_def white_def)

lemma bare_ushow: "bare_word (ushow_nat n)" "bare_word (ushow i)"
proof -
  have "\<forall>c \<in> set (ushow_nat n). udigit c" for n
    using show_nat_digits [of n] by (auto simp: ushow_nat_def udigit_def is_digit_def)
  then show n: "bare_word (ushow_nat n)" for n
    using ushow_nat_hd [of n] udigit_not_white by (auto simp: bare_word_def)
  have "\<not> white 45" by (simp add: white_def)
  then show "bare_word (ushow i)"
    using n [of "nat i"] n [of "nat (- i)"] by (auto simp: bare_word_def ushow_def ushow_nat_def show_int_def)
qed

lemma bare_line: "bare_word w \<Longrightarrow> plain_line w"
  by (auto simp: bare_word_def plain_line_def)

lemma unwords_ends:
  "\<forall>w \<in> set (w # ws). bare_word w \<Longrightarrow>
   unwords (w # ws) \<noteq> [] \<and> \<not> white (hd (unwords (w # ws))) \<and> \<not> white (last (unwords (w # ws))) \<and> 10 \<notin> set (unwords (w # ws))"
  by (induction ws arbitrary: w) (auto simp: bare_word_def)

lemma unwords_line: "\<forall>w \<in> set ws. bare_word w \<Longrightarrow> plain_line (unwords ws)"
  using unwords_ends [of "hd ws" "tl ws"] by (cases ws) (simp_all add: plain_line_def)

lemma split_word:
  assumes "bare_word w"
  shows "split_whitespace (w @ 32 # r) = w # split_whitespace r" "split_whitespace w = [w]"
proof -
  have n: "\<forall>c \<in> set w. \<not> white c" "dropWhile white (w @ r) = w @ r" for r
    using assms by (cases w; simp add: bare_word_def)+
  have "white 32" by (simp add: white_def)
  moreover have "split_whitespace (32 # r) = split_whitespace r"
    by (subst (1 2) split_whitespace.simps) (simp add: white_def)
  ultimately show "split_whitespace (w @ 32 # r) = w # split_whitespace r"
    using assms n by (subst split_whitespace.simps) (simp add: bare_word_def takeWhile_append dropWhile_append)
  have "dropWhile (\<lambda>c. \<not> white c) w = []" "takeWhile (\<lambda>c. \<not> white c) w = w" "dropWhile white w = w"
    using n(1) n(2) [of "[]"] by simp_all
  moreover have "split_whitespace [] = []" by (subst split_whitespace.simps) simp
  ultimately show "split_whitespace w = [w]"
    using assms by (subst split_whitespace.simps) (simp only: bare_word_def Let_def if_False)
qed

lemma split_unwords: "\<forall>w \<in> set ws. bare_word w \<Longrightarrow> split_whitespace (unwords ws) = ws"
proof (induction ws rule: unwords.induct)
  case 1
  then show ?case by (simp add: split_whitespace.simps)
qed (simp_all add: split_word)

lemma read_row_text:
  assumes "length row = cols" "list_all i32 row"
  shows "read_row cols (unwords (map ushow row)) = Inr row"
proof -
  have "split_whitespace (unwords (map ushow row)) = map ushow row"
    by (rule split_unwords) (auto simp: bare_ushow)
  moreover have "collect (\<lambda>s. case parse_i32 s of None \<Rightarrow> Inl Bad_Entry | Some v \<Rightarrow> Inr v) (map ushow row) = Inr row"
    using assms(2) by (induction row) (simp_all add: i32_def parse_i32_show)
  ultimately show ?thesis using assms(1) by (simp add: read_row_def)
qed

lemma read_rows_text:
  "matrix_ok rows cols m \<Longrightarrow>
   \<exists>out. read_rows cols i rows (matrix_text m @ r) = Inr (m, r, out)"
proof (induction m arbitrary: i rows)
  case Nil
  then show ?case by (simp add: matrix_ok_def matrix_text_def)
next
  case (Cons row m)
  then obtain n where n: "rows = Suc n" "matrix_ok n cols m" by (auto simp: matrix_ok_def)
  have "plain_line (unwords (map ushow row))" by (rule unwords_line) (auto simp: bare_ushow)
  then have "read_string (unwords (map ushow row) @ 10 # matrix_text m @ r) = (unwords (map ushow row), matrix_text m @ r)"
    by (rule read_string_line)
  moreover obtain out where "read_rows cols (Suc i) n (matrix_text m @ r) = Inr (m, r, out)"
    using Cons.IH [OF n(2)] by blast
  moreover have "read_row cols (unwords (map ushow row)) = Inr row"
    using Cons.prems by (intro read_row_text) (simp_all add: matrix_ok_def)
  ultimately show ?case by (simp add: n(1) matrix_text_def)
qed

lemma read_usize_text:
  assumes "n < 2 ^ 64"
  shows "read_usize (ushow_nat n @ 10 # r) = Inr (n, r)"
  using read_string_line [OF bare_line [OF bare_ushow(1)], of n r] parse_usize_show [OF assms]
  by (simp add: read_usize_def)

text \<open>Two matrices as typed are read as they are, and what is printed last is their sum, entry by
  entry; a sum that leaves \<^verbatim>\<open>i32\<close> ends a checked program and wraps around in another.\<close>

lemma add_matrices_exact:
  assumes "\<forall>(x, y) \<in> set (zip a b). \<forall>(v, w) \<in> set (zip x y). i32 (v + w)"
  shows "add_matrices checked a b = Inr (map2 (map2 (+)) a b)"
  unfolding add_matrices_def
proof (rule collect_Inr, clarify)
  fix x y assume "(x, y) \<in> set (zip a b)"
  with assms have "\<forall>(v, w) \<in> set (zip x y). i32 (v + w)" by blast
  then show "collect (\<lambda>(v, w). add_i32 checked v w) (zip x y) = Inr (map2 (+) x y)"
    by (intro collect_Inr) (auto simp: add_i32_def i32_def)
qed

lemma matrix_main_sums:
  assumes "matrix_ok rows cols a" "matrix_ok rows cols b" "rows * 24 < 2 ^ 63" "cols < 2 ^ 64" "mem (rows * 24)"
    and "\<forall>(x, y) \<in> set (zip a b). \<forall>(v, w) \<in> set (zip x y). i32 (v + w)"
  shows "\<exists>out. matrix_main checked mem (ushow_nat rows @ 10 # ushow_nat cols @ 10 # matrix_text a @ matrix_text b)
    = Inr (out @ sum_title @ print_matrix (map2 (map2 (+)) a b))"
proof -
  obtain out_a where a: "read_rows cols 0 rows (matrix_text a @ matrix_text b) = Inr (a, matrix_text b, out_a)"
    using read_rows_text [OF assms(1)] by blast
  obtain out_b where b: "read_rows cols 0 rows (matrix_text b) = Inr (b, [], out_b)"
    using read_rows_text [OF assms(2), of 0 "[]"] by auto
  have "rows < 2 ^ 64" using assms(3) by simp
  with a b assms(3-5) show ?thesis
    by (simp add: matrix_main_def read_usize_text read_matrix_def add_matrices_exact [OF assms(6)])
qed

text \<open>Sizes for which no memory can be asked panic before anything is read.\<close>

lemma matrix_main_capacity:
  assumes "2 ^ 63 \<le> rows * 24" "rows < 2 ^ 64" "cols < 2 ^ 64"
  shows "matrix_main checked mem (ushow_nat rows @ 10 # ushow_nat cols @ 10 # r) = Inl Capacity_Overflow"
  using assms by (simp add: matrix_main_def read_usize_text read_matrix_def)

lemma add_i32_wraps:
  "add_i32 False (2 ^ 31 - 1) 1 = Inr (- (2 ^ 31))" "add_i32 True (2 ^ 31 - 1) 1 = Inl Add_Overflow"
  by (simp_all add: add_i32_def)

end
