(* ===== verification/Spec2Isabelle.thy ===== *)
theory Spec2Isabelle
  imports Arg_Split Buffer_Monitor Turns Auth_File Chat_Widgets Select_Server Simple_Shell Web_Server
    Web_Processes Net_Start Shared_Counter Message_Queue Pipe_Messages Signals Dir_Listing Echo
    File_Programs Calculator Click_Counter Terminal_Programs Library_Programs Libc_Examples Notify
    Thread_Examples Process_Examples Ipc_Start Thread_Start Search_Tree Clocks Phone_Book Matrix_Sum
begin

text \<open>
  Verification library of the programs under \<^verbatim>\<open>src/\<close>.

  \<^bold>\<open>The repository.\<close>  It holds two projects and the exercises that led to them.
  \<^verbatim>\<open>project1\<close> is a shell: \<^verbatim>\<open>myshell.c\<close> (reading a line, background and pipe
  marks, words, redirections, dispatch) and \<^verbatim>\<open>commands.c\<close> (the built-in commands, over
  the file system).  \<^verbatim>\<open>project2\<close> is a messenger: \<^verbatim>\<open>gui_server.c\<close> (one thread per
  client over a shared registry, accounts in \<^verbatim>\<open>users.txt\<close>, rooms) and
  \<^verbatim>\<open>gui_client.c\<close> (a GTK window whose callbacks write the requests the server parses).
  The exercises are small complete programs around one mechanism each: \<^verbatim>\<open>lab3/2\<close> to
  \<^verbatim>\<open>lab3/4\<close> (threads and condition variables), \<^verbatim>\<open>lab3/5\<close> to \<^verbatim>\<open>lab3/7\<close> (sockets,
  \<^verbatim>\<open>select\<close>, CGI), \<^verbatim>\<open>lab3/8\<close> and \<^verbatim>\<open>lab3/9\<close> (GTK: a counter of clicks, a calculator),
  \<^verbatim>\<open>lab2\<close> (files, pipes, message queues, shared memory, processes, signals, the D-Bus).

  \<^bold>\<open>Conventions.\<close>  Bytes are characters, strings are lists of bytes; an array is a list of its
  bytes, and a definition that writes or reads outside one, uses an uninitialised or freed object
  or overflows \<^verbatim>\<open>int\<close> returns \<open>Inl\<close> of a \<open>c_fault\<close> (theory \<open>C_Prelude\<close>).
  Results of system calls that can fail are inputs of a definition or events of a run.
  Sequential code is a function on a record of the program's state, named as in the source;
  concurrent code is a step relation between the calls at which another thread or process can
  come in, or a function of a list of events, with every order of events allowed.  An event that
  a state does not admit leaves it as it is.

  \<^bold>\<open>Shared theories.\<close>
  \<^item> \<open>C_Prelude\<close>: faults, arrays and strings, \<^verbatim>\<open>strchr\<close>, \<^verbatim>\<open>strstr\<close>,
    \<^verbatim>\<open>sscanf("%s")\<close>, \<^verbatim>\<open>atoi\<close>, \<^verbatim>\<open>"%d"\<close>, \<^verbatim>\<open>fgets\<close>, with the
    round trip of printing and reading a number.
  \<^item> \<open>Transition\<close>: reachable states, runs with the operations they show to a user, the
    locales \<open>inductive_invariant\<close> and \<open>labelled_refinement\<close> (an abstract machine
    performs the operations of a run and ends where the run does), and counting of threads.  The
    locales are interpreted in \<open>Buffer_Monitor\<close>,
    \<open>Turns\<close>, \<open>Shell\<close>, \<open>Shared_Counter\<close>, \<open>Signals\<close>, \<open>Web_Processes\<close>,
    \<open>Chat_Service\<close> and \<open>Thread_Examples\<close> on the programs' own steps.
  \<^item> \<open>Widgets\<close>: the trees of widgets of the GTK programs, over the type of their callbacks.
  \<^item> \<open>File_Store\<close>, \<open>File_Invariant\<close>, \<open>File_Paths\<close>: the POSIX file system as the programs
    use it: paths, inodes, hard and symbolic links, one definition per system call, the
    well-formedness that every call keeps, and what each call changes.  Permissions are not
    checked: the model is of a user who may do everything.  A resolution follows at most 40
    symbolic links, as Linux does.

  \<^bold>\<open>The shell.\<close>  \<open>Arg_Split\<close> has the two splitters of words, \<^verbatim>\<open>parse_args\<close> and
  \<^verbatim>\<open>getargs\<close>, with the words they leave behind their pointers.  \<open>Commands\<close> has one
  definition per built-in command and \<open>Command_Laws\<close> what each does to the files and prints.
  \<open>Shell\<close> has the loop of \<^verbatim>\<open>main\<close>: what a typed line makes the shell do, down to
  the system call and the message of its failure, the redirections, the end of the loop.  Other
  programs and the kernel's process calls are a parameter record, and the termination of the loop
  asks of it only that programs do not type.  \<open>shell_loop\<close> has a number of turns as fuel, and
  \<open>shell_loop_terminates\<close> shows that one turn more than there are characters is enough.
  \<open>Simple_Shell\<close> is \<^verbatim>\<open>lab2/ch8/simplesh.c\<close>, related to the first shell.
  \<^verbatim>\<open>readline\<close>'s history has no effect on the rest and is left out.

  \<^bold>\<open>The messenger.\<close>  \<open>Auth_File\<close> is \<^verbatim>\<open>process_auth\<close> over the bytes of the user file,
  refined by a map from ids to passwords
  (locale \<open>account_store\<close>).  \<open>Chat_Server\<close> has the registry, the heap of clients
  and the handler threads, whose events are the sections between lock and unlock;
  \<open>Chat_Rooms\<close> and \<open>Chat_Logins\<close> its properties: broadcasts, logins, departures, and
  the runs that go wrong.  \<open>Chat_Service\<close> is what the server promises: a service of members
  in rooms that determines, for every input (a connection, a request, its verdict, a line, a
  departure), what becomes of the members and which messages go to whom; the server's runs are
  proved to deliver exactly that.  \<open>Chat_Window\<close> has the
  callbacks of the client, \<open>Chat_System\<close> puts a window for each client and the server
  together (what is typed in one window is shown in the others) and \<open>Chat_Widgets\<close> has the
  trees of widgets that the callbacks are connected to.  The composition reads each write by one
  read; the last part of \<open>Chat_System\<close> shows what happens when a stream joins two.

  \<^bold>\<open>Threads.\<close>  \<open>Ring_Buffer\<close> (locale \<open>bounded_queue\<close>) and \<open>Buffer_Monitor\<close> are the two bounded
  buffers: mutual
  exclusion, no deadlock, order, and the refinement to a bounded queue (the insertions and removals
  of every run, each with its item, are accepted by a queue), with failing calls and
  spurious wake-ups.  A signal of a condition variable wakes one waiting thread.  \<open>Turns\<close> is
  \<^verbatim>\<open>lab3/4/hellothread.c\<close>, \<open>Thread_Examples\<close> the programs of \<^verbatim>\<open>lab3/2\<close> that greet, join
  and cancel threads, \<open>Thread_Start\<close> what \<^verbatim>\<open>main\<close> of the first three does.

  \<^bold>\<open>Sockets.\<close>  \<open>Select_Server\<close> is the chat of \<^verbatim>\<open>lab3/6\<close> (descriptors are below
  \<^verbatim>\<open>FD_SETSIZE\<close>, 1024), \<open>Web_Server\<close> one request of \<^verbatim>\<open>lab3/7/cgiserver.c\<close> with
  its CGI program, \<open>Web_Processes\<close> its children, \<open>Echo\<close> the echo programs of
  \<^verbatim>\<open>lab3/5\<close> (locale \<open>echo_service\<close>).  \<open>Net_Start\<close> has what all of them and the
  messenger do before their loops: arguments, ports as 16-bit words, addresses, failures.

  \<^bold>\<open>Processes.\<close>  \<open>Shared_Counter\<close> is \<^verbatim>\<open>lab2/memorymapfile.c\<close> (the counter is a 64-bit
  word, whose loads and stores are single steps), \<open>Message_Queue\<close> and \<open>Pipe_Chat\<close> are the
  chats over message queues and pipes, \<open>Pipe_Messages\<close> the three programs that send messages
  of 16 bytes (the memory behind the shorter literals of two of them is a parameter), \<open>Ipc_Start\<close> what all of these do before their loops (which process holds
  which end of which pipe, the queues, the mapping), \<open>Signals\<close> those in which signals go back and forth, \<open>Process_Examples\<close> the
  small ones around \<^verbatim>\<open>fork\<close>, \<^verbatim>\<open>wait\<close>, \<^verbatim>\<open>alarm\<close> and \<^verbatim>\<open>raise\<close>, \<open>Notify\<close>
  the service on the D-Bus and its client.

  \<^bold>\<open>Files and the terminal.\<close>  \<open>Dir_Listing\<close> is \<^verbatim>\<open>lab2/ls_R.c\<close>; its recursion has fuel,
  \<open>None\<close> meaning too little, and \<open>ls_R_lists\<close> shows that the depth of the tree is enough.
  \<open>File_Programs\<close> has the copying and counting programs, \<open>Terminal_Programs\<close> the
  password prompt and the typing test, \<open>Calculator\<close> the callbacks and the window of
  \<^verbatim>\<open>lab3/9\<close>, over the arithmetic of \<^verbatim>\<open>double\<close> as a parameter, \<open>Click_Counter\<close> the
  window of \<^verbatim>\<open>lab3/8\<close>.  \<open>Library_Programs\<close> is \<^verbatim>\<open>lab1\<close>: the
  arithmetic library, the assertion macro, the table of \<^verbatim>\<open>lsearch\<close>; \<open>Libc_Examples\<close>
  adds \<^verbatim>\<open>getopt\<close>, \<open>Search_Tree\<close> the tree of names of \<^verbatim>\<open>testtsearch.c\<close> over any
  behaviour of \<^verbatim>\<open>tsearch\<close> that the standard allows, \<open>Calendar\<close> the conversions of
  \<^verbatim>\<open>time.h\<close> and \<open>Clocks\<close> the two programs that use them.

  \<^bold>\<open>Rust.\<close>  \<open>Rust_Text\<close> has strings and lines, \<open>Phone_Book\<close> is \<^verbatim>\<open>lab2/number\<close> (a
  loop over a menu, with fuel: one turn more than there are characters decides whether it ends) and
  \<open>Matrix_Sum\<close> is \<^verbatim>\<open>lab2/malloc\<close>, whose panics are values of a sum type.

  \<^bold>\<open>What the theorems show.\<close>  Functional behaviour on every branch of the central operations
  (accounts, broadcasts, commands, requests, redirections); invariants and safety of the
  concurrent programs in all reachable states; refinements to a bounded queue, an account map, a
  service of rooms and a specification of redirections; equivalences (the two shells, the three ways to copy); round
  trips between the two ends of a protocol; termination of the loops; and, where the code is
  wrong, the run or the input that shows it (departures from the registry, two logins under one
  name, lost signals, joined writes, buffers that are overrun by one byte).

  \<^bold>\<open>Not modelled.\<close>  Borders, alignment and positions of widgets; the GTK and D-Bus libraries, which
  are not under \<^verbatim>\<open>src/\<close>: their calls are inputs; summer time and time zones with a history
  (\<open>Calendar\<close> has fixed offsets); the shell scripts of \<^verbatim>\<open>lab1\<close>.  In the messenger's
  server, writes to a client's socket are complete and do not raise SIGPIPE, and the second
  \<^verbatim>\<open>fopen\<close> of \<^verbatim>\<open>process_auth\<close>, for appending, succeeds.  In the signal programs the members
  of \<^verbatim>\<open>struct sigaction\<close> that the code leaves uninitialised are taken to be zero.
\<close>

end
